(* ===== verification/Prelude.thy ===== *)
theory Prelude
  imports Main "HOL-Library.Word" "HOL-Library.Multiset" "HOL-Library.Sublist"
begin

text \<open>
  Shared vocabulary of the development: the type names used for C values, the ways in
  which a C operation can go wrong, and the generic lemmas on sums, lists and finite
  counts that several components need.
\<close>

type_synonym byte = "8 word"
type_synonym bytes = "8 word list"
type_synonym addr = nat

text \<open>
  What a C operation does instead of returning: it dereferences \<open>NULL\<close> or a block that is
  not allocated, frees a block that is not allocated, reads or writes outside a buffer, or
  ends the process with an exit code.
\<close>

datatype c_error =
    NullDeref
  | DanglingDeref
  | BadFree
  | OutOfBounds
  | Exit int

named_theorems inv_defs "definitions of the component invariants"

section \<open>Sums over a bounded family\<close>

text \<open>
  Counters such as \<open>num_threads_working\<close> are compared with a sum over the threads. A step
  changes the summand of one thread; this is the equation every such step uses.
\<close>

lemma sum_upd_lessThan:
  fixes f :: "'b \<Rightarrow> 'c :: comm_monoid_add" and t n :: nat
  assumes "t < n"
  shows "(\<Sum>i<n. f ((g(t := x)) i)) + f (g t) = (\<Sum>i<n. f (g i)) + f x"
proof -
  have split: "{..<n} = insert t ({..<n} - {t})" using assms by auto
  have "(\<Sum>i<n. f ((g(t := x)) i)) = f x + (\<Sum>i\<in>{..<n} - {t}. f ((g(t := x)) i))"
    by (subst split, subst sum.insert) auto
  moreover have "(\<Sum>i\<in>{..<n} - {t}. f ((g(t := x)) i)) = (\<Sum>i\<in>{..<n} - {t}. f (g i))"
    by (rule sum.cong) auto
  moreover have "(\<Sum>i<n. f (g i)) = f (g t) + (\<Sum>i\<in>{..<n} - {t}. f (g i))"
    by (subst split, subst sum.insert) auto
  ultimately show ?thesis by (simp add: ac_simps)
qed

lemma sum_upd_same:
  fixes f :: "'b \<Rightarrow> 'c :: comm_monoid_add" and t n :: nat
  assumes "f x = f (g t)"
  shows "(\<Sum>i<n. f ((g(t := x)) i)) = (\<Sum>i<n. f (g i))"
  using assms by (intro sum.cong) auto

lemma sum_upd_int:
  fixes f :: "'b \<Rightarrow> int" and t n :: nat
  assumes "t < n"
  shows "(\<Sum>i<n. f ((g(t := x)) i)) = (\<Sum>i<n. f (g i)) + f x - f (g t)"
  using sum_upd_lessThan [OF assms, of f g x] by simp

text \<open>The same equations in the shape the simplifier leaves function updates in.\<close>

lemma sum_if_int:
  fixes f :: "'b \<Rightarrow> int" and t n :: nat
  assumes "t < n"
  shows "(\<Sum>i<n. f (if i = t then x else g i)) = (\<Sum>i<n. f (g i)) + f x - f (g t)"
  using sum_upd_int [OF assms, of f g x] by (simp add: fun_upd_def)

lemma sum_if_mset:
  fixes f :: "'b \<Rightarrow> 'c multiset" and t n :: nat
  assumes "t < n"
  shows "(\<Sum>i<n. f (if i = t then x else g i)) = (\<Sum>i<n. f (g i)) + f x - f (g t)"
  using sum_upd_lessThan [OF assms, of f g x]
  by (simp add: fun_upd_def) (metis add_diff_cancel_right')

lemma sum_member_mset:
  fixes f :: "nat \<Rightarrow> 'c multiset"
  assumes "t < n"
  shows "f t \<subseteq># (\<Sum>i<n. f i)"
proof -
  have "(\<Sum>i<n. f i) = f t + (\<Sum>i\<in>{..<n} - {t}. f i)"
    using assms by (subst sum.remove [of _ t]) auto
  then show ?thesis by simp
qed

lemma sum_pos_member:
  fixes f :: "nat \<Rightarrow> int"
  assumes "t < n" and "\<And>i. 0 \<le> f i"
  shows "f t \<le> (\<Sum>i<n. f i)"
proof (rule member_le_sum)
  show "t \<in> {..<n}" using assms(1) by simp
  show "\<And>i. i \<in> {..<n} - {t} \<Longrightarrow> 0 \<le> f i" using assms(2) by blast
  show "finite {..<n}" by (rule finite_lessThan)
qed

end
