(* ===== verification/CString.thy ===== *)
theory CString
  imports Prelude
begin

text \<open>
  The C string functions the programs are built from: \<open>strtok\<close> and the loop that every parser
  of the repository runs over it, \<open>strrchr\<close>, decimal output as \<open>%d\<close> prints it, and string
  writes into fixed buffers with the overflow as an error. Strings are lists of characters
  without the terminating NUL.
\<close>

section \<open>strtok\<close>

text \<open>
  \<open>strtok ds s\<close> skips leading delimiters, returns the following run of other characters, and
  remembers the position after the one delimiter it has overwritten.
\<close>

definition strtok :: "'a set \<Rightarrow> 'a list \<Rightarrow> ('a list \<times> 'a list) option" where
  "strtok ds s =
     (let s' = dropWhile (\<lambda>c. c \<in> ds) s in
      if s' = [] then None
      else Some (takeWhile (\<lambda>c. c \<notin> ds) s', drop 1 (dropWhile (\<lambda>c. c \<notin> ds) s')))"

lemma strtok_shorter: "strtok ds s = Some (t, r) \<Longrightarrow> length r < length s"
proof -
  assume a: "strtok ds s = Some (t, r)"
  let ?s = "dropWhile (\<lambda>c. c \<in> ds) s"
  from a have ne: "?s \<noteq> []" and r: "r = drop 1 (dropWhile (\<lambda>c. c \<notin> ds) ?s)"
    by (auto simp: strtok_def Let_def split: if_splits)
  from ne have hd: "hd ?s \<notin> ds" by (rule hd_dropWhile)
  obtain c cs where c: "?s = c # cs" using ne by (cases ?s) auto
  with hd have "length (dropWhile (\<lambda>c. c \<notin> ds) ?s) \<le> length cs"
    by (simp add: length_dropWhile_le)
  with r c have "length r < length ?s" by simp
  then show ?thesis using length_dropWhile_le [of "\<lambda>c. c \<in> ds" s] by simp
qed

text \<open>The loop \<open>for (p = strtok(s, ds); p != NULL; p = strtok(NULL, ds))\<close>, collecting the tokens.\<close>

function strtok_all :: "'a set \<Rightarrow> 'a list \<Rightarrow> 'a list list" where
  "strtok_all ds s = (case strtok ds s of None \<Rightarrow> [] | Some (t, r) \<Rightarrow> t # strtok_all ds r)"
  by pat_completeness auto
termination
  by (relation "measure (\<lambda>(ds, s). length s)") (auto dest: strtok_shorter)

declare strtok_all.simps [simp del]

lemma strtok_all_Nil [simp]: "strtok_all ds [] = []"
  by (simp add: strtok_all.simps strtok_def)

lemma strtok_all_delim [simp]: "d \<in> ds \<Longrightarrow> strtok_all ds (d # s) = strtok_all ds s"
  by (simp add: strtok_all.simps [of ds "d # s"] strtok_all.simps [of ds s] strtok_def)

text \<open>A non-empty delimiter-free prefix followed by a delimiter or by the end is a token.\<close>

lemma strtok_all_token:
  assumes "w \<noteq> []" and "\<forall>c \<in> set w. c \<notin> ds" and "s = [] \<or> hd s \<in> ds"
  shows "strtok_all ds (w @ s) = w # strtok_all ds s"
proof -
  obtain c cs where w: "w = c # cs" using assms(1) by (cases w) auto
  then have "dropWhile (\<lambda>c. c \<in> ds) (w @ s) = w @ s" using assms(2) by simp
  moreover have "takeWhile (\<lambda>c. c \<notin> ds) (w @ s) = w @ takeWhile (\<lambda>c. c \<notin> ds) s"
    using assms(2) by (simp add: takeWhile_append2)
  moreover have "dropWhile (\<lambda>c. c \<notin> ds) (w @ s) = dropWhile (\<lambda>c. c \<notin> ds) s"
    using assms(2) by (simp add: dropWhile_append2)
  moreover have "takeWhile (\<lambda>c. c \<notin> ds) s = []" and "dropWhile (\<lambda>c. c \<notin> ds) s = s"
    using assms(3) by (cases s; auto)+
  ultimately have "strtok ds (w @ s) = Some (w, drop 1 s)" using w by (simp add: strtok_def)
  moreover have "strtok_all ds (drop 1 s) = strtok_all ds s" using assms(3) by (cases s) auto
  ultimately show ?thesis by (simp add: strtok_all.simps [of ds "w @ s"])
qed

lemma strtok_all_skip: "\<forall>c \<in> set p. c \<in> ds \<Longrightarrow> strtok_all ds (p @ s) = strtok_all ds s"
  by (induction p) auto

lemma strtok_all_delims: "\<forall>c \<in> set p. c \<in> ds \<Longrightarrow> strtok_all ds p = []"
  using strtok_all_skip [of p ds "[]"] by simp

text \<open>The tokens are never empty and contain no delimiter.\<close>

lemma strtok_all_clean: "t \<in> set (strtok_all ds s) \<Longrightarrow> t \<noteq> [] \<and> (\<forall>c \<in> set t. c \<notin> ds)"
proof (induction ds s arbitrary: t rule: strtok_all.induct)
  case (1 ds s)
  show ?case
  proof (cases "strtok ds s")
    case None
    with "1.prems" show ?thesis by (simp add: strtok_all.simps [of ds s])
  next
    case (Some p)
    then obtain u r where p: "strtok ds s = Some (u, r)" by (cases p) auto
    let ?s = "dropWhile (\<lambda>c. c \<in> ds) s"
    have "?s \<noteq> []" and u: "u = takeWhile (\<lambda>c. c \<notin> ds) ?s"
      using p by (auto simp: strtok_def Let_def split: if_splits)
    then have "hd ?s \<notin> ds" using hd_dropWhile by metis
    then have "u \<noteq> []" using u \<open>?s \<noteq> []\<close> by (cases ?s) auto
    moreover have "\<forall>c \<in> set u. c \<notin> ds" using u by (auto dest: set_takeWhileD)
    moreover have "t = u \<or> t \<in> set (strtok_all ds r)"
      using "1.prems" p by (simp add: strtok_all.simps [of ds s])
    ultimately show ?thesis using "1.IH" [OF p refl] by blast
  qed
qed

text \<open>
  What the loop computes, stated without its position pointer: cut the string at every
  delimiter and keep the non-empty pieces.
\<close>

fun pieces :: "'a set \<Rightarrow> 'a list \<Rightarrow> 'a list list" where
  "pieces ds [] = [[]]"
| "pieces ds (c # s) =
     (if c \<in> ds then [] # pieces ds s
      else (case pieces ds s of [] \<Rightarrow> [[c]] | p # ps \<Rightarrow> (c # p) # ps))"

lemma pieces_nonempty [simp]: "pieces ds s \<noteq> []"
  by (induction s) (auto split: list.splits)

lemma pieces_token:
  "\<forall>c \<in> set w. c \<notin> ds \<Longrightarrow> pieces ds (w @ s) = (w @ hd (pieces ds s)) # tl (pieces ds s)"
proof (induction w)
  case Nil
  then show ?case using pieces_nonempty [of ds s] by (simp del: pieces_nonempty)
next
  case (Cons c w)
  then show ?case by simp
qed

lemma pieces_boundary:
  "r = [] \<or> hd r \<in> ds \<Longrightarrow>
   hd (pieces ds r) = [] \<and> filter (\<lambda>p. p \<noteq> []) (tl (pieces ds r)) = filter (\<lambda>p. p \<noteq> []) (pieces ds r)"
  by (cases r) auto

lemma strtok_all_pieces: "strtok_all ds s = filter (\<lambda>p. p \<noteq> []) (pieces ds s)"
proof (induction "length s" arbitrary: s rule: less_induct)
  case less
  show ?case
  proof (cases s)
    case Nil
    then show ?thesis by simp
  next
    case (Cons c s')
    show ?thesis
    proof (cases "c \<in> ds")
      case True
      with Cons less show ?thesis by simp
    next
      case False
      let ?w = "takeWhile (\<lambda>c. c \<notin> ds) s" and ?r = "dropWhile (\<lambda>c. c \<notin> ds) s"
      have w: "?w \<noteq> []" "\<forall>c \<in> set ?w. c \<notin> ds" using Cons False by (auto dest: set_takeWhileD)
      have r: "?r = [] \<or> hd ?r \<in> ds" using hd_dropWhile [of "\<lambda>c. c \<notin> ds" s] by auto
      have "length ?r < length s" using Cons False by (simp add: le_imp_less_Suc length_dropWhile_le)
      with less have IH: "strtok_all ds ?r = filter (\<lambda>p. p \<noteq> []) (pieces ds ?r)" by blast
      have "strtok_all ds (?w @ ?r) = ?w # strtok_all ds ?r" using w r by (rule strtok_all_token)
      moreover have "filter (\<lambda>p. p \<noteq> []) (pieces ds (?w @ ?r)) = ?w # filter (\<lambda>p. p \<noteq> []) (pieces ds ?r)"
        using w pieces_boundary [OF r] by (simp add: pieces_token [OF w(2)] del: takeWhile_dropWhile_id)
      ultimately show ?thesis using IH by simp
    qed
  qed
qed

section \<open>strrchr\<close>

text \<open>The suffix that starts at the last occurrence of a character, if there is one.\<close>

definition strrchr :: "'a list \<Rightarrow> 'a \<Rightarrow> 'a list option" where
  "strrchr s c = (if c \<in> set s then Some (c # rev (takeWhile (\<lambda>d. d \<noteq> c) (rev s))) else None)"

lemma strrchr_last [simp]: "c \<notin> set t \<Longrightarrow> strrchr (p @ c # t) c = Some (c # t)"
proof -
  assume "c \<notin> set t"
  then have "takeWhile (\<lambda>d. d \<noteq> c) (rev t @ c # rev p) = rev t"
    by (subst takeWhile_append2) auto
  then show ?thesis by (simp add: strrchr_def)
qed

lemma strrchr_None: "c \<notin> set s \<Longrightarrow> strrchr s c = None"
  by (simp add: strrchr_def)

section \<open>Decimal output\<close>

definition digit :: "nat \<Rightarrow> char" where
  "digit d = char_of (48 + d)"

fun dec_nat :: "nat \<Rightarrow> string" where
  "dec_nat n = (if n < 10 then [digit n] else dec_nat (n div 10) @ [digit (n mod 10)])"

declare dec_nat.simps [simp del]

text \<open>What \<open>%d\<close> prints.\<close>

definition dec_int :: "int \<Rightarrow> string" where
  "dec_int i = (if i < 0 then CHR ''-'' # dec_nat (nat (- i)) else dec_nat (nat i))"

lemma digit_cases: "d < 10 \<Longrightarrow> digit d \<in> set ''0123456789''"
proof -
  assume "d < 10"
  then have "d \<in> set [0..<10]" by simp
  moreover have "\<forall>d \<in> set [0..<10]. digit d \<in> set ''0123456789''" by code_simp
  ultimately show ?thesis by blast
qed

lemma dec_nat_digits: "set (dec_nat n) \<subseteq> set ''0123456789''"
proof (induction n rule: dec_nat.induct)
  case (1 n)
  show ?case
  proof (cases "n < 10")
    case True
    then show ?thesis using digit_cases [of n] by (subst dec_nat.simps) simp
  next
    case False
    then show ?thesis using 1 digit_cases [of "n mod 10"] by (subst dec_nat.simps) simp
  qed
qed

lemma dec_int_chars: "set (dec_int i) \<subseteq> set ''-0123456789''"
proof -
  have "set ''0123456789'' \<subseteq> set ''-0123456789''" by auto
  then have "set (dec_nat n) \<subseteq> set ''-0123456789''" for n
    using dec_nat_digits by (rule subset_trans [rotated])
  then show ?thesis unfolding dec_int_def by simp
qed

lemma dec_nat_nonempty [simp]: "dec_nat n \<noteq> []"
  by (subst dec_nat.simps) simp

lemma dec_int_nonempty [simp]: "dec_int i \<noteq> []"
  by (simp add: dec_int_def)

text \<open>The number of digits is bounded by the magnitude.\<close>

lemma dec_nat_length: "n < 10 ^ k \<Longrightarrow> 0 < k \<Longrightarrow> length (dec_nat n) \<le> k"
proof (induction k arbitrary: n)
  case 0
  then show ?case by simp
next
  case (Suc k)
  show ?case
  proof (cases "n < 10")
    case True
    then show ?thesis by (subst dec_nat.simps) simp
  next
    case False
    with Suc.prems have "k \<noteq> 0" by (cases k) auto
    moreover from Suc.prems have "n div 10 < 10 ^ k" by (simp add: less_mult_imp_div_less mult.commute)
    ultimately have "length (dec_nat (n div 10)) \<le> k" using Suc.IH by simp
    with False show ?thesis by (subst dec_nat.simps) simp
  qed
qed

lemma dec_int_pid: "\<bar>pid\<bar> < 2 ^ 31 \<Longrightarrow> length (dec_int pid) \<le> 100"
proof -
  assume "\<bar>pid\<bar> < 2 ^ 31"
  then have "nat \<bar>pid\<bar> < 10 ^ 10" by simp
  then have "length (dec_nat (nat \<bar>pid\<bar>)) \<le> 10" by (rule dec_nat_length) simp
  then show ?thesis by (cases "pid < 0") (simp_all add: dec_int_def)
qed

text \<open>Different numbers have different digits.\<close>

lemma digit_inj: "d < 10 \<Longrightarrow> e < 10 \<Longrightarrow> digit d = digit e \<Longrightarrow> d = e"
proof -
  assume "d < 10" "e < 10" "digit d = digit e"
  then have "of_char (char_of (48 + d)) = (of_char (char_of (48 + e)) :: nat)" by (simp add: digit_def)
  with \<open>d < 10\<close> \<open>e < 10\<close> show ?thesis by simp
qed

lemma dec_nat_parts: "last (dec_nat n) = digit (n mod 10) \<and> butlast (dec_nat n) = (if n < 10 then [] else dec_nat (n div 10))"
  by (subst (1 2) dec_nat.simps) simp

lemma dec_nat_inj: "dec_nat m = dec_nat n \<Longrightarrow> m = n"
proof (induction m arbitrary: n rule: less_induct)
  case (less m)
  have "digit (m mod 10) = digit (n mod 10)"
    and b: "(if m < 10 then [] else dec_nat (m div 10)) = (if n < 10 then [] else dec_nat (n div 10))"
    using dec_nat_parts [of m] dec_nat_parts [of n] less.prems by simp_all
  then have d: "m mod 10 = n mod 10" by (intro digit_inj) simp_all
  show ?case
  proof (cases "m < 10")
    case True
    with b have "n < 10" using dec_nat_nonempty [of "n div 10"] by (metis (full_types))
    with True d show ?thesis by simp
  next
    case False
    with b have "\<not> n < 10" "dec_nat (m div 10) = dec_nat (n div 10)"
      using dec_nat_nonempty [of "m div 10"] by (auto split: if_splits)
    with less.IH [of "m div 10" "n div 10"] False have "m div 10 = n div 10" by simp
    with d show ?thesis by (metis div_mult_mod_eq)
  qed
qed

section \<open>Writing into fixed buffers\<close>

text \<open>
  \<open>strcat\<close> and unbounded formatting into a buffer of \<open>cap\<close> bytes that already holds a string:
  the terminating NUL must fit as well. \<open>snprintf\<close> cuts the output instead.
\<close>

definition strcat_into :: "nat \<Rightarrow> string \<Rightarrow> string \<Rightarrow> c_error + string" where
  "strcat_into cap dst src =
     (if length dst + length src < cap then Inr (dst @ src) else Inl OutOfBounds)"

definition snprintf_into :: "nat \<Rightarrow> string \<Rightarrow> string" where
  "snprintf_into cap src = take (cap - 1) src"

end
