(* ===== verification/CHeap.thy ===== *)
theory CHeap
  imports Prelude
begin

text \<open>
  The C heap as the single-threaded programs of the repository use it: blocks with a content,
  \<open>malloc\<close>, \<open>realloc\<close> and \<open>free\<close>, with reads and writes through \<open>NULL\<close> or a freed block and
  \<open>free\<close> of anything but a live block as errors. Addresses are never reused, so a stale pointer
  is always caught. The interface \<open>allocator\<close> states what the clients rely on.
\<close>

record 'c heap =
  hnext :: addr
  hcell :: "addr \<Rightarrow> 'c option"

definition halloc :: "'c \<Rightarrow> 'c heap \<Rightarrow> addr \<times> 'c heap" where
  "halloc v h = (hnext h, h\<lparr>hnext := Suc (hnext h), hcell := (hcell h)(hnext h \<mapsto> v)\<rparr>)"

definition hread :: "addr option \<Rightarrow> 'c heap \<Rightarrow> c_error + 'c" where
  "hread p h =
     (case p of None \<Rightarrow> Inl NullDeref
      | Some a \<Rightarrow> (case hcell h a of None \<Rightarrow> Inl DanglingDeref | Some v \<Rightarrow> Inr v))"

definition hwrite :: "addr option \<Rightarrow> 'c \<Rightarrow> 'c heap \<Rightarrow> c_error + 'c heap" where
  "hwrite p v h =
     (case p of None \<Rightarrow> Inl NullDeref
      | Some a \<Rightarrow> (case hcell h a of None \<Rightarrow> Inl DanglingDeref
                  | Some _ \<Rightarrow> Inr (h\<lparr>hcell := (hcell h)(a \<mapsto> v)\<rparr>)))"

text \<open>\<open>free(NULL)\<close> does nothing.\<close>

definition hfree :: "addr option \<Rightarrow> 'c heap \<Rightarrow> c_error + 'c heap" where
  "hfree p h =
     (case p of None \<Rightarrow> Inr h
      | Some a \<Rightarrow> (case hcell h a of None \<Rightarrow> Inl BadFree
                  | Some _ \<Rightarrow> Inr (h\<lparr>hcell := (hcell h)(a := None)\<rparr>)))"

text \<open>Every live block lies below the next fresh address.\<close>

definition heap_ok :: "'c heap \<Rightarrow> bool" where
  "heap_ok h \<longleftrightarrow> (\<forall>a. hcell h a \<noteq> None \<longrightarrow> a < hnext h)"

text \<open>A loop that frees a list of pointers.\<close>

fun free_each :: "(addr option \<Rightarrow> 'h \<Rightarrow> c_error + 'h) \<Rightarrow> addr list \<Rightarrow> 'h \<Rightarrow> c_error + 'h" where
  "free_each fr [] h = Inr h"
| "free_each fr (a # as) h = (case fr (Some a) h of Inl e \<Rightarrow> Inl e | Inr h' \<Rightarrow> free_each fr as h')"

locale allocator =
  fixes alloc :: "'c \<Rightarrow> 'h \<Rightarrow> addr \<times> 'h"
    and free :: "addr option \<Rightarrow> 'h \<Rightarrow> c_error + 'h"
    and cells :: "'h \<Rightarrow> addr \<Rightarrow> 'c option"
    and ok :: "'h \<Rightarrow> bool"
  assumes alloc_law: "ok h \<Longrightarrow> alloc v h = (a, h') \<Longrightarrow>
      cells h a = None \<and> cells h' = (cells h)(a \<mapsto> v) \<and> ok h'"
    and free_law: "ok h \<Longrightarrow> cells h a \<noteq> None \<Longrightarrow>
      \<exists>h'. free (Some a) h = Inr h' \<and> cells h' = (cells h)(a := None) \<and> ok h'"
    and free_twice: "cells h a = None \<Longrightarrow> free (Some a) h = Inl BadFree"
begin

text \<open>Freeing distinct live blocks succeeds and removes exactly these.\<close>

lemma free_each_ok:
  "ok h \<Longrightarrow> distinct as \<Longrightarrow> (\<And>a. a \<in> set as \<Longrightarrow> cells h a \<noteq> None) \<Longrightarrow>
   \<exists>h'. free_each free as h = Inr h' \<and> ok h' \<and> cells h' = (\<lambda>a. if a \<in> set as then None else cells h a)"
proof (induction as arbitrary: h)
  case Nil
  then show ?case by simp
next
  case (Cons a as)
  then obtain h1 where h1: "free (Some a) h = Inr h1" "cells h1 = (cells h)(a := None)" "ok h1"
    using free_law [of h a] by auto
  then have "\<And>b. b \<in> set as \<Longrightarrow> cells h1 b \<noteq> None" using Cons.prems by auto
  with Cons.IH [OF h1(3)] Cons.prems obtain h2 where
    "free_each free as h1 = Inr h2" "ok h2" "cells h2 = (\<lambda>b. if b \<in> set as then None else cells h1 b)"
    by auto
  with h1 show ?case by auto
qed

text \<open>A block that is listed twice is caught.\<close>

lemma free_each_twice:
  assumes "ok h" and "cells h a \<noteq> None"
  shows "free_each free [a, a] h = Inl BadFree"
  using free_law [OF assms] free_twice by fastforce

end

lemma hcell_halloc: "halloc v h = (a, h') \<Longrightarrow> hcell h' = (hcell h)(a \<mapsto> v) \<and> a = hnext h \<and> hnext h' = Suc a"
  by (auto simp: halloc_def)

interpretation cheap: allocator halloc hfree hcell heap_ok
proof
  fix h :: "'a heap" and v a h'
  assume "heap_ok h" and "halloc v h = (a, h')"
  then show "hcell h a = None \<and> hcell h' = (hcell h)(a \<mapsto> v) \<and> heap_ok h'"
    by (auto simp: heap_ok_def halloc_def less_Suc_eq split: if_splits)
next
  fix h :: "'a heap" and a
  assume "heap_ok h" and "hcell h a \<noteq> None"
  then show "\<exists>h'. hfree (Some a) h = Inr h' \<and> hcell h' = (hcell h)(a := None) \<and> heap_ok h'"
    by (auto simp: heap_ok_def hfree_def)
next
  fix h :: "'a heap" and a
  assume "hcell h a = None"
  then show "hfree (Some a) h = Inl BadFree" by (simp add: hfree_def)
qed

lemma hread_Some [simp]: "hcell h a = Some v \<Longrightarrow> hread (Some a) h = Inr v"
  by (simp add: hread_def)

lemma hwrite_Some [simp]: "hcell h a = Some v \<Longrightarrow> hwrite (Some a) w h = Inr (h\<lparr>hcell := (hcell h)(a \<mapsto> w)\<rparr>)"
  by (simp add: hwrite_def)

lemma hfree_Some [simp]: "hcell h a = Some v \<Longrightarrow> hfree (Some a) h = Inr (h\<lparr>hcell := (hcell h)(a := None)\<rparr>)"
  by (simp add: hfree_def)

lemma hfree_None [simp]: "hfree None h = Inr h"
  by (simp add: hfree_def)


lemma heap_ok_fresh: "heap_ok h \<Longrightarrow> hnext h \<le> a \<Longrightarrow> hcell h a = None"
  by (auto simp: heap_ok_def)

lemma heap_ok_less: "heap_ok h \<Longrightarrow> hcell h a = Some v \<Longrightarrow> a < hnext h"
  by (auto simp: heap_ok_def)

text \<open>A map without, or with, the block a pointer points to.\<close>

definition drop_block :: "(addr \<rightharpoonup> 'c) \<Rightarrow> addr option \<Rightarrow> addr \<rightharpoonup> 'c" where
  "drop_block m p = (case p of None \<Rightarrow> m | Some a \<Rightarrow> m(a := None))"

definition put_block :: "(addr \<rightharpoonup> 'c) \<Rightarrow> addr option \<Rightarrow> 'c \<Rightarrow> addr \<rightharpoonup> 'c" where
  "put_block m p v = (case p of None \<Rightarrow> m | Some a \<Rightarrow> m(a \<mapsto> v))"

lemma block_simps [simp]:
  "drop_block m None = m" "drop_block m (Some a) = m(a := None)"
  "put_block m None v = m" "put_block m (Some a) v = m(a \<mapsto> v)"
  by (simp_all add: drop_block_def put_block_def)

text \<open>Several blocks written at once read back as what was written.\<close>

lemma map_upds_values: "distinct as \<Longrightarrow> length as = length vs \<Longrightarrow> map (m(as [\<mapsto>] vs)) as = map Some vs"
proof (induction as arbitrary: vs m)
  case Nil
  then show ?case by simp
next
  case (Cons a as)
  then obtain v ws where vs: "vs = v # ws" by (cases vs) auto
  let ?m = "(m(a \<mapsto> v))(as [\<mapsto>] ws)"
  have "map ?m as = map Some ws" by (rule Cons.IH) (use Cons.prems vs in simp_all)
  moreover have "?m a = Some v" using Cons.prems(1) by (simp add: map_upds_apply_nontin)
  ultimately show ?case unfolding vs by (simp only: map_upds_Cons list.map)
qed

end
