(* ===== verification/Descriptors.thy ===== *)
theory Descriptors
  imports Prelude
begin

text \<open>
  The interface of a table of file descriptors: what the calls that open something promise. It is
  interpreted on the table of the shell and the pipe programs (Pipeline) and on that of the
  multiplexing server and its clients (Channels).
\<close>

definition free_fds :: "nat \<Rightarrow> (nat \<rightharpoonup> 'd) \<Rightarrow> nat set" where
  "free_fds L T = {k. k < L \<and> T k = None}"

lemma finite_free_fds [simp]: "finite (free_fds L T)"
  by (simp add: free_fds_def)

text \<open>
  \<open>opened\<close> looks a descriptor up, \<open>new L d\<close> opens \<open>d\<close> in a process that may have \<open>L\<close> descriptors, on the
  lowest that is free; it fails only if none is.
\<close>

locale descriptors =
  fixes opened :: "'t \<Rightarrow> nat \<rightharpoonup> 'd"
    and new :: "nat \<Rightarrow> 'd \<Rightarrow> 't \<Rightarrow> (nat \<times> 't) option"
    and good :: "nat \<Rightarrow> 't \<Rightarrow> bool"
  assumes new_some: "good L t \<Longrightarrow> new L d t = Some (k, t') \<Longrightarrow>
      k \<in> free_fds L (opened t) \<and> (\<forall>j < k. opened t j \<noteq> None) \<and> opened t' = (opened t)(k \<mapsto> d) \<and> good L t'"
    and new_none: "good L t \<Longrightarrow> new L d t = None \<Longrightarrow> free_fds L (opened t) = {}"
begin

lemma new_takes_one:
  assumes "good L t" and "new L d t = Some (k, t')"
  shows "card (free_fds L (opened t)) = Suc (card (free_fds L (opened t')))"
proof -
  have k: "k \<in> free_fds L (opened t)" and t': "opened t' = (opened t)(k \<mapsto> d)"
    using new_some [OF assms] by simp_all
  have "free_fds L (opened t') = free_fds L (opened t) - {k}" by (auto simp: free_fds_def t')
  then show ?thesis using k by (metis card.remove finite_free_fds)
qed

lemma new_succeeds:
  assumes "good L t" and "0 < card (free_fds L (opened t))"
  shows "\<exists>k t'. new L d t = Some (k, t')"
  using new_none [OF assms(1), of d] assms(2) by (cases "new L d t") auto

end

end
