(* ===== verification/FileTransfer.thy ===== *)
theory FileTransfer
  imports Prelude
begin

text \<open>
  The interface shared by the file transfers of the repository (the FIFO pair, the SYS V
  shared-memory ring, the signal channel): two processes and a channel, a step relation on
  their joint state, the bytes the receiving side has written so far (\<open>outp\<close>) and the bytes
  that are still in the channel or not yet read from the source file (\<open>pending\<close>). A
  provider promises that no step creates, drops or reorders a byte; the client lemmas turn
  that into statements on whole runs.
\<close>

locale transfer =
  fixes step :: "'s \<Rightarrow> 's \<Rightarrow> bool"
    and start :: "bytes \<Rightarrow> 's \<Rightarrow> bool"
    and outp :: "'s \<Rightarrow> bytes"
    and pending :: "'s \<Rightarrow> bytes"
    and good :: "'s \<Rightarrow> bool"
  assumes start_good: "start file s \<Longrightarrow> good s"
    and start_content: "start file s \<Longrightarrow> outp s @ pending s = file"
    and step_good: "good s \<Longrightarrow> step s t \<Longrightarrow> good t"
    and step_content: "good s \<Longrightarrow> step s t \<Longrightarrow> outp t @ pending t = outp s @ pending s"
begin

lemma run_good: "step\<^sup>*\<^sup>* s t \<Longrightarrow> good s \<Longrightarrow> good t"
  by (induction rule: rtranclp_induct) (auto intro: step_good)

lemma run_content:
  assumes "step\<^sup>*\<^sup>* s t" and "good s"
  shows "outp t @ pending t = outp s @ pending s"
  using assms
proof (induction rule: rtranclp_induct)
  case base
  then show ?case by simp
next
  case (step t u)
  from step.hyps(1) step.prems have "good t" by (rule run_good)
  with step.hyps(2) have "outp u @ pending u = outp t @ pending t" by (rule step_content [rotated])
  with step.IH step.prems show ?case by simp
qed

lemma reach_good: "start file s \<Longrightarrow> step\<^sup>*\<^sup>* s t \<Longrightarrow> good t"
  by (blast intro: run_good start_good)

lemma reach_content: "start file s \<Longrightarrow> step\<^sup>*\<^sup>* s t \<Longrightarrow> outp t @ pending t = file"
  using run_content start_good start_content by metis

lemma reach_prefix: "start file s \<Longrightarrow> step\<^sup>*\<^sup>* s t \<Longrightarrow> prefix (outp t) file"
  using reach_content by (metis prefixI)

lemma reach_complete: "start file s \<Longrightarrow> step\<^sup>*\<^sup>* s t \<Longrightarrow> pending t = [] \<Longrightarrow> outp t = file"
  using reach_content by fastforce

end

text \<open>
  A relation whose steps use up a bounded amount of work in good states: every run is finite and
  can be extended to one that stops.
\<close>

locale bounded_run =
  fixes step :: "'s \<Rightarrow> 's \<Rightarrow> bool"
    and good :: "'s \<Rightarrow> bool"
    and work :: "'s \<Rightarrow> nat"
  assumes move_good: "good s \<Longrightarrow> step s t \<Longrightarrow> good t"
    and move_work: "good s \<Longrightarrow> step s t \<Longrightarrow> work t < work s"
begin

lemma run_bounded: "(step ^^ n) s t \<Longrightarrow> good s \<Longrightarrow> n + work t \<le> work s \<and> good t"
proof (induction n arbitrary: t)
  case 0
  then show ?case by simp
next
  case (Suc n)
  then obtain u where "(step ^^ n) s u" and ut: "step u t" by auto
  with Suc.IH Suc.prems have "n + work u \<le> work s" and "good u" by auto
  moreover from this(2) ut have "work t < work u" and "good t"
    by (auto intro: move_work move_good)
  ultimately show ?case by simp
qed

lemma run_ends: "good s \<Longrightarrow> \<exists>t. step\<^sup>*\<^sup>* s t \<and> (\<forall>u. \<not> step t u)"
proof (induction "work s" arbitrary: s rule: less_induct)
  case less
  show ?case
  proof (cases "\<exists>u. step s u")
    case True
    then obtain u where su: "step s u" by blast
    with less.prems have "work u < work s" and "good u" by (auto intro: move_work move_good)
    with less.hyps obtain t where "step\<^sup>*\<^sup>* u t" and "\<forall>v. \<not> step t v" by blast
    with su show ?thesis by (meson converse_rtranclp_into_rtranclp)
  next
    case False
    then show ?thesis by blast
  qed
qed

lemma run_ends_counted: "good s \<Longrightarrow> \<exists>n t. (step ^^ n) s t \<and> (\<forall>u. \<not> step t u)"
  using run_ends rtranclp_imp_relpowp by metis

end

text \<open>A transfer of this kind.\<close>

locale finite_transfer = transfer +
  fixes work :: "'s \<Rightarrow> nat"
  assumes step_work: "good s \<Longrightarrow> step s t \<Longrightarrow> work t < work s"

sublocale finite_transfer \<subseteq> bounded_run step good work
  by unfold_locales (rule step_good, assumption+, rule step_work, assumption+)

end
