(* ===== verification/JobQueue.thy ===== *)
theory JobQueue
  imports Prelude
begin

text \<open>
  The job queue and the binary semaphore of the thread pool
  (\<open>task7/multiplex-io/server/src/thpool.c\<close>): a singly linked list of heap-allocated jobs
  (\<open>jobqueue_init\<close>, \<open>jobqueue_push\<close>, \<open>jobqueue_pull\<close>, \<open>jobqueue_clear\<close>,
  \<open>jobqueue_destroy\<close>) and its flag \<open>has_jobs\<close> (\<open>bsem_init\<close>, \<open>bsem_reset\<close>, \<open>bsem_post\<close>,
  \<open>bsem_post_all\<close>, \<open>bsem_wait\<close>). The bodies run between lock and unlock of one mutex
  (\<open>rwmutex\<close>, or the semaphore's own), so each operation is one state transformer. The
  interface \<open>fifo\<close> states what a queue promises its callers; it is interpreted on the
  linked list.
\<close>

section \<open>The binary semaphore\<close>

text \<open>
  The mutex and the condition variable are the operating system's; the value is the state.
\<close>

record bsem =
  v :: int

definition bsem_init :: "int \<Rightarrow> c_error + bsem" where
  "bsem_init val = (if val < 0 \<or> val > 1 then Inl (Exit 1) else Inr \<lparr>v = val\<rparr>)"

definition bsem_reset :: "bsem \<Rightarrow> c_error + bsem" where
  "bsem_reset b = bsem_init 0"

text \<open>
  The posting operations set the value; which sleeping threads the signal or broadcast
  wakes is part of the pool's step relation.
\<close>

definition bsem_post :: "bsem \<Rightarrow> bsem" where
  "bsem_post b = b\<lparr>v := 1\<rparr>"

definition bsem_post_all :: "bsem \<Rightarrow> bsem" where
  "bsem_post_all b = b\<lparr>v := 1\<rparr>"

text \<open>
  One turn of the loop in \<open>bsem_wait\<close>: \<open>None\<close> means the thread goes to sleep on the
  condition variable, \<open>Some\<close> that it leaves with the value reset to 0.
\<close>

definition bsem_wait :: "bsem \<Rightarrow> bsem option" where
  "bsem_wait b = (if v b \<noteq> 1 then None else Some (b\<lparr>v := 0\<rparr>))"

section \<open>The queue\<close>

text \<open>Function and argument pointers are kept as numbers: the queue only moves them around.\<close>

record job =
  prev :: "addr option"
  job_fun :: nat
  job_arg :: nat

record jobqueue =
  front :: "addr option"
  rear :: "addr option"
  has_jobs :: bsem
  len :: int

type_synonym job_heap = "addr \<rightharpoonup> job"

definition jobqueue_init :: "bool \<Rightarrow> int \<times> jobqueue option" where
  "jobqueue_init malloc_ok =
     (if \<not> malloc_ok then (-1, None)
      else (case bsem_init 0 of
              Inl e \<Rightarrow> (-1, None)
            | Inr b \<Rightarrow> (0, Some \<lparr>front = None, rear = None, has_jobs = b, len = 0\<rparr>)))"

definition jobqueue_push ::
  "job_heap \<Rightarrow> jobqueue \<Rightarrow> addr \<Rightarrow> c_error + job_heap \<times> jobqueue" where
  "jobqueue_push h q newjob =
     (case h newjob of
        None \<Rightarrow> Inl DanglingDeref
      | Some j \<Rightarrow>
         (let h = h(newjob \<mapsto> j\<lparr>prev := None\<rparr>) in
          (if len q = 0 then
             Inr (h, q\<lparr>front := Some newjob, rear := Some newjob, len := len q + 1,
                       has_jobs := bsem_post (has_jobs q)\<rparr>)
           else
             (case rear q of
                None \<Rightarrow> Inl NullDeref
              | Some r \<Rightarrow>
                 (case h r of
                    None \<Rightarrow> Inl DanglingDeref
                  | Some jr \<Rightarrow>
                      Inr (h(r \<mapsto> jr\<lparr>prev := Some newjob\<rparr>),
                           q\<lparr>rear := Some newjob, len := len q + 1,
                             has_jobs := bsem_post (has_jobs q)\<rparr>))))))"

definition jobqueue_pull ::
  "job_heap \<Rightarrow> jobqueue \<Rightarrow> c_error + addr option \<times> jobqueue" where
  "jobqueue_pull h q =
     (if len q = 0 then Inr (front q, q)
      else if len q = 1 then Inr (front q, q\<lparr>front := None, rear := None, len := 0\<rparr>)
      else
        (case front q of
           None \<Rightarrow> Inl NullDeref
         | Some job_p \<Rightarrow>
            (case h job_p of
               None \<Rightarrow> Inl DanglingDeref
             | Some j \<Rightarrow>
                 Inr (front q, q\<lparr>front := prev j, len := len q - 1,
                                has_jobs := bsem_post (has_jobs q)\<rparr>))))"

text \<open>\<open>free\<close> of a job pointer; \<open>free(NULL)\<close> does nothing.\<close>

definition free_job :: "job_heap \<Rightarrow> addr option \<Rightarrow> c_error + job_heap" where
  "free_job h p =
     (case p of
        None \<Rightarrow> Inr h
      | Some a \<Rightarrow> (case h a of None \<Rightarrow> Inl BadFree | Some _ \<Rightarrow> Inr (h(a := None))))"

text \<open>
  The loop \<open>while (len) free(jobqueue_pull())\<close>; a result \<open>None\<close> is a loop that does not end.
\<close>

partial_function (option) jobqueue_clear_loop ::
  "job_heap \<Rightarrow> jobqueue \<Rightarrow> (c_error + job_heap \<times> jobqueue) option" where
  "jobqueue_clear_loop h q =
     (if len q = 0 then Some (Inr (h, q))
      else
        (case jobqueue_pull h q of
           Inl e \<Rightarrow> Some (Inl e)
         | Inr (p, q') \<Rightarrow>
            (case free_job h p of
               Inl e \<Rightarrow> Some (Inl e)
             | Inr h' \<Rightarrow> jobqueue_clear_loop h' q')))"

definition jobqueue_clear ::
  "job_heap \<Rightarrow> jobqueue \<Rightarrow> (c_error + job_heap \<times> jobqueue) option" where
  "jobqueue_clear h q =
     map_option
       (\<lambda>r. case r of
              Inl e \<Rightarrow> Inl e
            | Inr (h', q') \<Rightarrow>
               (case bsem_reset (has_jobs q') of
                  Inl e \<Rightarrow> Inl e
                | Inr b \<Rightarrow> Inr (h', \<lparr>front = None, rear = None, has_jobs = b, len = 0\<rparr>)))
       (jobqueue_clear_loop h q)"

text \<open>
  \<open>jobqueue_destroy\<close> clears the queue and frees the semaphore; what remains is the job heap.
\<close>

definition jobqueue_destroy ::
  "job_heap \<Rightarrow> jobqueue \<Rightarrow> (c_error + job_heap) option" where
  "jobqueue_destroy h q =
     map_option (map_sum id fst) (jobqueue_clear h q)"

section \<open>What a queue represents\<close>

text \<open>
  \<open>chain h p as\<close>: following \<open>prev\<close> from \<open>p\<close> visits exactly the jobs \<open>as\<close> and ends in NULL.
\<close>

fun chain :: "job_heap \<Rightarrow> addr option \<Rightarrow> addr list \<Rightarrow> bool" where
  "chain h p [] \<longleftrightarrow> p = None"
| "chain h p (a # as) \<longleftrightarrow> p = Some a \<and> (\<exists>j. h a = Some j \<and> chain h (prev j) as)"

definition jq_repr :: "job_heap \<times> jobqueue \<Rightarrow> addr list \<Rightarrow> bool" where
  "jq_repr c as \<longleftrightarrow>
     (case c of (h, q) \<Rightarrow>
        chain h (front q) as \<and> distinct as \<and>
        rear q = (if as = [] then None else Some (last as)) \<and> len q = int (length as))"

lemma chain_in_dom: "chain h p as \<Longrightarrow> a \<in> set as \<Longrightarrow> a \<in> dom h"
  by (induction as arbitrary: p) auto

lemma chain_frame:
  "(\<And>a. a \<in> set as \<Longrightarrow> map_option prev (h' a) = map_option prev (h a)) \<Longrightarrow>
   chain h' p as \<longleftrightarrow> chain h p as"
proof (induction as arbitrary: p)
  case Nil
  then show ?case by simp
next
  case (Cons a as)
  from Cons.prems have "map_option prev (h' a) = map_option prev (h a)" by simp
  moreover from Cons have "\<And>p. chain h' p as \<longleftrightarrow> chain h p as" by simp
  ultimately show ?case by (cases "h a"; cases "h' a") auto
qed

lemma chain_snoc:
  assumes "chain h p (as @ [r])" and "distinct (as @ [r])" and "x \<notin> set (as @ [r])"
    and "h r = Some jr" and "h x = Some jx" and "prev jx = None"
  shows "chain (h(r \<mapsto> jr\<lparr>prev := Some x\<rparr>)) p (as @ [r, x])"
  using assms
proof (induction as arbitrary: p)
  case Nil
  then show ?case by auto
next
  case (Cons a as)
  then show ?case by auto
qed

lemma chain_upd_notin [simp]: "x \<notin> set as \<Longrightarrow> chain (h(x := u)) p as \<longleftrightarrow> chain h p as"
  by (rule chain_frame) auto

lemma jq_repr_len [simp]: "jq_repr (h, q) as \<Longrightarrow> len q = 0 \<longleftrightarrow> as = []"
  by (simp add: jq_repr_def)

lemma jq_repr_dom: "jq_repr (h, q) as \<Longrightarrow> a \<in> set as \<Longrightarrow> a \<in> dom h"
  by (auto simp: jq_repr_def dest: chain_in_dom)

lemma jq_repr_distinct: "jq_repr c as \<Longrightarrow> distinct as"
  by (auto simp: jq_repr_def)

text \<open>Freeing, allocating or rewriting a block that is not in the queue does not change it.\<close>

lemma jq_repr_frame: "x \<notin> set as \<Longrightarrow> jq_repr (h(x := u), q) as \<longleftrightarrow> jq_repr (h, q) as"
  by (simp add: jq_repr_def)

text \<open>The work a block holds; linking and unlinking never change it.\<close>

definition job_work :: "job_heap \<Rightarrow> addr \<Rightarrow> (nat \<times> nat) option" where
  "job_work h a = map_option (\<lambda>j. (job_fun j, job_arg j)) (h a)"

lemma job_work_dom: "job_work h a \<noteq> None \<longleftrightarrow> a \<in> dom h"
  by (auto simp: job_work_def)

lemma job_work_upd: "job_work (h(a \<mapsto> j)) b = (if b = a then Some (job_fun j, job_arg j) else job_work h b)"
  by (simp add: job_work_def)

lemma job_work_relink [simp]: "h x = Some j \<Longrightarrow> job_work (h(x \<mapsto> j\<lparr>prev := p\<rparr>)) = job_work h"
  by (auto simp: job_work_def fun_eq_iff)

section \<open>Push and pull on a represented queue\<close>

lemma jobqueue_push_nil:
  assumes r: "jq_repr (h, q) []" and j: "h x = Some j"
  shows "\<exists>h' q'. jobqueue_push h q x = Inr (h', q') \<and> jq_repr (h', q') [x]
    \<and> job_work h' = job_work h \<and> v (has_jobs q') = 1"
  using assms by (auto simp: jobqueue_push_def jq_repr_def bsem_post_def Let_def)

lemma jobqueue_push_snoc:
  assumes r: "jq_repr (h, q) (as @ [r])" and j: "h x = Some j" and new: "x \<notin> set (as @ [r])"
  shows "\<exists>h' q'. jobqueue_push h q x = Inr (h', q') \<and> jq_repr (h', q') (as @ [r, x])
    \<and> job_work h' = job_work h \<and> v (has_jobs q') = 1"
proof -
  let ?h = "h(x \<mapsto> j\<lparr>prev := None\<rparr>)"
  from r have c: "chain h (front q) (as @ [r])" and d: "distinct (as @ [r])"
    and rr: "rear q = Some r" and l: "len q = int (length as) + 1"
    by (auto simp: jq_repr_def)
  from c have "r \<in> dom h" by (rule chain_in_dom) simp
  then obtain jr where jr: "h r = Some jr" by blast
  from c new have "chain ?h (front q) (as @ [r])" by simp
  from this d new have "chain (?h(r \<mapsto> jr\<lparr>prev := Some x\<rparr>)) (front q) (as @ [r, x])"
    by (rule chain_snoc) (use new jr in auto)
  moreover have "job_work (?h(r \<mapsto> jr\<lparr>prev := Some x\<rparr>)) = job_work h"
    using j jr new by (auto simp: job_work_def fun_eq_iff)
  ultimately show ?thesis
    using j jr rr l d new by (auto simp: jobqueue_push_def jq_repr_def bsem_post_def Let_def)
qed

lemma jobqueue_push_repr:
  assumes "jq_repr (h, q) as" and "x \<in> dom h" and "x \<notin> set as"
  shows "\<exists>h' q'. jobqueue_push h q x = Inr (h', q') \<and> jq_repr (h', q') (as @ [x])
    \<and> job_work h' = job_work h \<and> v (has_jobs q') = 1"
proof (cases as rule: rev_cases)
  case Nil
  with assms show ?thesis using jobqueue_push_nil by auto
next
  case (snoc bs r)
  with assms show ?thesis using jobqueue_push_snoc by fastforce
qed

lemma jobqueue_pull_nil: "jq_repr (h, q) [] \<Longrightarrow> jobqueue_pull h q = Inr (None, q)"
  by (simp add: jobqueue_pull_def jq_repr_def)

lemma jobqueue_pull_cons:
  assumes "jq_repr (h, q) (a # as)"
  shows "\<exists>q'. jobqueue_pull h q = Inr (Some a, q') \<and> jq_repr (h, q') as
    \<and> v (has_jobs q') = (if as = [] then v (has_jobs q) else 1)"
proof (cases as)
  case Nil
  with assms show ?thesis by (auto simp: jobqueue_pull_def jq_repr_def)
next
  case (Cons b bs)
  with assms obtain j where "h a = Some j" and "chain h (prev j) as" and "front q = Some a"
    by (auto simp: jq_repr_def)
  with assms Cons show ?thesis
    by (auto simp: jobqueue_pull_def jq_repr_def bsem_post_def)
qed

section \<open>The interface of a queue\<close>

text \<open>
  The client sees a container that represents a list: \<open>enq\<close> appends an element that is
  ready to be linked in, \<open>deq\<close> hands out the oldest element, or nothing.
\<close>

datatype 'x fifo_op = Enq 'x | Deq

fun run_fifo :: "('c \<Rightarrow> 'x \<Rightarrow> 'e + 'c) \<Rightarrow> ('c \<Rightarrow> 'e + 'x option \<times> 'c) \<Rightarrow> 'c \<Rightarrow> 'x fifo_op list
  \<Rightarrow> 'e + 'x list \<times> 'c" where
  "run_fifo enq deq c [] = Inr ([], c)"
| "run_fifo enq deq c (Enq x # ops) =
     (case enq c x of Inl e \<Rightarrow> Inl e | Inr c' \<Rightarrow> run_fifo enq deq c' ops)"
| "run_fifo enq deq c (Deq # ops) =
     (case deq c of
        Inl e \<Rightarrow> Inl e
      | Inr (r, c') \<Rightarrow>
         (case run_fifo enq deq c' ops of
            Inl e \<Rightarrow> Inl e
          | Inr (out, c'') \<Rightarrow> Inr (case r of None \<Rightarrow> out | Some x \<Rightarrow> x # out, c'')))"

fun enqueued :: "'x fifo_op list \<Rightarrow> 'x list" where
  "enqueued [] = []"
| "enqueued (Enq x # ops) = x # enqueued ops"
| "enqueued (Deq # ops) = enqueued ops"

locale fifo =
  fixes repr :: "'c \<Rightarrow> 'x list \<Rightarrow> bool"
    and ready :: "'c \<Rightarrow> 'x \<Rightarrow> bool"
    and enq :: "'c \<Rightarrow> 'x \<Rightarrow> 'e + 'c"
    and deq :: "'c \<Rightarrow> 'e + 'x option \<times> 'c"
  assumes enq: "repr c xs \<Longrightarrow> ready c x \<Longrightarrow> x \<notin> set xs \<Longrightarrow> \<exists>c'. enq c x = Inr c' \<and> repr c' (xs @ [x])"
    and deq_nil: "repr c [] \<Longrightarrow> deq c = Inr (None, c)"
    and deq_cons: "repr c (x # xs) \<Longrightarrow> \<exists>c'. deq c = Inr (Some x, c') \<and> repr c' xs"
    and ready_enq: "repr c xs \<Longrightarrow> ready c x \<Longrightarrow> x \<notin> set xs \<Longrightarrow> ready c y \<Longrightarrow> enq c x = Inr c' \<Longrightarrow> ready c' y"
    and ready_deq: "ready c y \<Longrightarrow> deq c = Inr (r, c') \<Longrightarrow> ready c' y"
begin

text \<open>
  Whatever the order of insertions and removals, what comes out followed by what is left is
  what was there followed by what went in.
\<close>

lemma run_in_order:
  assumes "repr c xs" and "distinct (xs @ enqueued ops)" and "\<forall>x \<in> set (enqueued ops). ready c x"
  shows "\<exists>out c' ys. run_fifo enq deq c ops = Inr (out, c') \<and> repr c' ys \<and> out @ ys = xs @ enqueued ops"
  using assms
proof (induction ops arbitrary: c xs)
  case Nil
  then show ?case by auto
next
  case (Cons op ops)
  show ?case
  proof (cases op)
    case (Enq x)
    with Cons.prems have "ready c x" and "x \<notin> set xs" by auto
    then obtain c' where c': "enq c x = Inr c'" "repr c' (xs @ [x])"
      using enq Cons.prems(1) by blast
    have "\<forall>y \<in> set (enqueued ops). ready c' y"
      using Cons.prems Enq c'(1) \<open>ready c x\<close> \<open>x \<notin> set xs\<close> by (auto intro: ready_enq)
    moreover have "distinct ((xs @ [x]) @ enqueued ops)"
      using Cons.prems(2) Enq by auto
    ultimately show ?thesis using Cons.IH [OF c'(2)] Enq c'(1) by auto
  next
    case Deq
    show ?thesis
    proof (cases xs)
      case Nil
      with Cons.prems Deq have "deq c = Inr (None, c)" using deq_nil by blast
      with Cons Deq Nil show ?thesis by fastforce
    next
      case (Cons x xs')
      with Cons.prems(1) obtain c' where c': "deq c = Inr (Some x, c')" "repr c' xs'"
        using deq_cons by blast
      have "\<forall>y \<in> set (enqueued ops). ready c' y"
        using Cons.prems(3) Deq c'(1) by (auto intro: ready_deq)
      with Cons.IH [OF c'(2)] Cons.prems(2) Deq Cons obtain out c'' ys where
        "run_fifo enq deq c' ops = Inr (out, c'')" "repr c'' ys" "out @ ys = xs' @ enqueued ops"
        by auto
      with Deq c'(1) Cons show ?thesis by auto
    qed
  qed
qed

text \<open>Taking out as many elements as there are yields them all, in order.\<close>

lemma drain: "repr c xs \<Longrightarrow> \<exists>c'. run_fifo enq deq c (replicate (length xs) Deq) = Inr (xs, c') \<and> repr c' []"
proof (induction xs arbitrary: c)
  case Nil
  then show ?case by simp
next
  case (Cons x xs)
  then obtain c1 where "deq c = Inr (Some x, c1)" "repr c1 xs" using deq_cons by blast
  with Cons.IH [of c1] show ?case by auto
qed

end

definition jq_enq :: "job_heap \<times> jobqueue \<Rightarrow> addr \<Rightarrow> c_error + job_heap \<times> jobqueue" where
  "jq_enq c x = (case c of (h, q) \<Rightarrow> jobqueue_push h q x)"

definition jq_deq :: "job_heap \<times> jobqueue \<Rightarrow> c_error + addr option \<times> (job_heap \<times> jobqueue)" where
  "jq_deq c = (case c of (h, q) \<Rightarrow> map_sum id (\<lambda>(r, q'). (r, (h, q'))) (jobqueue_pull h q))"

interpretation jq: fifo jq_repr "\<lambda>c x. x \<in> dom (fst c)" jq_enq jq_deq
proof (unfold_locales, goal_cases)
  case (1 c xs x)
  then show ?case using jobqueue_push_repr by (cases c) (fastforce simp: jq_enq_def)
next
  case (2 c)
  then show ?case by (cases c) (simp add: jq_deq_def jobqueue_pull_nil)
next
  case (3 c x xs)
  then show ?case using jobqueue_pull_cons by (cases c) (fastforce simp: jq_deq_def)
next
  case (4 c xs x y c')
  then obtain h q where c: "c = (h, q)" by (cases c)
  with 4 obtain h' q' where "jobqueue_push h q x = Inr (h', q')" "job_work h' = job_work h"
    using jobqueue_push_repr by fastforce
  with 4 c show ?case by (auto simp: jq_enq_def job_work_dom [symmetric])
next
  case (5 c y r c')
  then show ?case by (cases c; cases "jobqueue_pull (fst c) (snd c)") (auto simp: jq_deq_def)
qed

section \<open>Clearing the queue\<close>

lemma jobqueue_clear_loop_repr:
  "jq_repr (h, q) as \<Longrightarrow>
   \<exists>q'. jobqueue_clear_loop h q = Some (Inr (h |` (- set as), q')) \<and> jq_repr (h |` (- set as), q') []"
proof (induction as arbitrary: h q)
  case Nil
  then have "len q = 0" by (simp add: jq_repr_def)
  moreover have "h |` UNIV = h" by (simp add: restrict_map_def)
  ultimately show ?case using Nil by (simp add: jobqueue_clear_loop.simps)
next
  case (Cons a as)
  then obtain q' where q': "jobqueue_pull h q = Inr (Some a, q')" "jq_repr (h, q') as"
    using jobqueue_pull_cons by blast
  have a: "a \<notin> set as" "a \<in> dom h"
    using Cons.prems jq_repr_distinct jq_repr_dom by fastforce+
  then have "jq_repr (h(a := None), q') as" using q'(2) by (simp add: jq_repr_frame)
  from Cons.IH [OF this] obtain q'' where
    q'': "jobqueue_clear_loop (h(a := None)) q' = Some (Inr (h(a := None) |` (- set as), q''))"
      "jq_repr (h(a := None) |` (- set as), q'') []" by blast
  moreover have "h(a := None) |` (- set as) = h |` (- set (a # as))"
    by (auto simp: restrict_map_def fun_eq_iff)
  moreover have "len q \<noteq> 0" using Cons.prems by (simp add: jq_repr_def)
  moreover have "free_job h (Some a) = Inr (h(a := None))" using a by (auto simp: free_job_def)
  ultimately show ?case using q'(1)
    by (simp add: jobqueue_clear_loop.simps [of h q])
qed

lemma jobqueue_clear_repr:
  assumes "jq_repr (h, q) as"
  shows "jobqueue_clear h q =
    Some (Inr (h |` (- set as), \<lparr>front = None, rear = None, has_jobs = \<lparr>v = 0\<rparr>, len = 0\<rparr>))"
  using jobqueue_clear_loop_repr [OF assms]
  by (auto simp: jobqueue_clear_def bsem_reset_def bsem_init_def)

lemma jobqueue_destroy_repr:
  "jq_repr (h, q) as \<Longrightarrow> jobqueue_destroy h q = Some (Inr (h |` (- set as)))"
  by (simp add: jobqueue_destroy_def jobqueue_clear_repr)

end
