(* ===== verification/ThreadPool.thy ===== *)
theory ThreadPool
  imports JobQueue
begin

text \<open>
  The thread pool of the server (\<open>task7/multiplex-io/server/src/thpool.c\<close>): the pool
  object, the worker loop \<open>thread_do\<close>, and the calls a client makes (\<open>thpool_init\<close>,
  \<open>thpool_add_work\<close>, \<open>thpool_wait\<close>, \<open>thpool_pause\<close>, \<open>thpool_resume\<close>, \<open>thpool_destroy\<close>),
  as a step relation in which any thread may move at any time. One step is one critical
  section or one test of a shared variable.
\<close>

section \<open>State\<close>

type_synonym work = "nat \<times> nat"

text \<open>
  Where a worker is in \<open>thread_do\<close>: not created, before it counts itself alive, at the test
  of the outer loop, checking the semaphore's value inside \<open>bsem_wait\<close>, asleep on its
  condition variable, past \<open>bsem_wait\<close>, before it counts itself working, before
  \<open>jobqueue_pull\<close>, running a job (the block, and the function and argument copied out of
  it), before it stops counting itself working, before it stops counting itself alive, ended.
\<close>

datatype tpc =
    TNever
  | TStart
  | TLoop
  | TCheck
  | TSleep
  | TGot
  | TInc
  | TPull
  | TRun addr work
  | TDec
  | TExit
  | TDead

text \<open>
  The thread that owns the pool: in the final busy-wait of \<open>thpool_init\<close>, using the pool,
  in \<open>thpool_destroy\<close>, past it. And a caller of \<open>thpool_wait\<close>: outside, at the two tests
  of the loop condition (both with \<open>thcount_lock\<close> held), asleep, signalled and about to take
  the lock back, returned.
\<close>

datatype mpc = MInit | MReady | MDestroying | MDestroyed

datatype wpc = WOut | WTestLen | WTestWorking | WAsleep | WWoken | WReturned

record thpool =
  jobs :: job_heap
  jobq :: jobqueue
  threads :: nat
  num_threads_alive :: int
  num_threads_working :: int
  threads_keepalive :: bool
  threads_on_hold :: bool
  pc :: "nat \<Rightarrow> tpc"
  usr1 :: "nat \<Rightarrow> bool"
  held :: "nat \<Rightarrow> bool"
  main :: mpc
  waiter :: wpc

text \<open>History: what was submitted, handed out and completed, and a waiter's snapshot.\<close>

record pool = thpool +
  submitted :: "work list"
  started :: "work list"
  finished :: "work list"
  snapshot :: "work list"

section \<open>Creating the pool\<close>

definition thread_init :: "bool \<Rightarrow> nat \<Rightarrow> (nat \<Rightarrow> tpc) \<Rightarrow> int \<times> (nat \<Rightarrow> tpc)" where
  "thread_init malloc_ok n pcs = (if \<not> malloc_ok then (-1, pcs) else (0, pcs(n := TStart)))"

fun thread_init_all :: "(nat \<Rightarrow> bool) \<Rightarrow> nat \<Rightarrow> (nat \<Rightarrow> tpc)" where
  "thread_init_all malloc_ok 0 = (\<lambda>_. TNever)"
| "thread_init_all malloc_ok (Suc n) = snd (thread_init (malloc_ok n) n (thread_init_all malloc_ok n))"

text \<open>
  \<open>thpool_init\<close> up to its final loop, which waits until every thread counts itself alive;
  that loop is the step \<open>init_done\<close> below. The arguments before \<open>num_threads\<close> say which of
  its allocations succeed: the pool, the queue's semaphore, the array, each thread.
\<close>

definition thpool_init ::
  "bool \<Rightarrow> bool \<Rightarrow> bool \<Rightarrow> (nat \<Rightarrow> bool) \<Rightarrow> int \<Rightarrow> pool option" where
  "thpool_init malloc_pool malloc_sem malloc_threads malloc_thread num_threads =
     (let num_threads = (if num_threads < 0 then 0 else num_threads) in
      if \<not> malloc_pool then None
      else
        (case jobqueue_init malloc_sem of
           (_, None) \<Rightarrow> None
         | (_, Some q) \<Rightarrow>
             if \<not> malloc_threads then None
             else Some
               \<lparr>jobs = Map.empty, jobq = q, threads = nat num_threads,
                num_threads_alive = 0, num_threads_working = 0,
                threads_keepalive = True, threads_on_hold = False,
                pc = thread_init_all malloc_thread (nat num_threads),
                usr1 = (\<lambda>_. False), held = (\<lambda>_. False), main = MInit, waiter = WOut,
                submitted = [], started = [], finished = [], snapshot = []\<rparr>))"

section \<open>Operations\<close>

definition thpool_add_work ::
  "job_heap \<Rightarrow> jobqueue \<Rightarrow> addr option \<Rightarrow> nat \<Rightarrow> nat \<Rightarrow> c_error + int \<times> job_heap \<times> jobqueue" where
  "thpool_add_work h q malloc function_p arg_p =
     (case malloc of
        None \<Rightarrow> Inr (-1, h, q)
      | Some newjob \<Rightarrow>
         (case jobqueue_push (h(newjob \<mapsto> \<lparr>prev = None, job_fun = function_p, job_arg = arg_p\<rparr>)) q newjob of
            Inl e \<Rightarrow> Inl e
          | Inr (h', q') \<Rightarrow> Inr (0, h', q')))"

definition thpool_pause :: "pool \<Rightarrow> pool" where
  "thpool_pause s = s\<lparr>usr1 := (\<lambda>n. usr1 s n \<or> int n < num_threads_alive s)\<rparr>"

definition thpool_resume :: "pool \<Rightarrow> pool" where
  "thpool_resume s = s\<lparr>threads_on_hold := False\<rparr>"

definition thpool_num_threads_working :: "pool \<Rightarrow> int" where
  "thpool_num_threads_working s = num_threads_working s"

text \<open>
  \<open>pthread_cond_signal\<close> on the semaphore: if a thread sleeps there, one of them wakes up and
  will check the value again; a broadcast wakes them all.
\<close>

definition may_wake :: "pool \<Rightarrow> nat option \<Rightarrow> bool" where
  "may_wake s w = (case w of None \<Rightarrow> (\<forall>t < threads s. pc s t \<noteq> TSleep)
                           | Some t \<Rightarrow> t < threads s \<and> pc s t = TSleep)"

definition wake :: "nat option \<Rightarrow> (nat \<Rightarrow> tpc) \<Rightarrow> (nat \<Rightarrow> tpc)" where
  "wake w pcs = (case w of None \<Rightarrow> pcs | Some t \<Rightarrow> pcs(t := TCheck))"

definition wake_all :: "(nat \<Rightarrow> tpc) \<Rightarrow> (nat \<Rightarrow> tpc)" where
  "wake_all pcs = (\<lambda>t. if pcs t = TSleep then TCheck else pcs t)"

text \<open>\<open>thcount_lock\<close> is free unless the caller of \<open>thpool_wait\<close> holds it.\<close>

definition thcount_free :: "pool \<Rightarrow> bool" where
  "thcount_free s = (waiter s \<noteq> WTestLen \<and> waiter s \<noteq> WTestWorking)"

definition wake_waiter :: "wpc \<Rightarrow> wpc" where
  "wake_waiter w = (if w = WAsleep then WWoken else w)"

text \<open>A worker can move when it exists and is not inside the handler \<open>thread_hold\<close>.\<close>

definition runs :: "pool \<Rightarrow> nat \<Rightarrow> bool" where
  "runs s t = (t < threads s \<and> \<not> held s t)"

section \<open>Steps\<close>

inductive pool_step :: "pool \<Rightarrow> pool \<Rightarrow> bool" where
  \<comment> \<open>\<open>thpool_init\<close>: the busy-wait ends\<close>
  init_done: "main s = MInit \<Longrightarrow> num_threads_alive s = int (threads s) \<Longrightarrow>
     pool_step s (s\<lparr>main := MReady\<rparr>)"
  \<comment> \<open>\<open>thread_do\<close>\<close>
| alive: "runs s t \<Longrightarrow> pc s t = TStart \<Longrightarrow> thcount_free s \<Longrightarrow>
     pool_step s (s\<lparr>num_threads_alive := num_threads_alive s + 1, pc := (pc s)(t := TLoop)\<rparr>)"
| loop_enter: "runs s t \<Longrightarrow> pc s t = TLoop \<Longrightarrow> threads_keepalive s \<Longrightarrow>
     pool_step s (s\<lparr>pc := (pc s)(t := TCheck)\<rparr>)"
| loop_leave: "runs s t \<Longrightarrow> pc s t = TLoop \<Longrightarrow> \<not> threads_keepalive s \<Longrightarrow>
     pool_step s (s\<lparr>pc := (pc s)(t := TExit)\<rparr>)"
| wait_sleep: "runs s t \<Longrightarrow> pc s t = TCheck \<Longrightarrow> bsem_wait (has_jobs (jobq s)) = None \<Longrightarrow>
     pool_step s (s\<lparr>pc := (pc s)(t := TSleep)\<rparr>)"
| wait_spurious: "runs s t \<Longrightarrow> pc s t = TSleep \<Longrightarrow>
     pool_step s (s\<lparr>pc := (pc s)(t := TCheck)\<rparr>)"
| wait_done: "runs s t \<Longrightarrow> pc s t = TCheck \<Longrightarrow> bsem_wait (has_jobs (jobq s)) = Some b \<Longrightarrow>
     pool_step s (s\<lparr>jobq := (jobq s)\<lparr>has_jobs := b\<rparr>, pc := (pc s)(t := TGot)\<rparr>)"
| got_work: "runs s t \<Longrightarrow> pc s t = TGot \<Longrightarrow> threads_keepalive s \<Longrightarrow>
     pool_step s (s\<lparr>pc := (pc s)(t := TInc)\<rparr>)"
| got_stop: "runs s t \<Longrightarrow> pc s t = TGot \<Longrightarrow> \<not> threads_keepalive s \<Longrightarrow>
     pool_step s (s\<lparr>pc := (pc s)(t := TLoop)\<rparr>)"
| inc: "runs s t \<Longrightarrow> pc s t = TInc \<Longrightarrow> thcount_free s \<Longrightarrow>
     pool_step s (s\<lparr>num_threads_working := num_threads_working s + 1, pc := (pc s)(t := TPull)\<rparr>)"
| pull_none: "runs s t \<Longrightarrow> pc s t = TPull \<Longrightarrow> jobqueue_pull (jobs s) (jobq s) = Inr (None, q) \<Longrightarrow>
     pool_step s (s\<lparr>jobq := q, pc := (pc s)(t := TDec)\<rparr>)"
| pull_some: "runs s t \<Longrightarrow> pc s t = TPull \<Longrightarrow> jobqueue_pull (jobs s) (jobq s) = Inr (Some a, q) \<Longrightarrow>
     jobs s a = Some j \<Longrightarrow>
     (if len (jobq s) = 1 then w = None else may_wake s w) \<Longrightarrow>
     pool_step s (s\<lparr>jobq := q, pc := (wake w (pc s))(t := TRun a (job_fun j, job_arg j)),
                    started := started s @ [(job_fun j, job_arg j)]\<rparr>)"
| run: "runs s t \<Longrightarrow> pc s t = TRun a f \<Longrightarrow> free_job (jobs s) (Some a) = Inr h \<Longrightarrow>
     pool_step s (s\<lparr>jobs := h, pc := (pc s)(t := TDec), finished := finished s @ [f]\<rparr>)"
| dec: "runs s t \<Longrightarrow> pc s t = TDec \<Longrightarrow> thcount_free s \<Longrightarrow>
     pool_step s (s\<lparr>num_threads_working := num_threads_working s - 1, pc := (pc s)(t := TLoop),
                    waiter := (if num_threads_working s - 1 = 0 then wake_waiter (waiter s)
                               else waiter s)\<rparr>)"
| exits: "runs s t \<Longrightarrow> pc s t = TExit \<Longrightarrow> thcount_free s \<Longrightarrow>
     pool_step s (s\<lparr>num_threads_alive := num_threads_alive s - 1, pc := (pc s)(t := TDead)\<rparr>)"
  \<comment> \<open>\<open>thread_hold\<close>, the handler of SIGUSR1\<close>
| hold_enter: "t < threads s \<Longrightarrow> usr1 s t \<Longrightarrow> \<not> held s t \<Longrightarrow>
     pool_step s (s\<lparr>usr1 := (usr1 s)(t := False), held := (held s)(t := True),
                    threads_on_hold := True\<rparr>)"
| hold_leave: "t < threads s \<Longrightarrow> held s t \<Longrightarrow> \<not> threads_on_hold s \<Longrightarrow>
     pool_step s (s\<lparr>held := (held s)(t := False)\<rparr>)"
  \<comment> \<open>calls of the client\<close>
| add_work: "main s = MReady \<Longrightarrow> jobs s a = None \<Longrightarrow>
     thpool_add_work (jobs s) (jobq s) (Some a) f x = Inr (0, h, q) \<Longrightarrow> may_wake s w \<Longrightarrow>
     pool_step s (s\<lparr>jobs := h, jobq := q, pc := wake w (pc s),
                    submitted := submitted s @ [(f, x)]\<rparr>)"
| pause: "main s = MReady \<Longrightarrow> pool_step s (thpool_pause s)"
| resume: "main s = MReady \<Longrightarrow> pool_step s (thpool_resume s)"
  \<comment> \<open>\<open>thpool_wait\<close>\<close>
| wait_call: "main s = MReady \<Longrightarrow> waiter s = WOut \<or> waiter s = WReturned \<Longrightarrow>
     pool_step s (s\<lparr>waiter := WTestLen\<rparr>)"
| wait_len: "main s \<noteq> MDestroyed \<Longrightarrow> waiter s = WTestLen \<Longrightarrow> len (jobq s) \<noteq> 0 \<Longrightarrow>
     pool_step s (s\<lparr>waiter := WAsleep\<rparr>)"
| wait_len_0: "main s \<noteq> MDestroyed \<Longrightarrow> waiter s = WTestLen \<Longrightarrow> len (jobq s) = 0 \<Longrightarrow>
     pool_step s (s\<lparr>waiter := WTestWorking, snapshot := submitted s\<rparr>)"
| wait_working: "main s \<noteq> MDestroyed \<Longrightarrow> waiter s = WTestWorking \<Longrightarrow> num_threads_working s \<noteq> 0 \<Longrightarrow>
     pool_step s (s\<lparr>waiter := WAsleep\<rparr>)"
| wait_return: "main s \<noteq> MDestroyed \<Longrightarrow> waiter s = WTestWorking \<Longrightarrow> num_threads_working s = 0 \<Longrightarrow>
     pool_step s (s\<lparr>waiter := WReturned\<rparr>)"
| wait_spurious_wake: "waiter s = WAsleep \<Longrightarrow> pool_step s (s\<lparr>waiter := WWoken\<rparr>)"
| wait_relock: "main s \<noteq> MDestroyed \<Longrightarrow> waiter s = WWoken \<Longrightarrow>
     pool_step s (s\<lparr>waiter := WTestLen\<rparr>)"
  \<comment> \<open>\<open>thpool_destroy\<close>\<close>
| destroy_start: "main s = MReady \<Longrightarrow>
     pool_step s (s\<lparr>threads_keepalive := False, main := MDestroying\<rparr>)"
| destroy_post: "main s = MDestroying \<Longrightarrow> num_threads_alive s \<noteq> 0 \<Longrightarrow>
     pool_step s (s\<lparr>jobq := (jobq s)\<lparr>has_jobs := bsem_post_all (has_jobs (jobq s))\<rparr>,
                    pc := wake_all (pc s)\<rparr>)"
| destroy_done: "main s = MDestroying \<Longrightarrow> num_threads_alive s = 0 \<Longrightarrow>
     jobqueue_destroy (jobs s) (jobq s) = Some (Inr h) \<Longrightarrow>
     pool_step s (s\<lparr>jobs := h, main := MDestroyed\<rparr>)"

inductive_cases pool_stepE: "pool_step s s'"

text \<open>The states a pool can get into after a \<open>thpool_init\<close> whose allocations all succeed.\<close>

definition pool_start :: "int \<Rightarrow> pool" where
  "pool_start num_threads = the (thpool_init True True True (\<lambda>_. True) num_threads)"

definition pool_reachable :: "int \<Rightarrow> pool \<Rightarrow> bool" where
  "pool_reachable n s \<longleftrightarrow> pool_step\<^sup>*\<^sup>* (pool_start n) s"

section \<open>Counting threads\<close>

fun alive_at :: "tpc \<Rightarrow> int" where
  "alive_at TNever = 0"
| "alive_at TStart = 0"
| "alive_at TDead = 0"
| "alive_at _ = 1"

fun working_at :: "tpc \<Rightarrow> int" where
  "working_at TPull = 1"
| "working_at (TRun _ _) = 1"
| "working_at TDec = 1"
| "working_at _ = 0"

fun running_at :: "tpc \<Rightarrow> work multiset" where
  "running_at (TRun _ f) = {#f#}"
| "running_at _ = {#}"

definition alive_count :: "pool \<Rightarrow> int" where
  "alive_count s = (\<Sum>t<threads s. alive_at (pc s t))"

definition working_count :: "pool \<Rightarrow> int" where
  "working_count s = (\<Sum>t<threads s. working_at (pc s t))"

definition running :: "pool \<Rightarrow> work multiset" where
  "running s = (\<Sum>t<threads s. running_at (pc s t))"

lemma alive_at_nonneg: "0 \<le> alive_at p"
  by (cases p) auto

lemma alive_at_le: "alive_at p \<le> 1"
  by (cases p) auto

lemma working_at_nonneg: "0 \<le> working_at p"
  by (cases p) auto

lemma wake_cases: "wake w pcs t = pcs t \<or> w = Some t \<and> wake w pcs t = TCheck"
  by (auto simp: wake_def split: option.split)

lemma may_wake_at:
  assumes "w = None \<or> may_wake s w"
  shows "wake w (pc s) t = pc s t \<or> pc s t = TSleep \<and> wake w (pc s) t = TCheck"
  using assms by (auto simp: may_wake_def wake_def split: option.splits)

text \<open>Waking threads changes none of the three counts.\<close>

lemma count_wake:
  assumes "w = None \<or> may_wake s w" and "f TSleep = f TCheck"
  shows "f (wake w (pc s) t) = f (pc s t)"
  using may_wake_at [OF assms(1), of t] assms(2) by auto

lemma count_wake_all:
  assumes "f TSleep = f TCheck"
  shows "f (wake_all (pc s) t) = f (pc s t)"
  using assms by (auto simp: wake_all_def)

section \<open>The counters are exact\<close>

definition count_inv :: "pool \<Rightarrow> bool" where
  "count_inv s \<longleftrightarrow>
     num_threads_alive s = alive_count s \<and> num_threads_working s = working_count s \<and>
     mset (started s) = mset (finished s) + running s"

lemma count_inv_step:
  assumes "pool_step s s'" and "count_inv s"
  shows "count_inv s'"
  using assms
proof (cases rule: pool_step.cases)
  case (pull_some t a q j w)
  from pull_some have w: "w = None \<or> may_wake s w" by (auto split: if_splits)
  have "\<And>i. alive_at (wake w (pc s) i) = alive_at (pc s i)"
    "\<And>i. working_at (wake w (pc s) i) = working_at (pc s i)"
    "\<And>i. running_at (wake w (pc s) i) = running_at (pc s i)"
    using w by (auto simp: count_wake)
  with pull_some assms(2) show ?thesis
    by (simp add: count_inv_def alive_count_def working_count_def running_def runs_def
        sum_if_int sum_if_mset)
next
  case (run t a f h)
  then have "{#f#} \<subseteq># running s"
    using sum_member_mset [of t "threads s" "\<lambda>i. running_at (pc s i)"] 
    by (simp add: running_def runs_def)
  with run assms(2) show ?thesis
    by (simp add: count_inv_def alive_count_def working_count_def running_def runs_def
        sum_if_int sum_if_mset)
next
  case (add_work a f x h q w)
  with assms(2) show ?thesis
    by (simp add: count_inv_def alive_count_def working_count_def running_def count_wake)
next
  case destroy_post
  with assms(2) show ?thesis
    by (simp add: count_inv_def alive_count_def working_count_def running_def count_wake_all)
qed (auto simp: count_inv_def alive_count_def working_count_def running_def runs_def
       thpool_pause_def thpool_resume_def sum_if_int sum_if_mset)

lemma alive_at_zero: "alive_at p = 0 \<longleftrightarrow> p = TNever \<or> p = TStart \<or> p = TDead"
  by (cases p) auto

lemma alive_count_zero:
  "alive_count s = 0 \<longleftrightarrow> (\<forall>t < threads s. alive_at (pc s t) = 0)"
  unfolding alive_count_def
  by (subst sum_nonneg_eq_0_iff) (auto simp: alive_at_nonneg)

lemma alive_count_all:
  assumes "alive_count s = int (threads s)" and "t < threads s"
  shows "alive_at (pc s t) = 1"
proof -
  have "(\<Sum>t<threads s. 1 - alive_at (pc s t)) = 0"
    using assms(1) by (simp add: alive_count_def sum_subtractf)
  moreover have "\<And>t. 0 \<le> 1 - alive_at (pc s t)" by (simp add: alive_at_le)
  ultimately have "\<forall>t\<in>{..<threads s}. 1 - alive_at (pc s t) = 0"
    by (subst (asm) sum_nonneg_eq_0_iff) auto
  with assms(2) show ?thesis by auto
qed

section \<open>Phases of the pool\<close>

text \<open>
  Once \<open>thpool_init\<close> has returned every worker has counted itself alive; workers leave their
  loop only after \<open>thpool_destroy\<close> has cleared \<open>threads_keepalive\<close>; a destroyed pool has no
  worker left.
\<close>

definition phase_inv :: "pool \<Rightarrow> bool" where
  "phase_inv s \<longleftrightarrow>
     (main s \<noteq> MInit \<longrightarrow> (\<forall>t < threads s. pc s t \<noteq> TStart \<and> pc s t \<noteq> TNever)) \<and>
     (main s = MDestroyed \<longrightarrow> (\<forall>t < threads s. pc s t = TDead)) \<and>
     (threads_keepalive s \<longrightarrow> (\<forall>t < threads s. pc s t \<noteq> TExit \<and> pc s t \<noteq> TDead)) \<and>
     (threads_keepalive s \<longleftrightarrow> main s = MInit \<or> main s = MReady)"

lemma phase_inv_wake:
  assumes "phase_inv s" and "w = None \<or> may_wake s w"
  shows "main s \<noteq> MInit \<longrightarrow> (\<forall>t < threads s. wake w (pc s) t \<noteq> TStart \<and> wake w (pc s) t \<noteq> TNever)"
    and "main s = MDestroyed \<longrightarrow> (\<forall>t < threads s. wake w (pc s) t = TDead)"
    and "threads_keepalive s \<longrightarrow> (\<forall>t < threads s. wake w (pc s) t \<noteq> TExit \<and> wake w (pc s) t \<noteq> TDead)"
proof -
  have "wake w (pc s) t = pc s t \<or> pc s t = TSleep \<and> wake w (pc s) t = TCheck" for t
    using assms(2) by (rule may_wake_at)
  then have eq: "p \<noteq> TCheck \<Longrightarrow> p \<noteq> TSleep \<Longrightarrow> wake w (pc s) t = p \<longleftrightarrow> pc s t = p" for t p
    by (metis (full_types))
  show "main s \<noteq> MInit \<longrightarrow> (\<forall>t < threads s. wake w (pc s) t \<noteq> TStart \<and> wake w (pc s) t \<noteq> TNever)"
    and "main s = MDestroyed \<longrightarrow> (\<forall>t < threads s. wake w (pc s) t = TDead)"
    and "threads_keepalive s \<longrightarrow> (\<forall>t < threads s. wake w (pc s) t \<noteq> TExit \<and> wake w (pc s) t \<noteq> TDead)"
    using assms(1) by (simp_all add: eq phase_inv_def)
qed

lemma phase_inv_step:
  assumes "pool_step s s'" and "phase_inv s" and "count_inv s"
  shows "phase_inv s'"
  using assms(1)
proof (cases rule: pool_step.cases)
  case init_done
  have "\<forall>t < threads s. alive_at (pc s t) = 1"
    using init_done assms(3) alive_count_all by (auto simp: count_inv_def)
  then have "\<forall>t < threads s. pc s t \<noteq> TStart \<and> pc s t \<noteq> TNever" by auto
  with init_done assms(2) show ?thesis by (auto simp: phase_inv_def)
next
  case (pull_some t a q j w)
  from pull_some have "w = None \<or> may_wake s w" by (auto split: if_splits)
  note w = phase_inv_wake [OF assms(2) this]
  from pull_some assms(2) w show ?thesis by (auto simp: phase_inv_def runs_def)
next
  case (add_work a f x h q w)
  from add_work have "w = None \<or> may_wake s w" by auto
  note w = phase_inv_wake [OF assms(2) this]
  from add_work assms(2) w show ?thesis by (auto simp: phase_inv_def)
next
  case destroy_post
  with assms(2) show ?thesis by (auto simp: phase_inv_def wake_all_def)
next
  case (destroy_done h)
  have "\<forall>t < threads s. alive_at (pc s t) = 0"
    using destroy_done assms(3) alive_count_zero by (auto simp: count_inv_def)
  with destroy_done assms(2) show ?thesis by (auto simp: phase_inv_def alive_at_zero)
qed (use assms(2) in \<open>auto simp: phase_inv_def runs_def thpool_pause_def thpool_resume_def\<close>)

end
