(* ===== verification/PoolInvariants.thy ===== *)
theory PoolInvariants
  imports ThreadPool
begin

text \<open>
  The invariants of the pool that speak about the jobs: where they are on the heap, that none is left
  without a worker that can take it, and what a caller of \<open>thpool_wait\<close> waits for.
\<close>

section \<open>Jobs on the heap\<close>

text \<open>
  Every allocated job is either linked in the queue or held by exactly one running worker,
  and the queue's work followed by the work handed out is the work submitted.
\<close>

fun running_block :: "tpc \<Rightarrow> addr option" where
  "running_block (TRun a _) = Some a"
| "running_block _ = None"

definition busy :: "nat \<Rightarrow> (nat \<Rightarrow> tpc) \<Rightarrow> addr set" where
  "busy n pcs = {a. \<exists>t < n. running_block (pcs t) = Some a}"

definition one_runner :: "nat \<Rightarrow> (nat \<Rightarrow> tpc) \<Rightarrow> bool" where
  "one_runner n pcs \<longleftrightarrow>
     (\<forall>t < n. \<forall>t' < n. \<forall>a. running_block (pcs t) = Some a \<and> running_block (pcs t') = Some a \<longrightarrow> t = t')"

definition work_of :: "job_heap \<Rightarrow> addr list \<Rightarrow> work list" where
  "work_of h as = map (\<lambda>a. the (job_work h a)) as"

definition mem_ok :: "job_heap \<Rightarrow> jobqueue \<Rightarrow> addr list \<Rightarrow> nat \<Rightarrow> (nat \<Rightarrow> tpc) \<Rightarrow> bool" where
  "mem_ok h q as n pcs \<longleftrightarrow>
     jq_repr (h, q) as \<and> dom h = set as \<union> busy n pcs \<and> set as \<inter> busy n pcs = {} \<and> one_runner n pcs"

definition mem_inv :: "pool \<Rightarrow> bool" where
  "mem_inv s \<longleftrightarrow>
     (if main s = MDestroyed then jobs s = Map.empty
      else \<exists>as. mem_ok (jobs s) (jobq s) as (threads s) (pc s) \<and>
                started s @ work_of (jobs s) as = submitted s)"

lemma mem_ok_frame:
  assumes "\<And>t. running_block (pcs' t) = running_block (pcs t)"
  shows "mem_ok h q as n pcs' \<longleftrightarrow> mem_ok h q as n pcs"
  using assms by (simp add: mem_ok_def busy_def one_runner_def)

lemma mem_ok_flag [simp]: "mem_ok h (q\<lparr>has_jobs := b\<rparr>) as n pcs \<longleftrightarrow> mem_ok h q as n pcs"
  by (simp add: mem_ok_def jq_repr_def)

lemma running_block_wake:
  "w = None \<or> may_wake s w \<Longrightarrow> running_block (wake w (pc s) t) = running_block (pc s t)"
  by (rule count_wake) auto

lemma mem_ok_push:
  assumes ok: "mem_ok h q as n pcs" and new: "h a = None"
    and push: "jobqueue_push (h(a \<mapsto> j)) q a = Inr (h', q')"
  shows "mem_ok h' q' (as @ [a]) n pcs \<and> work_of h' (as @ [a]) = work_of h as @ [(job_fun j, job_arg j)]"
proof -
  from ok new have a: "a \<notin> set as" "a \<notin> busy n pcs" by (auto simp: mem_ok_def)
  with ok have "jq_repr (h(a \<mapsto> j), q) as" by (simp add: mem_ok_def jq_repr_frame)
  then have r: "jq_repr (h', q') (as @ [a])" and w: "job_work h' = job_work (h(a \<mapsto> j))"
    using jobqueue_push_repr [of "h(a \<mapsto> j)" q as a] a push by auto
  have "b \<in> dom h' \<longleftrightarrow> b \<in> dom (h(a \<mapsto> j))" for b
    using job_work_dom [of h' b] job_work_dom [of "h(a \<mapsto> j)" b] w by simp
  then have d: "dom h' = insert a (dom h)" by auto
  have "mem_ok h' q' (as @ [a]) n pcs"
    using r ok a by (auto simp: mem_ok_def d)
  moreover have "work_of h' (as @ [a]) = work_of h as @ [(job_fun j, job_arg j)]"
    using a by (simp add: work_of_def w job_work_upd)
  ultimately show ?thesis by simp
qed

lemma thpool_add_work_ok:
  assumes ok: "mem_ok h q as n pcs" and new: "h a = None"
  shows "\<exists>h' q'. thpool_add_work h q (Some a) f x = Inr (0, h', q') \<and>
    mem_ok h' q' (as @ [a]) n pcs \<and> work_of h' (as @ [a]) = work_of h as @ [(f, x)] \<and>
    v (has_jobs q') = 1"
proof -
  let ?j = "\<lparr>prev = None, job_fun = f, job_arg = x\<rparr>"
  from ok new have "a \<notin> set as" by (auto simp: mem_ok_def)
  with ok have "jq_repr (h(a \<mapsto> ?j), q) as" by (simp add: mem_ok_def jq_repr_frame)
  then obtain h' q' where push: "jobqueue_push (h(a \<mapsto> ?j)) q a = Inr (h', q')"
    and v: "v (has_jobs q') = 1"
    using jobqueue_push_repr [of "h(a \<mapsto> ?j)" q as a] \<open>a \<notin> set as\<close> by auto
  from mem_ok_push [OF ok new push] push v show ?thesis
    by (auto simp: thpool_add_work_def)
qed

lemma busy_start:
  "t < n \<Longrightarrow> running_block (pcs t) = None \<Longrightarrow> busy n (pcs(t := TRun a f)) = insert a (busy n pcs)"
  unfolding busy_def by (rule set_eqI) (simp, metis option.distinct(1))

lemma busy_stop:
  assumes "one_runner n pcs" and "t < n" and "pcs t = TRun a f" and "running_block p = None"
  shows "busy n (pcs(t := p)) = busy n pcs - {a}"
proof (rule set_eqI)
  fix b
  have "running_block (pcs t) = Some a" using assms(3) by simp
  then show "b \<in> busy n (pcs(t := p)) \<longleftrightarrow> b \<in> busy n pcs - {a}"
    using assms(1,2,4) unfolding busy_def one_runner_def
    by (simp, metis option.distinct(1) option.inject)
qed

lemma mem_ok_pull:
  assumes ok: "mem_ok h q as n pcs" and t: "t < n" "running_block (pcs t) = None"
    and pull: "jobqueue_pull h q = Inr (Some a, q')" and j: "h a = Some j"
  shows "\<exists>bs. as = a # bs \<and> mem_ok h q' bs n (pcs(t := TRun a (job_fun j, job_arg j))) \<and>
    work_of h as = (job_fun j, job_arg j) # work_of h bs"
proof -
  from ok have r: "jq_repr (h, q) as" by (simp add: mem_ok_def)
  then have "as \<noteq> []" using jobqueue_pull_nil pull by fastforce
  then obtain b bs where as: "as = b # bs" by (cases as) auto
  with r pull have ab: "as = a # bs" and r': "jq_repr (h, q') bs"
    using jobqueue_pull_cons by fastforce+
  then have "a \<notin> set bs" "a \<notin> busy n pcs"
    using ok jq_repr_distinct [OF r] by (auto simp: mem_ok_def)
  then have "one_runner n (pcs(t := TRun a (job_fun j, job_arg j)))"
    using ok t by (auto simp: mem_ok_def one_runner_def busy_def)
  with r' ab ok j t \<open>a \<notin> set bs\<close> show ?thesis
    by (auto simp: mem_ok_def busy_start work_of_def job_work_def)
qed

lemma mem_ok_run:
  assumes ok: "mem_ok h q as n pcs" and t: "t < n" "pcs t = TRun a f"
  shows "mem_ok (h(a := None)) q as n (pcs(t := TDec)) \<and> work_of (h(a := None)) as = work_of h as"
proof -
  from t have "a \<in> busy n pcs" by (auto simp: busy_def)
  with ok have a: "a \<notin> set as" by (auto simp: mem_ok_def)
  have "busy n (pcs(t := TDec)) = busy n pcs - {a}"
    using ok t by (intro busy_stop) (auto simp: mem_ok_def)
  moreover have "one_runner n (pcs(t := TDec))"
    using ok by (auto simp: mem_ok_def one_runner_def)
  ultimately show ?thesis
    using ok a by (auto simp: mem_ok_def jq_repr_frame work_of_def job_work_def)
qed

text \<open>The heap operations of a worker never fail in a state that satisfies the invariant.\<close>

lemma mem_ok_pull_succeeds:
  assumes "mem_ok h q as n pcs"
  shows "\<exists>r q'. jobqueue_pull h q = Inr (r, q') \<and> (\<forall>a. r = Some a \<longrightarrow> a \<in> dom h)"
proof (cases as)
  case Nil
  with assms show ?thesis using jobqueue_pull_nil by (fastforce simp: mem_ok_def)
next
  case (Cons a bs)
  with assms show ?thesis using jobqueue_pull_cons by (fastforce simp: mem_ok_def)
qed

lemma mem_ok_pull_none:
  assumes "mem_ok h q as n pcs" and "jobqueue_pull h q = Inr (None, q')"
  shows "as = [] \<and> q' = q"
proof (cases as)
  case Nil
  with assms show ?thesis using jobqueue_pull_nil by (fastforce simp: mem_ok_def)
next
  case (Cons a bs)
  with assms show ?thesis using jobqueue_pull_cons by (fastforce simp: mem_ok_def)
qed

lemma mem_inv_frame:
  assumes "mem_inv s" and "main s' = MDestroyed \<longleftrightarrow> main s = MDestroyed"
    and "jobs s' = jobs s" and "jobq s' = jobq s \<or> (\<exists>b. jobq s' = (jobq s)\<lparr>has_jobs := b\<rparr>)"
    and "threads s' = threads s" and "\<And>t. running_block (pc s' t) = running_block (pc s t)"
    and "started s' = started s" and "submitted s' = submitted s"
  shows "mem_inv s'"
  using assms mem_ok_frame [where pcs' = "pc s'" and pcs = "pc s"]
  unfolding mem_inv_def by auto

lemma mem_inv_live:
  assumes "mem_inv s" and "main s \<noteq> MDestroyed"
  obtains as where "mem_ok (jobs s) (jobq s) as (threads s) (pc s)"
    and "started s @ work_of (jobs s) as = submitted s"
  using assms by (auto simp: mem_inv_def)

lemma runs_not_destroyed:
  "phase_inv s \<Longrightarrow> runs s t \<Longrightarrow> pc s t \<noteq> TDead \<Longrightarrow> main s \<noteq> MDestroyed"
  by (auto simp: phase_inv_def runs_def)

lemma mem_inv_step:
  assumes "pool_step s s'" and "mem_inv s" and "phase_inv s" and "count_inv s"
  shows "mem_inv s'"
  using assms(1)
proof (cases rule: pool_step.cases)
  case (pull_none t q)
  with assms(3) have "main s \<noteq> MDestroyed" by (auto dest: runs_not_destroyed)
  moreover from assms(2) this obtain as where "mem_ok (jobs s) (jobq s) as (threads s) (pc s)"
    by (rule mem_inv_live)
  with pull_none have "q = jobq s" using mem_ok_pull_none by blast
  ultimately show ?thesis using pull_none by (intro mem_inv_frame [OF assms(2)]) auto
next
  case (pull_some t a q j w)
  with assms(3) have live: "main s \<noteq> MDestroyed" by (auto dest: runs_not_destroyed)
  from assms(2) live obtain as where ok: "mem_ok (jobs s) (jobq s) as (threads s) (pc s)"
    and str: "started s @ work_of (jobs s) as = submitted s" by (rule mem_inv_live)
  from pull_some have "w = None \<or> may_wake s w" by (auto split: if_splits)
  note w = running_block_wake [OF this]
  from w ok have "mem_ok (jobs s) (jobq s) as (threads s) (wake w (pc s))"
    using mem_ok_frame [where pcs' = "wake w (pc s)" and pcs = "pc s"] by simp
  then obtain bs where "as = a # bs"
    "mem_ok (jobs s) q bs (threads s) ((wake w (pc s))(t := TRun a (job_fun j, job_arg j)))"
    "work_of (jobs s) as = (job_fun j, job_arg j) # work_of (jobs s) bs"
    using mem_ok_pull [of "jobs s" "jobq s" as "threads s" "wake w (pc s)" t a q j] pull_some w [of t]
    by (auto simp: runs_def)
  with live str pull_some show ?thesis by (auto simp: mem_inv_def)
next
  case (run t a f h)
  with assms(3) have live: "main s \<noteq> MDestroyed" by (auto dest: runs_not_destroyed)
  from assms(2) live obtain as where "mem_ok (jobs s) (jobq s) as (threads s) (pc s)"
    and "started s @ work_of (jobs s) as = submitted s" by (rule mem_inv_live)
  moreover from run have "h = (jobs s)(a := None)"
    by (auto simp: free_job_def split: option.splits)
  ultimately show ?thesis
    using live run mem_ok_run [of "jobs s" "jobq s" as "threads s" "pc s" t a f]
    by (auto simp: mem_inv_def runs_def)
next
  case (add_work a f x h q w)
  then have live: "main s \<noteq> MDestroyed" by simp
  from assms(2) live obtain as where ok: "mem_ok (jobs s) (jobq s) as (threads s) (pc s)"
    and str: "started s @ work_of (jobs s) as = submitted s" by (rule mem_inv_live)
  from ok add_work have "mem_ok h q (as @ [a]) (threads s) (pc s)"
    "work_of h (as @ [a]) = work_of (jobs s) as @ [(f, x)]"
    using thpool_add_work_ok [OF ok, of a f x] by auto
  moreover from this(1) add_work have "mem_ok h q (as @ [a]) (threads s) (wake w (pc s))"
    using mem_ok_frame [where pcs' = "wake w (pc s)" and pcs = "pc s"] running_block_wake by blast
  ultimately show ?thesis using live str add_work by (auto simp: mem_inv_def)
next
  case (destroy_done h)
  then have live: "main s \<noteq> MDestroyed" by simp
  from assms(2) live obtain as where ok: "mem_ok (jobs s) (jobq s) as (threads s) (pc s)"
    by (rule mem_inv_live)
  then have "h = (jobs s) |` (- set as)"
    using destroy_done jobqueue_destroy_repr by (auto simp: mem_ok_def)
  moreover have "\<forall>t < threads s. alive_at (pc s t) = 0"
    using destroy_done assms(4) alive_count_zero by (auto simp: count_inv_def)
  then have "busy (threads s) (pc s) = {}" by (auto simp: busy_def alive_at_zero)
  ultimately have "dom h = {}" using ok by (auto simp: mem_ok_def)
  with destroy_done show ?thesis by (simp add: mem_inv_def)
next
  case destroy_post
  then show ?thesis by (intro mem_inv_frame [OF assms(2)]) (auto simp: wake_all_def)
next
  case (wait_done t b)
  with assms(3) have "main s \<noteq> MDestroyed" by (auto dest: runs_not_destroyed)
  with wait_done show ?thesis by (intro mem_inv_frame [OF assms(2)]) auto
qed (rule mem_inv_frame [OF assms(2)]; auto simp: thpool_pause_def thpool_resume_def)+

section \<open>No lost wake-up\<close>

text \<open>
  While the pool is in use, a non-empty queue is announced: the flag is up, or a worker has
  taken it and is on its way to the queue.
\<close>

definition token_inv :: "pool \<Rightarrow> bool" where
  "token_inv s \<longleftrightarrow>
     (threads_keepalive s \<and> len (jobq s) \<noteq> 0 \<longrightarrow>
        v (has_jobs (jobq s)) = 1 \<or>
        (\<exists>t < threads s. pc s t = TGot \<or> pc s t = TInc \<or> pc s t = TPull))"

text \<open>A raised flag is seen: a worker is about to check it, or none is asleep.\<close>

definition wake_inv :: "pool \<Rightarrow> bool" where
  "wake_inv s \<longleftrightarrow>
     (v (has_jobs (jobq s)) = 1 \<longrightarrow>
        (\<exists>t < threads s. pc s t = TCheck) \<or> (\<forall>t < threads s. pc s t \<noteq> TSleep))"

lemma token_inv_frame:
  assumes "token_inv s" and "jobq s' = jobq s" and "threads s' = threads s"
    and "threads_keepalive s' \<Longrightarrow> threads_keepalive s"
    and "\<And>t. pc s t = TGot \<or> pc s t = TInc \<or> pc s t = TPull \<Longrightarrow>
              pc s' t = TGot \<or> pc s' t = TInc \<or> pc s' t = TPull \<or> \<not> threads_keepalive s'"
  shows "token_inv s'"
  using assms unfolding token_inv_def by metis

lemma wake_inv_frame:
  assumes "wake_inv s" and "has_jobs (jobq s') = has_jobs (jobq s)" and "threads s' = threads s"
    and "\<And>t. pc s t = TCheck \<Longrightarrow> pc s' t = TCheck"
    and "\<And>t. pc s' t = TSleep \<Longrightarrow> pc s t = TSleep"
  shows "wake_inv s'"
  using assms unfolding wake_inv_def by metis

lemma token_inv_step:
  assumes "pool_step s s'" and "token_inv s" and "mem_inv s" and "phase_inv s"
  shows "token_inv s'"
  using assms(1)
proof (cases rule: pool_step.cases)
  case (pull_none t q)
  with assms(4) have "main s \<noteq> MDestroyed" by (auto dest: runs_not_destroyed)
  with assms(3) obtain as where "mem_ok (jobs s) (jobq s) as (threads s) (pc s)"
    by (rule mem_inv_live)
  with pull_none have "len q = 0" using mem_ok_pull_none by (fastforce simp: mem_ok_def)
  with pull_none show ?thesis by (simp add: token_inv_def)
next
  case (pull_some t a q j w)
  with assms(4) have "main s \<noteq> MDestroyed" by (auto dest: runs_not_destroyed)
  with assms(3) obtain as where "mem_ok (jobs s) (jobq s) as (threads s) (pc s)"
    by (rule mem_inv_live)
  then obtain bs where "jq_repr (jobs s, jobq s) (a # bs)"
    using mem_ok_pull [of "jobs s" "jobq s" as "threads s" "pc s" t a q j] pull_some
    by (auto simp: runs_def mem_ok_def)
  with pull_some have "len q \<noteq> 0 \<longrightarrow> v (has_jobs q) = 1"
    using jobqueue_pull_cons by fastforce
  with pull_some show ?thesis by (simp add: token_inv_def)
next
  case (add_work a f x h q w)
  then have "main s \<noteq> MDestroyed" by simp
  with assms(3) obtain as where "mem_ok (jobs s) (jobq s) as (threads s) (pc s)"
    by (rule mem_inv_live)
  from thpool_add_work_ok [OF this, of a f x] add_work have "v (has_jobs q) = 1" by auto
  with add_work show ?thesis by (simp add: token_inv_def)
next
  case (wait_done t b)
  then show ?thesis by (auto simp: token_inv_def runs_def)
next
  case destroy_post
  with assms(4) show ?thesis by (auto simp: token_inv_def phase_inv_def)
next
  case destroy_done
  with assms(4) show ?thesis by (auto simp: token_inv_def phase_inv_def)
qed (rule token_inv_frame [OF assms(2)]; auto simp: thpool_pause_def thpool_resume_def)+

lemma wake_inv_post:
  assumes "may_wake s w" and "\<And>i. i \<noteq> t \<Longrightarrow> pcs i = wake w (pc s) i"
    and "pc s t \<noteq> TSleep \<and> pcs t \<noteq> TSleep \<or> pcs t = wake w (pc s) t"
  shows "(\<exists>i < threads s. pcs i = TCheck) \<or> (\<forall>i < threads s. pcs i \<noteq> TSleep)"
proof (cases w)
  case None
  with assms(1) have "\<forall>i < threads s. pc s i \<noteq> TSleep" by (simp add: may_wake_def)
  moreover have "pcs i = pc s i \<or> pcs i \<noteq> TSleep" for i
    using assms(2) [of i] assms(3) None by (cases "i = t") (auto simp: wake_def)
  ultimately show ?thesis by metis
next
  case (Some u)
  with assms(1) have u: "u < threads s" "pc s u = TSleep" by (auto simp: may_wake_def)
  have "pcs u = TCheck"
    using assms(2) [of u] assms(3) u(2) Some by (cases "u = t") (auto simp: wake_def)
  with u show ?thesis by blast
qed

lemma wake_inv_step:
  assumes "pool_step s s'" and "wake_inv s" and "mem_inv s" and "phase_inv s"
  shows "wake_inv s'"
  using assms(1)
proof (cases rule: pool_step.cases)
  case (pull_none t q)
  with assms(4) have "main s \<noteq> MDestroyed" by (auto dest: runs_not_destroyed)
  with assms(3) obtain as where "mem_ok (jobs s) (jobq s) as (threads s) (pc s)"
    by (rule mem_inv_live)
  with pull_none have "q = jobq s" using mem_ok_pull_none by blast
  with pull_none show ?thesis by (intro wake_inv_frame [OF assms(2)]) (auto split: if_splits)
next
  case (pull_some t a q j w)
  show ?thesis
  proof (cases "len (jobq s) = 1")
    case True
    with pull_some have "has_jobs q = has_jobs (jobq s)" and "w = None"
      by (auto simp: jobqueue_pull_def)
    with pull_some show ?thesis
      by (intro wake_inv_frame [OF assms(2)]) (auto simp: wake_def split: if_splits)
  next
    case False
    let ?pcs = "(wake w (pc s))(t := TRun a (job_fun j, job_arg j))"
    have "(\<exists>i < threads s. ?pcs i = TCheck) \<or> (\<forall>i < threads s. ?pcs i \<noteq> TSleep)"
      by (rule wake_inv_post [of s w t]) (use False pull_some in auto)
    with pull_some show ?thesis by (simp add: wake_inv_def)
  qed
next
  case (add_work a f x h q w)
  then have "(\<exists>i < threads s. wake w (pc s) i = TCheck) \<or> (\<forall>i < threads s. wake w (pc s) i \<noteq> TSleep)"
    by (intro wake_inv_post [of s w 0]) auto
  with add_work show ?thesis by (simp add: wake_inv_def)
next
  case (wait_done t b)
  then have "v b = 0" by (auto simp: bsem_wait_def split: if_splits)
  with wait_done show ?thesis by (simp add: wake_inv_def)
next
  case (wait_sleep t)
  then have "v (has_jobs (jobq s)) \<noteq> 1" by (auto simp: bsem_wait_def split: if_splits)
  with wait_sleep show ?thesis by (simp add: wake_inv_def)
next
  case destroy_post
  have "\<forall>t < threads s. wake_all (pc s) t \<noteq> TSleep" by (simp add: wake_all_def)
  with destroy_post show ?thesis by (simp add: wake_inv_def)
qed (rule wake_inv_frame [OF assms(2)];
     auto simp: thpool_pause_def thpool_resume_def split: if_splits)+

section \<open>Waiting for the pool to become idle\<close>

text \<open>
  A caller asleep in \<open>thpool_wait\<close> has something to wait for; a caller that has seen the
  queue empty has in \<open>snapshot\<close> what was submitted until then, all of it handed out; when it
  returns, all of it is finished.
\<close>

definition waiter_inv :: "pool \<Rightarrow> bool" where
  "waiter_inv s \<longleftrightarrow>
     (waiter s = WAsleep \<longrightarrow> len (jobq s) \<noteq> 0 \<or> num_threads_working s \<noteq> 0) \<and>
     (waiter s = WTestWorking \<longrightarrow> mset (snapshot s) \<subseteq># mset (started s)) \<and>
     (waiter s = WReturned \<longrightarrow> mset (snapshot s) \<subseteq># mset (finished s))"

lemma working_count_nonneg: "0 \<le> working_count s"
  by (simp add: working_count_def sum_nonneg working_at_nonneg)

lemma working_count_pos: "t < threads s \<Longrightarrow> working_at (pc s t) \<le> working_count s"
  unfolding working_count_def by (rule sum_pos_member) (auto simp: working_at_nonneg)

lemma working_count_zero: "working_count s = 0 \<Longrightarrow> running s = {#}"
proof -
  assume "working_count s = 0"
  then have "\<forall>t\<in>{..<threads s}. working_at (pc s t) = 0"
    unfolding working_count_def by (subst (asm) sum_nonneg_eq_0_iff) (auto simp: working_at_nonneg)
  then have "running_at (pc s t) = {#}" if "t < threads s" for t
    using that by (cases "pc s t") force+
  then show ?thesis by (simp add: running_def)
qed

lemma waiter_inv_step:
  assumes "pool_step s s'" and "waiter_inv s" and "count_inv s" and "mem_inv s" and "phase_inv s"
  shows "waiter_inv s'"
  using assms(1)
proof (cases rule: pool_step.cases)
  case (pull_none t q)
  with assms(5) have "main s \<noteq> MDestroyed" by (auto dest: runs_not_destroyed)
  with assms(4) obtain as where "mem_ok (jobs s) (jobq s) as (threads s) (pc s)"
    by (rule mem_inv_live)
  with pull_none have "q = jobq s" using mem_ok_pull_none by blast
  with pull_none assms(2) show ?thesis by (auto simp: waiter_inv_def)
next
  case (pull_some t a q j w)
  then have "num_threads_working s \<noteq> 0"
    using working_count_pos [of t s] assms(3) by (auto simp: runs_def count_inv_def)
  with pull_some assms(2) show ?thesis
    by (auto simp: waiter_inv_def intro: subset_mset.order_trans)
next
  case (run t a f h)
  with assms(2) show ?thesis
    by (auto simp: waiter_inv_def intro: subset_mset.order_trans)
next
  case (inc t)
  with assms(2,3) working_count_nonneg [of s] show ?thesis by (auto simp: waiter_inv_def count_inv_def)
next
  case (dec t)
  with assms(2) show ?thesis
    by (auto simp: waiter_inv_def wake_waiter_def thcount_free_def split: if_splits)
next
  case (add_work a f x h q w)
  then have "main s \<noteq> MDestroyed" by simp
  with assms(4) obtain as where "mem_ok (jobs s) (jobq s) as (threads s) (pc s)"
    by (rule mem_inv_live)
  from thpool_add_work_ok [OF this, of a f x] add_work have "len q \<noteq> 0"
    by (auto simp: mem_ok_def jq_repr_def)
  with add_work assms(2) show ?thesis by (auto simp: waiter_inv_def)
next
  case wait_len_0
  with assms(4) obtain as where ok: "mem_ok (jobs s) (jobq s) as (threads s) (pc s)"
    and str: "started s @ work_of (jobs s) as = submitted s" by (auto elim: mem_inv_live)
  from ok wait_len_0 have "as = []" by (auto simp: mem_ok_def jq_repr_def)
  with str wait_len_0 show ?thesis by (auto simp: waiter_inv_def work_of_def)
next
  case wait_return
  with assms(3) have "running s = {#}" by (auto simp: count_inv_def working_count_zero)
  with wait_return assms(2,3) show ?thesis by (auto simp: waiter_inv_def count_inv_def)
qed (use assms(2) in \<open>auto simp: waiter_inv_def thpool_pause_def thpool_resume_def bsem_wait_def
       split: if_splits\<close>)

section \<open>Reachable states\<close>

lemmas pool_invs = count_inv_def phase_inv_def mem_inv_def token_inv_def wake_inv_def waiter_inv_def

definition pool_inv :: "pool \<Rightarrow> bool" where
  "pool_inv s \<longleftrightarrow> count_inv s \<and> phase_inv s \<and> mem_inv s \<and> token_inv s \<and> wake_inv s \<and> waiter_inv s"

lemma thread_init_all_ok: "thread_init_all (\<lambda>_. True) n t = (if t < n then TStart else TNever)"
  by (induction n) (auto simp: thread_init_def less_Suc_eq)

lemma pool_start_eq:
  "pool_start n =
     \<lparr>jobs = Map.empty, jobq = \<lparr>front = None, rear = None, has_jobs = \<lparr>v = 0\<rparr>, len = 0\<rparr>,
      threads = nat n, num_threads_alive = 0, num_threads_working = 0,
      threads_keepalive = True, threads_on_hold = False,
      pc = (\<lambda>t. if t < nat n then TStart else TNever),
      usr1 = (\<lambda>_. False), held = (\<lambda>_. False), main = MInit, waiter = WOut,
      submitted = [], started = [], finished = [], snapshot = []\<rparr>"
  by (auto simp: pool_start_def thpool_init_def jobqueue_init_def bsem_init_def
      thread_init_all_ok fun_eq_iff)

lemma pool_inv_start: "pool_inv (pool_start n)"
  by (auto simp: pool_start_eq pool_inv_def pool_invs mem_ok_def busy_def one_runner_def
      jq_repr_def work_of_def alive_count_def working_count_def running_def)

lemma pool_inv_step: "pool_step s s' \<Longrightarrow> pool_inv s \<Longrightarrow> pool_inv s'"
  unfolding pool_inv_def
  by (blast intro: count_inv_step phase_inv_step mem_inv_step token_inv_step wake_inv_step
      waiter_inv_step)

lemma pool_reachable_inv: "pool_reachable n s \<Longrightarrow> pool_inv s"
  unfolding pool_reachable_def
  by (induction rule: rtranclp_induct) (auto intro: pool_inv_start pool_inv_step)

lemma pool_step_threads: "pool_step s s' \<Longrightarrow> threads s' = threads s"
  by (cases rule: pool_step.cases) (auto simp: thpool_pause_def thpool_resume_def)

lemma pool_reachable_threads: "pool_reachable n s \<Longrightarrow> threads s = nat n"
  unfolding pool_reachable_def
  by (induction rule: rtranclp_induct) (auto simp: pool_start_eq pool_step_threads)

end
