(* ===== verification/PoolProperties.thy ===== *)
theory PoolProperties
  imports PoolInvariants
begin

text \<open>
  What the thread pool promises its callers, in every state it can get into: order and
  exactly-once execution of jobs, exact counters, no lost wake-up, the meaning of a returning
  \<open>thpool_wait\<close>, memory safety, and a pool without leftovers after \<open>thpool_destroy\<close>.
\<close>

section \<open>Reading the queue\<close>

text \<open>The work in the queue, read off the heap from \<open>front\<close> along \<open>prev\<close>.\<close>

fun walk :: "job_heap \<Rightarrow> addr option \<Rightarrow> nat \<Rightarrow> work list" where
  "walk h p 0 = []"
| "walk h None (Suc n) = []"
| "walk h (Some a) (Suc n) =
     (case h a of None \<Rightarrow> [] | Some j \<Rightarrow> (job_fun j, job_arg j) # walk h (prev j) n)"

definition queued :: "pool \<Rightarrow> work list" where
  "queued s = walk (jobs s) (front (jobq s)) (nat (len (jobq s)))"

lemma walk_chain: "chain h p as \<Longrightarrow> walk h p (length as) = work_of h as"
  by (induction as arbitrary: p) (auto simp: work_of_def job_work_def)

lemma mem_ok_queued: "mem_ok (jobs s) (jobq s) as n pcs \<Longrightarrow> queued s = work_of (jobs s) as"
  by (simp add: mem_ok_def jq_repr_def queued_def walk_chain)

lemma reachable_mem:
  assumes "pool_reachable n s" and "main s \<noteq> MDestroyed"
  obtains as where "mem_ok (jobs s) (jobq s) as (threads s) (pc s)"
    and "started s @ queued s = submitted s" and "queued s = work_of (jobs s) as"
proof -
  from pool_reachable_inv [OF assms(1)] have "mem_inv s" by (simp add: pool_inv_def)
  then obtain as where ok: "mem_ok (jobs s) (jobq s) as (threads s) (pc s)"
    and "started s @ work_of (jobs s) as = submitted s" using assms(2) by (rule mem_inv_live)
  with mem_ok_queued [OF ok] that show thesis by simp
qed

lemma may_wake_exists: "\<exists>w. may_wake s w"
proof (cases "\<exists>t < threads s. pc s t = TSleep")
  case True
  then obtain t where "t < threads s" "pc s t = TSleep" by blast
  then have "may_wake s (Some t)" by (simp add: may_wake_def)
  then show ?thesis ..
next
  case False
  then have "may_wake s None" by (simp add: may_wake_def)
  then show ?thesis ..
qed

section \<open>Workers can always move\<close>

lemma worker_can_move:
  assumes inv: "pool_inv s" and live: "main s = MReady" and t: "runs s t" and free: "thcount_free s"
    and awake: "pc s t \<noteq> TSleep"
  shows "\<exists>s'. pool_step s s' \<and> pc s' t \<noteq> pc s t"
proof -
  from inv live have "mem_inv s" "main s \<noteq> MDestroyed" by (auto simp: pool_inv_def)
  then obtain as where ok: "mem_ok (jobs s) (jobq s) as (threads s) (pc s)" by (rule mem_inv_live)
  from inv live have ka: "threads_keepalive s" by (auto simp: pool_inv_def phase_inv_def)
  from inv live t have ne: "pc s t \<noteq> TStart" "pc s t \<noteq> TNever" "pc s t \<noteq> TExit" "pc s t \<noteq> TDead"
    using ka by (auto simp: pool_inv_def phase_inv_def runs_def)
  show ?thesis
  proof (cases "pc s t")
    case TLoop
    with pool_step.loop_enter [OF t TLoop ka] show ?thesis by force
  next
    case TCheck
    with pool_step.wait_sleep [OF t TCheck] pool_step.wait_done [OF t TCheck] show ?thesis
      by (cases "bsem_wait (has_jobs (jobq s))") force+
  next
    case TGot
    with pool_step.got_work [OF t TGot ka] show ?thesis by force
  next
    case TInc
    with pool_step.inc [OF t TInc free] show ?thesis by force
  next
    case TPull
    from mem_ok_pull_succeeds [OF ok] obtain r q where
      pull: "jobqueue_pull (jobs s) (jobq s) = Inr (r, q)" and dom: "\<forall>a. r = Some a \<longrightarrow> a \<in> dom (jobs s)"
      by blast
    show ?thesis
    proof (cases r)
      case None
      with TPull pool_step.pull_none [OF t TPull] pull show ?thesis by force
    next
      case (Some a)
      with dom obtain j where j: "jobs s a = Some j" by auto
      obtain w where "if len (jobq s) = 1 then w = None else may_wake s w"
        using may_wake_exists [of s] by (cases "len (jobq s) = 1") auto
      from pool_step.pull_some [OF t TPull pull [unfolded Some] j this] TPull show ?thesis by force
    qed
  next
    case (TRun a f)
    with t ok have "a \<in> dom (jobs s)" by (auto simp: mem_ok_def busy_def runs_def)
    then obtain h where "free_job (jobs s) (Some a) = Inr h" by (auto simp: free_job_def)
    from pool_step.run [OF t TRun this] TRun show ?thesis by force
  next
    case TDec
    with pool_step.dec [OF t TDec free] show ?thesis by force
  qed (use ne awake in auto)
qed

section \<open>A run of a pool with one worker\<close>

text \<open>
  The states of a concrete run: the worker starts and falls asleep, a job is submitted and
  wakes it up, a caller waits until it is finished, the pool is destroyed.
\<close>

definition demo :: "job_heap \<Rightarrow> jobqueue \<Rightarrow> int \<times> int \<Rightarrow> bool \<Rightarrow> tpc \<Rightarrow> mpc \<Rightarrow> wpc \<Rightarrow>
  work list \<times> work list \<times> work list \<times> work list \<Rightarrow> pool" where
  "demo h q cnt ka p m w hist =
     \<lparr>jobs = h, jobq = q, threads = 1, num_threads_alive = fst cnt, num_threads_working = snd cnt,
      threads_keepalive = ka, threads_on_hold = False, pc = (\<lambda>_. TNever)(0 := p),
      usr1 = (\<lambda>_. False), held = (\<lambda>_. False), main = m, waiter = w,
      submitted = fst hist, started = fst (snd hist), finished = fst (snd (snd hist)),
      snapshot = snd (snd (snd hist))\<rparr>"

definition demo_q :: "addr option \<Rightarrow> int \<Rightarrow> int \<Rightarrow> jobqueue" where
  "demo_q p flag l = \<lparr>front = p, rear = p, has_jobs = \<lparr>v = flag\<rparr>, len = l\<rparr>"

definition demo_heap :: job_heap where
  "demo_heap = [0 \<mapsto> \<lparr>prev = None, job_fun = 7, job_arg = 8\<rparr>]"

lemmas demo_defs = demo_def demo_q_def demo_heap_def runs_def thcount_free_def may_wake_def wake_def
  bsem_wait_def wake_waiter_def thpool_add_work_def jobqueue_push_def jobqueue_pull_def
  bsem_post_def free_job_def

lemma pool_reachable_step: "pool_reachable n s \<Longrightarrow> pool_step s s' \<Longrightarrow> pool_reachable n s'"
  unfolding pool_reachable_def by simp

lemma demo_start: "pool_reachable 1 (demo Map.empty (demo_q None 0 0) (0, 0) True TStart MInit WOut ([], [], [], []))"
proof -
  have "demo Map.empty (demo_q None 0 0) (0, 0) True TStart MInit WOut ([], [], [], []) = pool_start 1"
    by (auto simp: demo_def demo_q_def pool_start_eq)
  then show ?thesis by (simp add: pool_reachable_def)
qed

lemma demo_asleep:
  "pool_reachable 1 (demo Map.empty (demo_q None 0 0) (1, 0) True TSleep MReady WOut ([], [], [], []))"
proof -
  let ?d = "\<lambda>c p m. demo Map.empty (demo_q None 0 0) c True p m WOut ([], [], [], [])"
  have s1: "pool_step (?d (0, 0) TStart MInit) (?d (1, 0) TLoop MInit)"
    using pool_step.alive [of "?d (0, 0) TStart MInit" 0] by (simp add: demo_defs)
  have s2: "pool_step (?d (1, 0) TLoop MInit) (?d (1, 0) TLoop MReady)"
    using pool_step.init_done [of "?d (1, 0) TLoop MInit"] by (simp add: demo_defs)
  have s3: "pool_step (?d (1, 0) TLoop MReady) (?d (1, 0) TCheck MReady)"
    using pool_step.loop_enter [of "?d (1, 0) TLoop MReady" 0] by (simp add: demo_defs)
  have s4: "pool_step (?d (1, 0) TCheck MReady) (?d (1, 0) TSleep MReady)"
    using pool_step.wait_sleep [of "?d (1, 0) TCheck MReady" 0] by (simp add: demo_defs)
  show ?thesis
    by (rule pool_reachable_step [OF pool_reachable_step [OF pool_reachable_step [OF pool_reachable_step [OF demo_start s1] s2] s3] s4])
qed

lemma demo_submitted:
  "pool_reachable 1 (demo demo_heap (demo_q (Some 0) 1 1) (1, 0) True TCheck MReady WOut
     ([(7, 8)], [], [], []))"
proof -
  let ?s = "demo Map.empty (demo_q None 0 0) (1, 0) True TSleep MReady WOut ([], [], [], [])"
  have s1: "pool_step ?s (demo demo_heap (demo_q (Some 0) 1 1) (1, 0) True TCheck MReady WOut
     ([(7, 8)], [], [], []))"
    using pool_step.add_work [of ?s 0 7 8 demo_heap "demo_q (Some 0) 1 1" "Some 0"]
    by (simp add: demo_defs)
  with demo_asleep show ?thesis by (rule pool_reachable_step)
qed

lemma demo_running:
  "pool_reachable 1 (demo demo_heap (demo_q None 0 0) (1, 1) True (TRun 0 (7, 8)) MReady WOut
     ([(7, 8)], [(7, 8)], [], []))"
proof -
  let ?d = "\<lambda>f c p. demo demo_heap (demo_q (Some 0) f 1) c True p MReady WOut ([(7, 8)], [], [], [])"
  have s1: "pool_step (?d 1 (1, 0) TCheck) (?d 0 (1, 0) TGot)"
    using pool_step.wait_done [of "?d 1 (1, 0) TCheck" 0 "\<lparr>v = 0\<rparr>"] by (simp add: demo_defs)
  have s2: "pool_step (?d 0 (1, 0) TGot) (?d 0 (1, 0) TInc)"
    using pool_step.got_work [of "?d 0 (1, 0) TGot" 0] by (simp add: demo_defs)
  have s3: "pool_step (?d 0 (1, 0) TInc) (?d 0 (1, 1) TPull)"
    using pool_step.inc [of "?d 0 (1, 0) TInc" 0] by (simp add: demo_defs)
  have s4: "pool_step (?d 0 (1, 1) TPull) (demo demo_heap (demo_q None 0 0) (1, 1) True
      (TRun 0 (7, 8)) MReady WOut ([(7, 8)], [(7, 8)], [], []))"
    using pool_step.pull_some [of "?d 0 (1, 1) TPull" 0 0 "demo_q None 0 0"
        "\<lparr>prev = None, job_fun = 7, job_arg = 8\<rparr>" None] by (simp add: demo_defs)
  show ?thesis
    by (rule pool_reachable_step [OF pool_reachable_step [OF pool_reachable_step [OF pool_reachable_step [OF demo_submitted s1] s2] s3] s4])
qed

lemma demo_waiting:
  "pool_reachable 1 (demo demo_heap (demo_q None 0 0) (1, 1) True (TRun 0 (7, 8)) MReady WAsleep
     ([(7, 8)], [(7, 8)], [], [(7, 8)]))"
proof -
  let ?d = "\<lambda>w sn. demo demo_heap (demo_q None 0 0) (1, 1) True (TRun 0 (7, 8)) MReady w
     ([(7, 8)], [(7, 8)], [], sn)"
  have s1: "pool_step (?d WOut []) (?d WTestLen [])"
    using pool_step.wait_call [of "?d WOut []"] by (simp add: demo_defs)
  have s2: "pool_step (?d WTestLen []) (?d WTestWorking [(7, 8)])"
    using pool_step.wait_len_0 [of "?d WTestLen []"] by (simp add: demo_defs)
  have s3: "pool_step (?d WTestWorking [(7, 8)]) (?d WAsleep [(7, 8)])"
    using pool_step.wait_working [of "?d WTestWorking [(7, 8)]"] by (simp add: demo_defs)
  show ?thesis
    by (rule pool_reachable_step [OF pool_reachable_step [OF pool_reachable_step [OF demo_running s1] s2] s3])
qed

lemma demo_returned:
  "pool_reachable 1 (demo Map.empty (demo_q None 0 0) (1, 0) True TLoop MReady WReturned
     ([(7, 8)], [(7, 8)], [(7, 8)], [(7, 8)]))"
proof -
  let ?d = "\<lambda>c p w. demo Map.empty (demo_q None 0 0) c True p MReady w
     ([(7, 8)], [(7, 8)], [(7, 8)], [(7, 8)])"
  let ?r = "demo demo_heap (demo_q None 0 0) (1, 1) True (TRun 0 (7, 8)) MReady WAsleep
     ([(7, 8)], [(7, 8)], [], [(7, 8)])"
  have s1: "pool_step ?r (?d (1, 1) TDec WAsleep)"
    using pool_step.run [of ?r 0 0 "(7, 8)" Map.empty] by (simp add: demo_defs)
  have s2: "pool_step (?d (1, 1) TDec WAsleep) (?d (1, 0) TLoop WWoken)"
    using pool_step.dec [of "?d (1, 1) TDec WAsleep" 0] by (simp add: demo_defs)
  have s3: "pool_step (?d (1, 0) TLoop WWoken) (?d (1, 0) TLoop WTestLen)"
    using pool_step.wait_relock [of "?d (1, 0) TLoop WWoken"] by (simp add: demo_defs)
  have s4: "pool_step (?d (1, 0) TLoop WTestLen) (?d (1, 0) TLoop WTestWorking)"
    using pool_step.wait_len_0 [of "?d (1, 0) TLoop WTestLen"] by (simp add: demo_defs)
  have s5: "pool_step (?d (1, 0) TLoop WTestWorking) (?d (1, 0) TLoop WReturned)"
    using pool_step.wait_return [of "?d (1, 0) TLoop WTestWorking"] by (simp add: demo_defs)
  show ?thesis
    by (rule pool_reachable_step [OF pool_reachable_step [OF pool_reachable_step [OF pool_reachable_step [OF pool_reachable_step [OF demo_waiting s1] s2] s3] s4] s5])
qed

lemma demo_destroyed:
  "pool_reachable 1 (demo Map.empty (demo_q None 0 0) (0, 0) False TDead MDestroyed WReturned
     ([(7, 8)], [(7, 8)], [(7, 8)], [(7, 8)]))"
proof -
  let ?d = "\<lambda>c ka p m. demo Map.empty (demo_q None 0 0) c ka p m WReturned
     ([(7, 8)], [(7, 8)], [(7, 8)], [(7, 8)])"
  have s1: "pool_step (?d (1, 0) True TLoop MReady) (?d (1, 0) False TLoop MDestroying)"
    using pool_step.destroy_start [of "?d (1, 0) True TLoop MReady"] by (simp add: demo_defs)
  have s2: "pool_step (?d (1, 0) False TLoop MDestroying) (?d (1, 0) False TExit MDestroying)"
    using pool_step.loop_leave [of "?d (1, 0) False TLoop MDestroying" 0] by (simp add: demo_defs)
  have s3: "pool_step (?d (1, 0) False TExit MDestroying) (?d (0, 0) False TDead MDestroying)"
    using pool_step.exits [of "?d (1, 0) False TExit MDestroying" 0] by (simp add: demo_defs)
  have s4: "pool_step (?d (0, 0) False TDead MDestroying) (?d (0, 0) False TDead MDestroyed)"
    using pool_step.destroy_done [of "?d (0, 0) False TDead MDestroying" Map.empty]
      jobqueue_destroy_repr [of Map.empty "demo_q None 0 0" "[]"]
    by (simp add: demo_defs jq_repr_def)
  show ?thesis
    by (rule pool_reachable_step [OF pool_reachable_step [OF pool_reachable_step [OF pool_reachable_step [OF demo_returned s1] s2] s3] s4])
qed

section \<open>Properties\<close>

lemma working_at_01: "working_at p = (if working_at p = 1 then 1 else 0)"
  by (cases p) auto

lemma alive_at_01: "alive_at p = (if alive_at p = 1 then 1 else 0)"
  by (cases p) auto

lemma sum_01_card: "(\<Sum>t<(n::nat). (if P t then 1 else 0 :: int)) = int (card {t. t < n \<and> P t})"
proof -
  have "(\<Sum>t<n. (if P t then 1 else 0 :: int)) = (\<Sum>t\<in>{t \<in> {..<n}. P t}. 1)"
    by (subst sum.inter_filter) auto
  also have "\<dots> = int (card {t \<in> {..<n}. P t})" by simp
  also have "{t \<in> {..<n}. P t} = {t. t < n \<and> P t}" by auto
  finally show ?thesis .
qed

lemma working_count_card:
  "working_count s = int (card {t. t < threads s \<and> working_at (pc s t) = 1})"
  unfolding working_count_def by (subst working_at_01) (rule sum_01_card)

lemma alive_count_card:
  "alive_count s = int (card {t. t < threads s \<and> alive_at (pc s t) = 1})"
  unfolding alive_count_def by (subst alive_at_01) (rule sum_01_card)

lemma reachable_exactly_once:
  assumes "pool_reachable n s" and "main s \<noteq> MDestroyed"
  shows "mset (submitted s) = mset (finished s) + running s + mset (queued s)"
proof -
  obtain as where "started s @ queued s = submitted s"
    using assms by (rule reachable_mem)
  moreover have "mset (started s) = mset (finished s) + running s"
    using pool_reachable_inv [OF assms(1)] by (simp add: pool_inv_def count_inv_def)
  ultimately show ?thesis by (metis mset_append)
qed

text \<open>C2. In every state of a pool that has not been destroyed, the jobs that workers have taken,
  in the order they took them, followed by the jobs still in the linked queue, front to rear, are
  exactly the jobs submitted with \<open>thpool_add_work\<close>, in the order of submission.\<close>

theorem pool_starts_in_order:
  assumes "pool_reachable n s" and "main s \<noteq> MDestroyed"
  shows "started s @ queued s = submitted s"
  using assms by (rule reachable_mem)

theorem pool_starts_in_order_witness:
  "started (demo demo_heap (demo_q (Some 0) 1 1) (1, 0) True TCheck MReady WOut ([(7, 8)], [], [], []))
     @ queued (demo demo_heap (demo_q (Some 0) 1 1) (1, 0) True TCheck MReady WOut ([(7, 8)], [], [], []))
   = [(7, 8)]"
  using pool_starts_in_order [OF demo_submitted] by (simp add: demo_def)

text \<open>C3. No job is lost, invented or run twice: the multiset of submitted jobs is that of the
  finished jobs plus the jobs being run by workers plus the jobs in the queue, under every
  interleaving of workers, clients and signal handlers.\<close>

theorem pool_runs_each_job_once:
  assumes "pool_reachable n s" and "main s \<noteq> MDestroyed"
  shows "mset (submitted s) = mset (finished s) + running s + mset (queued s)"
  using assms by (rule reachable_exactly_once)

theorem pool_runs_each_job_once_witness:
  "running (demo demo_heap (demo_q None 0 0) (1, 1) True (TRun 0 (7, 8)) MReady WOut
     ([(7, 8)], [(7, 8)], [], [])) = {#(7, 8)#}"
  using pool_runs_each_job_once [OF demo_running] by (simp add: demo_def demo_q_def queued_def)

text \<open>\<open>num_threads_alive\<close> and \<open>num_threads_working\<close> are exact in every reachable state: they
  equal the number of workers inside their loop and the number of workers between their increment
  and their decrement, so what \<open>thpool_num_threads_working\<close> returns lies between 0 and the size
  of the pool.\<close>

theorem pool_counters_exact:
  assumes "pool_reachable n s"
  shows "num_threads_alive s = int (card {t. t < nat n \<and> alive_at (pc s t) = 1})
    \<and> thpool_num_threads_working s = int (card {t. t < nat n \<and> working_at (pc s t) = 1})
    \<and> thpool_num_threads_working s \<le> max 0 n"
proof -
  have th: "threads s = nat n" using assms by (rule pool_reachable_threads)
  have "card {t. t < nat n \<and> working_at (pc s t) = 1} \<le> card {..<nat n}"
    by (rule card_mono) auto
  then have "int (card {t. t < nat n \<and> working_at (pc s t) = 1}) \<le> max 0 n" by simp
  with th pool_reachable_inv [OF assms] show ?thesis
    by (simp add: pool_inv_def count_inv_def alive_count_card working_count_card
        thpool_num_threads_working_def)
qed

theorem pool_counters_exact_witness:
  "thpool_num_threads_working (demo demo_heap (demo_q None 0 0) (1, 1) True (TRun 0 (7, 8)) MReady WOut
     ([(7, 8)], [(7, 8)], [], [])) \<le> 1"
  using pool_counters_exact [OF demo_running] by simp

lemma pool_no_wakeup_lost:
  assumes "pool_reachable n s" and "0 < n" and "main s = MReady" and "queued s \<noteq> []"
    and "\<forall>t. \<not> held s t" and "thcount_free s"
  shows "\<exists>t < nat n. pc s t \<noteq> TSleep \<and> (\<exists>s'. pool_step s s' \<and> pc s' t \<noteq> pc s t)"
proof -
  have inv: "pool_inv s" and th: "threads s = nat n"
    using assms(1) by (auto intro: pool_reachable_inv pool_reachable_threads)
  have "len (jobq s) \<noteq> 0" using assms(4) by (auto simp: queued_def)
  then have "\<exists>t < nat n. pc s t \<noteq> TSleep"
    using inv assms(2,3) th
    unfolding pool_inv_def token_inv_def wake_inv_def phase_inv_def
    by (metis tpc.distinct zero_less_nat_eq)
  then obtain t where t: "t < nat n" "pc s t \<noteq> TSleep" by blast
  with worker_can_move [OF inv assms(3) _ assms(6)] th assms(5) show ?thesis
    by (auto simp: runs_def)
qed

text \<open>C1. No lost wake-up: in a pool that is in use and has at least one worker, whenever a job is
  queued some worker is awake and, unless it is held by \<open>thpool_pause\<close> or the counter lock is
  taken, it can move. The binary semaphore never leaves a job behind with every worker asleep.\<close>

theorem pool_no_lost_wakeup:
  assumes "pool_reachable n s" and "0 < n" and "main s = MReady" and "queued s \<noteq> []"
    and "\<forall>t. \<not> held s t" and "thcount_free s"
  shows "\<exists>t < nat n. pc s t \<noteq> TSleep \<and> (\<exists>s'. pool_step s s' \<and> pc s' t \<noteq> pc s t)"
  using assms by (rule pool_no_wakeup_lost)

theorem pool_no_lost_wakeup_witness:
  "\<exists>t < nat 1. pc (demo demo_heap (demo_q (Some 0) 1 1) (1, 0) True TCheck MReady WOut
     ([(7, 8)], [], [], [])) t \<noteq> TSleep"
  using pool_no_lost_wakeup [OF demo_submitted]
  by (auto simp: demo_def demo_q_def demo_heap_def queued_def thcount_free_def eval_nat_numeral)

text \<open>C4. When \<open>thpool_wait\<close> returns, every job submitted up to the moment it found the queue
  empty has been run to completion; if nothing was submitted since, all submitted jobs have.\<close>

theorem pool_wait_means_done:
  assumes "pool_reachable n s" and "main s = MReady" and "waiter s = WReturned"
  shows "mset (snapshot s) \<subseteq># mset (finished s)
    \<and> (snapshot s = submitted s \<longrightarrow> mset (finished s) = mset (submitted s) \<and> queued s = [])"
proof -
  have sub: "mset (snapshot s) \<subseteq># mset (finished s)"
    using pool_reachable_inv [OF assms(1)] assms(3) by (simp add: pool_inv_def waiter_inv_def)
  moreover have "mset (submitted s) = mset (finished s) + running s + mset (queued s)"
    using assms(1,2) by (intro reachable_exactly_once) auto
  moreover from this sub have "snapshot s = submitted s \<Longrightarrow> running s + mset (queued s) = {#}"
    by (metis add.assoc add_0_right add_left_cancel mset_subset_eq_add_left subset_mset.antisym)
  ultimately show ?thesis by auto
qed

theorem pool_wait_means_done_witness:
  "mset [(7::nat, 8::nat)] \<subseteq># mset (finished (demo Map.empty (demo_q None 0 0) (1, 0) True TLoop MReady
     WReturned ([(7, 8)], [(7, 8)], [(7, 8)], [(7, 8)])))"
  using pool_wait_means_done [OF demo_returned] by (simp add: demo_def)



text \<open>C6. The heap operations of the pool never go wrong: in every reachable state a worker about to
  pull gets an answer from the queue and, if it is a job, an allocated one; a worker that has run
  its job frees an allocated block; a client can link in any fresh block; and
  \<open>jobqueue_destroy\<close> terminates without freeing a block twice.\<close>

theorem pool_memory_safe:
  assumes "pool_reachable n s" and "main s \<noteq> MDestroyed"
  shows "(\<exists>r q. jobqueue_pull (jobs s) (jobq s) = Inr (r, q) \<and> (\<forall>a. r = Some a \<longrightarrow> jobs s a \<noteq> None))
    \<and> (\<forall>t < nat n. \<forall>a f. pc s t = TRun a f \<longrightarrow> (\<exists>h. free_job (jobs s) (Some a) = Inr h))
    \<and> (\<forall>a f x. jobs s a = None \<longrightarrow> (\<exists>h q. thpool_add_work (jobs s) (jobq s) (Some a) f x = Inr (0, h, q)))
    \<and> (\<exists>h. jobqueue_destroy (jobs s) (jobq s) = Some (Inr h))"
proof -
  obtain as where ok: "mem_ok (jobs s) (jobq s) as (threads s) (pc s)"
    using assms by (rule reachable_mem)
  have th: "threads s = nat n" using assms(1) by (rule pool_reachable_threads)
  have "\<exists>r q. jobqueue_pull (jobs s) (jobq s) = Inr (r, q) \<and> (\<forall>a. r = Some a \<longrightarrow> jobs s a \<noteq> None)"
    using mem_ok_pull_succeeds [OF ok] by blast
  moreover have "\<exists>h. free_job (jobs s) (Some a) = Inr h" if "t < nat n" "pc s t = TRun a f" for t a f
  proof -
    from that ok th have "a \<in> dom (jobs s)" by (auto simp: mem_ok_def busy_def)
    then show ?thesis by (auto simp: free_job_def)
  qed
  moreover have "\<exists>h q. thpool_add_work (jobs s) (jobq s) (Some a) f x = Inr (0, h, q)"
    if "jobs s a = None" for a f x
    using thpool_add_work_ok [OF ok that] by blast
  moreover have "\<exists>h. jobqueue_destroy (jobs s) (jobq s) = Some (Inr h)"
    using ok jobqueue_destroy_repr by (auto simp: mem_ok_def)
  ultimately show ?thesis by blast
qed

theorem pool_memory_safe_witness:
  "\<exists>h. free_job demo_heap (Some 0) = Inr h"
  using pool_memory_safe [OF demo_running] by (simp add: demo_def)

text \<open>A destroyed pool leaves nothing behind: every worker has ended and every job block that
  was ever allocated has been freed, whether the job was run or dropped from the queue.\<close>

theorem pool_destroy_leaves_nothing:
  assumes "pool_reachable n s" and "main s = MDestroyed"
  shows "jobs s = Map.empty \<and> (\<forall>t < nat n. pc s t = TDead) \<and> num_threads_alive s = 0"
proof -
  have inv: "pool_inv s" and th: "threads s = nat n"
    using assms(1) by (auto intro: pool_reachable_inv pool_reachable_threads)
  then have dead: "\<forall>t < nat n. pc s t = TDead" using assms(2) by (simp add: pool_inv_def phase_inv_def)
  with th have "alive_count s = 0" by (simp add: alive_count_zero)
  with inv dead assms(2) show ?thesis by (simp add: pool_inv_def count_inv_def mem_inv_def)
qed

theorem pool_destroy_leaves_nothing_witness:
  "jobs (demo Map.empty (demo_q None 0 0) (0, 0) False TDead MDestroyed WReturned
     ([(7, 8)], [(7, 8)], [(7, 8)], [(7, 8)])) = Map.empty"
  using pool_destroy_leaves_nothing [OF demo_destroyed] by (simp add: demo_def)

section \<open>When a thread cannot be created\<close>

text \<open>
  \<open>thpool_init\<close> ignores the result of \<open>thread_init\<close>. A worker whose block could not be
  allocated never exists, and the busy-wait for \<open>num_threads\<close> live workers has no end.
\<close>

lemma thread_init_all_never:
  "\<not> ok i \<Longrightarrow> thread_init_all ok n i = TNever"
  by (induction n) (auto simp: thread_init_def)

lemma never_step:
  assumes "pool_step s s'" and "pc s i = TNever" and "main s = MInit" and "i < threads s" and "count_inv s"
  shows "pc s' i = TNever \<and> main s' = MInit"
  using assms(1)
proof (cases rule: pool_step.cases)
  case init_done
  then have "alive_at (pc s i) = 1"
    using assms(4,5) alive_count_all by (auto simp: count_inv_def)
  with assms(2) show ?thesis by simp
next
  case (pull_some t a q j w)
  then have "w = None \<or> may_wake s w" by (auto split: if_splits)
  with pull_some assms(2,3) may_wake_at [of w s i] show ?thesis by auto
qed (use assms(2,3) in \<open>auto simp: thpool_pause_def thpool_resume_def\<close>)

lemma never_reachable:
  assumes "pool_step\<^sup>*\<^sup>* s s'" and "pc s i = TNever \<and> main s = MInit \<and> i < threads s \<and> count_inv s"
  shows "pc s' i = TNever \<and> main s' = MInit \<and> i < threads s' \<and> count_inv s'"
  using assms
proof (induction rule: rtranclp_induct)
  case base
  then show ?case by simp
next
  case (step t u)
  then have "pc t i = TNever" "main t = MInit" "i < threads t" "count_inv t" by auto
  with step.hyps(2) show ?case
    using never_step count_inv_step pool_step_threads by metis
qed

lemma thpool_init_state:
  assumes "thpool_init True True True malloc_thread n = Some s"
  shows "pc s = thread_init_all malloc_thread (nat n) \<and> main s = MInit \<and> threads s = nat n \<and>
    num_threads_alive s = 0 \<and> num_threads_working s = 0 \<and> started s = [] \<and> finished s = []"
  using assms by (auto simp: thpool_init_def jobqueue_init_def bsem_init_def split: if_splits)

lemma thread_init_all_cases: "thread_init_all ok n t = TStart \<or> thread_init_all ok n t = TNever"
  by (induction n) (auto simp: thread_init_def)

lemma count_inv_init:
  assumes "thpool_init True True True malloc_thread n = Some s"
  shows "count_inv s"
proof -
  note st = thpool_init_state [OF assms]
  have "alive_at (pc s t) = 0 \<and> working_at (pc s t) = 0 \<and> running_at (pc s t) = {#}" for t
    using st thread_init_all_cases [of malloc_thread "nat n" t] by auto
  with st show ?thesis
    by (simp add: count_inv_def alive_count_def working_count_def running_def)
qed

text \<open>C12. If the allocation of one worker fails, \<open>thpool_init\<close> never returns: in every state
  reachable from there the owner is still in its busy-wait, although the header promises
  \<open>NULL\<close> on error.\<close>

theorem thpool_init_hangs_on_failed_thread:
  assumes "thpool_init True True True malloc_thread n = Some s" and "i < nat n"
    and "\<not> malloc_thread i" and "pool_step\<^sup>*\<^sup>* s s'"
  shows "main s' = MInit \<and> num_threads_alive s' < n"
proof -
  note st = thpool_init_state [OF assms(1)]
  have "pc s i = TNever \<and> main s = MInit \<and> i < threads s \<and> count_inv s"
    using st assms(2) count_inv_init [OF assms(1)]
      thread_init_all_never [where ok = malloc_thread and i = i] assms(3) by simp
  from never_reachable [OF assms(4) this] have
    never: "pc s' i = TNever" "main s' = MInit" "i < threads s'" "count_inv s'" by auto
  have "threads s' = threads s" using assms(4)
    by (induction rule: rtranclp_induct) (auto simp: pool_step_threads)
  with st have th: "threads s' = nat n" by simp
  have "{t. t < threads s' \<and> alive_at (pc s' t) = 1} \<subseteq> {..<threads s'} - {i}"
    using never(1) by auto
  then have "card {t. t < threads s' \<and> alive_at (pc s' t) = 1} \<le> threads s' - 1"
    using never(3) card_mono [of "{..<threads s'} - {i}"] by fastforce
  with never th assms(2) show ?thesis by (auto simp: count_inv_def alive_count_card)
qed

theorem thpool_init_hangs_on_failed_thread_witness:
  "main (the (thpool_init True True True (\<lambda>i. i = 0) 2)) = MInit"
proof -
  have init: "thpool_init True True True (\<lambda>i. i = 0) 2
      = Some (the (thpool_init True True True (\<lambda>i. i = 0) 2))"
    by (simp add: thpool_init_def jobqueue_init_def bsem_init_def)
  show ?thesis
    using thpool_init_hangs_on_failed_thread [OF init, of 1] by simp
qed

section \<open>The queue on its own\<close>



text \<open>\<open>jobqueue_clear\<close> ends on every well-formed queue: it frees exactly the jobs that were
  linked, touches no other block, and leaves an empty queue with the flag down, although every
  \<open>jobqueue_pull\<close> it makes raises the flag again.\<close>

theorem jobqueue_clear_frees_all:
  assumes "jq_repr (h, q) as"
  shows "jobqueue_clear h q =
    Some (Inr (h |` (- set as), \<lparr>front = None, rear = None, has_jobs = \<lparr>v = 0\<rparr>, len = 0\<rparr>))"
  using assms by (rule jobqueue_clear_repr)

theorem jobqueue_clear_frees_all_witness:
  "jobqueue_clear demo_heap (demo_q (Some 0) 1 1) =
    Some (Inr (demo_heap |` (- {0}), \<lparr>front = None, rear = None, has_jobs = \<lparr>v = 0\<rparr>, len = 0\<rparr>))"
  using jobqueue_clear_frees_all [of demo_heap "demo_q (Some 0) 1 1" "[0]"]
  by (simp add: jq_repr_def demo_q_def demo_heap_def)

end
