(* ===== verification/PoolMemory.thy ===== *)
theory PoolMemory
  imports PoolProperties CHeap
begin

text \<open>
  The blocks a thread pool owns beside its jobs (\<open>thpool.c\<close>): \<open>struct thpool_\<close>, the semaphore of the
  queue, the array of threads and one \<open>struct thread\<close> per worker, from the \<open>malloc\<close> calls of
  \<open>thpool_init\<close> and \<open>thread_init\<close> to the \<open>free\<close> calls of \<open>thpool_destroy\<close>.
\<close>

section \<open>Allocating and freeing\<close>

datatype pool_block = PoolBlock | SemBlock | ThreadArray "addr list" | ThreadBlock nat

text \<open>The loop over \<open>thread_init\<close>, when its allocations succeed.\<close>

fun alloc_threads :: "nat list \<Rightarrow> pool_block heap \<Rightarrow> addr list \<times> pool_block heap" where
  "alloc_threads [] h = ([], h)"
| "alloc_threads (n # ns) h =
     (let (a, h) = halloc (ThreadBlock n) h; (as, h) = alloc_threads ns h in (a # as, h))"

text \<open>
  \<open>thpool_init\<close>: which of its allocations succeed is given as for its control flow in ThreadPool.
  The result are the addresses of the pool, the semaphore and the array.
\<close>

definition thpool_alloc :: "bool \<Rightarrow> bool \<Rightarrow> bool \<Rightarrow> int \<Rightarrow> pool_block heap
    \<Rightarrow> c_error + (addr \<times> addr \<times> addr) option \<times> pool_block heap" where
  "thpool_alloc malloc_pool malloc_sem malloc_threads num_threads h =
     (if \<not> malloc_pool then Inr (None, h)
      else
     (let (p, h) = halloc PoolBlock h in
      if \<not> malloc_sem then (case hfree (Some p) h of Inl e \<Rightarrow> Inl e | Inr h \<Rightarrow> Inr (None, h))
      else
     (let (b, h) = halloc SemBlock h in
      if \<not> malloc_threads then
        (case hfree (Some b) h of Inl e \<Rightarrow> Inl e | Inr h \<Rightarrow>
        (case hfree (Some p) h of Inl e \<Rightarrow> Inl e | Inr h \<Rightarrow> Inr (None, h)))
      else
     (let (r, h) = halloc (ThreadArray []) h;
          (ts, h) = alloc_threads [0..<nat num_threads] h in
      case hwrite (Some r) (ThreadArray ts) h of Inl e \<Rightarrow> Inl e | Inr h \<Rightarrow> Inr (Some (p, b, r), h)))))"

text \<open>
  \<open>thpool_destroy\<close> after its waiting: \<open>jobqueue_destroy\<close> frees the semaphore, \<open>thread_destroy\<close> the
  first \<open>threads_total\<close> threads of the array.
\<close>

definition thpool_dealloc :: "nat \<Rightarrow> addr \<times> addr \<times> addr \<Rightarrow> pool_block heap \<Rightarrow> c_error + pool_block heap" where
  "thpool_dealloc threads_total = (\<lambda>(p, b, r) h.
     (case hfree (Some b) h of Inl e \<Rightarrow> Inl e | Inr h \<Rightarrow>
     (case hread (Some r) h of
        Inr (ThreadArray ts) \<Rightarrow>
          if length ts < threads_total then Inl OutOfBounds
          else
            (case free_each hfree (take threads_total ts) h of Inl e \<Rightarrow> Inl e | Inr h \<Rightarrow>
            (case hfree (Some r) h of Inl e \<Rightarrow> Inl e | Inr h \<Rightarrow> hfree (Some p) h))
      | Inr _ \<Rightarrow> Inl OutOfBounds
      | Inl e \<Rightarrow> Inl e)))"

section \<open>Nothing is left\<close>

lemma alloc_threads_ok:
  assumes "alloc_threads ns h = (as, h')" and "heap_ok h"
  shows "length as = length ns \<and> distinct as \<and> (\<forall>a \<in> set as. hcell h a = None \<and> hcell h' a \<noteq> None) \<and>
    (\<forall>a. a \<notin> set as \<longrightarrow> hcell h' a = hcell h a) \<and> heap_ok h'"
  using assms
proof (induction ns arbitrary: h as h')
  case Nil
  then show ?case by simp
next
  case (Cons n ns)
  obtain a h1 where a: "halloc (ThreadBlock n) h = (a, h1)" by (cases "halloc (ThreadBlock n) h")
  obtain bs h2 where bs: "alloc_threads ns h1 = (bs, h2)" by (cases "alloc_threads ns h1")
  have "as = a # bs" "h' = h2" using Cons.prems(1) a bs by simp_all
  moreover have "hcell h a = None" "hcell h1 = (hcell h)(a \<mapsto> ThreadBlock n)" "heap_ok h1"
    using cheap.alloc_law [OF Cons.prems(2) a] by simp_all
  moreover note Cons.IH [OF bs \<open>heap_ok h1\<close>]
  ultimately show ?case by (auto split: if_splits)
qed

text \<open>What a successful \<open>thpool_init\<close> adds to the heap, block by block.\<close>

lemma thpool_alloc_ok:
  assumes "heap_ok h" and "thpool_alloc True True True num h = Inr (Some (p, b, r), h')"
  shows "\<exists>ts. length ts = nat num \<and> distinct (p # b # r # ts) \<and> heap_ok h' \<and>
    (\<forall>a \<in> set (p # b # r # ts). hcell h a = None \<and> hcell h' a \<noteq> None) \<and> hcell h' r = Some (ThreadArray ts) \<and>
    (\<forall>a. a \<notin> set (p # b # r # ts) \<longrightarrow> hcell h' a = hcell h a)"
proof -
  obtain p1 h1 where 1: "halloc PoolBlock h = (p1, h1)" by (cases "halloc PoolBlock h")
  obtain b1 h2 where 2: "halloc SemBlock h1 = (b1, h2)" by (cases "halloc SemBlock h1")
  obtain r1 h3 where 3: "halloc (ThreadArray []) h2 = (r1, h3)" by (cases "halloc (ThreadArray []) h2")
  obtain ts h4 where 4: "alloc_threads [0..<nat num] h3 = (ts, h4)" by (cases "alloc_threads [0..<nat num] h3")
  note l1 = cheap.alloc_law [OF assms(1) 1]
  note l2 = cheap.alloc_law [OF conjunct2 [OF conjunct2 [OF l1]] 2]
  note l3 = cheap.alloc_law [OF conjunct2 [OF conjunct2 [OF l2]] 3]
  note l4 = alloc_threads_ok [OF 4 conjunct2 [OF conjunct2 [OF l3]]]
  have "r1 \<notin> set ts" using l3 l4 by auto
  then have r: "hcell h4 r1 = Some (ThreadArray [])" using l3 l4 by auto
  have eq: "p = p1" "b = b1" "r = r1" "h' = h4\<lparr>hcell := (hcell h4)(r1 \<mapsto> ThreadArray ts)\<rparr>"
    using assms(2) r by (auto simp: thpool_alloc_def 1 2 3 4)
  have "heap_ok h'" using l4 r by (auto simp: eq heap_ok_def)
  moreover have "distinct (p # b # r # ts)" using l1 l2 l3 l4 by (auto simp: eq split: if_splits)
  moreover have "\<forall>a \<in> set (p # b # r # ts). hcell h a = None \<and> hcell h' a \<noteq> None"
    using l1 l2 l3 l4 by (auto simp: eq split: if_splits)
  ultimately show ?thesis using l1 l2 l3 l4 by (intro exI [of _ ts]) (auto simp: eq)
qed

lemma thpool_dealloc_ok:
  assumes "heap_ok h" and "distinct (p # b # r # ts)" and "\<forall>a \<in> set (p # b # r # ts). hcell h a \<noteq> None"
    and "hcell h r = Some (ThreadArray ts)"
  shows "\<exists>h'. thpool_dealloc (length ts) (p, b, r) h = Inr h' \<and>
    hcell h' = (\<lambda>a. if a \<in> set (p # b # r # ts) then None else hcell h a)"
proof -
  obtain h1 where 1: "hfree (Some b) h = Inr h1" "hcell h1 = (hcell h)(b := None)" "heap_ok h1"
    using cheap.free_law [OF assms(1), of b] assms(3) by auto
  have r: "hread (Some r) h1 = Inr (ThreadArray ts)" using assms(2,4) 1(2) by simp
  have "distinct ts" "\<And>a. a \<in> set ts \<Longrightarrow> hcell h1 a \<noteq> None" using assms(2,3) 1(2) by auto
  from cheap.free_each_ok [OF 1(3) this] obtain h2 where
    2: "free_each hfree ts h1 = Inr h2" "heap_ok h2" "hcell h2 = (\<lambda>a. if a \<in> set ts then None else hcell h1 a)"
    by blast
  obtain h3 where 3: "hfree (Some r) h2 = Inr h3" "hcell h3 = (hcell h2)(r := None)" "heap_ok h3"
    using cheap.free_law [OF 2(2), of r] 2(3) 1(2) assms(2,4) by auto
  obtain h4 where 4: "hfree (Some p) h3 = Inr h4" "hcell h4 = (hcell h3)(p := None)"
    using cheap.free_law [OF 3(3), of p] 3(2) 2(3) 1(2) assms(2,3) by auto
  have "thpool_dealloc (length ts) (p, b, r) h = Inr h4"
    by (simp add: thpool_dealloc_def 1(1) r 2(1) 3(1) 4(1))
  moreover have "hcell h4 = (\<lambda>a. if a \<in> set (p # b # r # ts) then None else hcell h a)"
    by (auto simp: 4(2) 3(2) 2(3) 1(2) fun_eq_iff)
  ultimately show ?thesis by blast
qed

text \<open>While the pool is in use all its workers are alive, so \<open>threads_total\<close> is their number.\<close>

lemma all_alive_when_ready:
  assumes "pool_reachable n s" and "main s = MReady"
  shows "num_threads_alive s = int (nat n)"
proof -
  have inv: "count_inv s" "phase_inv s" and th: "threads s = nat n"
    using pool_reachable_inv [OF assms(1)] pool_reachable_threads [OF assms(1)] by (simp_all add: pool_inv_def)
  have "alive_at (pc s t) = 1" if "t < threads s" for t
    using that inv(2) assms(2) by (cases "pc s t") (auto simp: phase_inv_def)
  then have "alive_count s = (\<Sum>t<threads s. 1)" unfolding alive_count_def by (intro sum.cong) auto
  then show ?thesis using inv(1) th by (simp add: count_inv_def)
qed

section \<open>The property\<close>

text \<open>C17. The pool gives back all its memory: a \<open>thpool_init\<close> that fails leaves the heap as it was, and if
  it succeeds, a \<open>thpool_destroy\<close> called in any reachable state of the running pool, with the number
  of threads it reads there, frees every block exactly once and leaves the heap as it was before.\<close>

theorem pool_memory_restored:
  assumes "heap_ok h" and "thpool_alloc mp ms mt n h = Inr (res, h')"
  shows "(case res of
      None \<Rightarrow> hcell h' = hcell h
    | Some blocks \<Rightarrow> \<forall>s. pool_reachable n s \<and> main s = MReady \<longrightarrow>
        (\<exists>h''. thpool_dealloc (nat (num_threads_alive s)) blocks h' = Inr h'' \<and> hcell h'' = hcell h))"
proof (cases res)
  case None
  have "hcell h (hnext h) = None" "hcell h (Suc (hnext h)) = None"
    using assms(1) by (simp_all add: heap_ok_fresh)
  with assms(2) None show ?thesis
    by (auto simp: thpool_alloc_def halloc_def hfree_def fun_eq_iff Let_def
        split: if_splits sum.splits option.splits prod.splits)
next
  case (Some blocks)
  obtain p b r where blocks: "blocks = (p, b, r)" by (cases blocks)
  have ok: "mp" "ms" "mt" using assms(2) Some
    by (auto simp: thpool_alloc_def Let_def split: if_splits sum.splits prod.splits)
  with assms(2) Some blocks have "thpool_alloc True True True n h = Inr (Some (p, b, r), h')" by simp
  from thpool_alloc_ok [OF assms(1) this] obtain ts where ts: "length ts = nat n" "distinct (p # b # r # ts)"
      "heap_ok h'" "\<forall>a \<in> set (p # b # r # ts). hcell h a = None \<and> hcell h' a \<noteq> None"
      "hcell h' r = Some (ThreadArray ts)" "\<forall>a. a \<notin> set (p # b # r # ts) \<longrightarrow> hcell h' a = hcell h a" by blast
  have "\<forall>a \<in> set (p # b # r # ts). hcell h' a \<noteq> None" using ts(4) by blast
  from thpool_dealloc_ok [OF ts(3,2) this ts(5)] obtain h'' where
    h'': "thpool_dealloc (length ts) (p, b, r) h' = Inr h''"
      "hcell h'' = (\<lambda>a. if a \<in> set (p # b # r # ts) then None else hcell h' a)" by blast
  have "hcell h'' = hcell h"
  proof
    fix a
    show "hcell h'' a = hcell h a"
    proof (cases "a \<in> set (p # b # r # ts)")
      case True
      with ts(4) have "hcell h a = None" by blast
      with True h''(2) show ?thesis by simp
    next
      case False
      with ts(6) have "hcell h' a = hcell h a" by blast
      with False h''(2) show ?thesis by simp
    qed
  qed
  with h''(1) ts(1) show ?thesis by (auto simp: Some blocks all_alive_when_ready)
qed

theorem pool_memory_restored_witness:
  "\<exists>h' blocks h''. thpool_alloc True True True 1 \<lparr>hnext = 0, hcell = (\<lambda>_. None)\<rparr> = Inr (Some blocks, h') \<and>
    thpool_dealloc 1 blocks h' = Inr h'' \<and> hcell h'' = (\<lambda>_. None)"
proof -
  let ?h = "\<lparr>hnext = 0, hcell = (\<lambda>_. None)\<rparr> :: pool_block heap"
  let ?s = "demo Map.empty (demo_q None 0 0) (1, 0) True TSleep MReady WOut ([], [], [], [])"
  obtain blocks h' where a: "thpool_alloc True True True 1 ?h = Inr (Some blocks, h')"
    by (simp add: thpool_alloc_def halloc_def)
  have ready: "main ?s = MReady" "num_threads_alive ?s = 1" by (simp_all add: demo_defs)
  have "heap_ok ?h" by (simp add: heap_ok_def)
  from pool_memory_restored [OF this a] demo_asleep ready
  have "\<exists>h''. thpool_dealloc 1 blocks h' = Inr h'' \<and> hcell h'' = hcell ?h"
    by (auto dest!: spec [of _ ?s])
  with a show ?thesis by simp
qed

end
