(* ===== verification/Fifo.thy ===== *)
theory Fifo
  imports CString FileTransfer
begin

text \<open>
  The transfer over named pipes (\<open>task3/FIFO\<close>): \<open>fifo_server.c\<close> and \<open>fifo_client.c\<close>. The
  client sends its pid and the source path over the server's FIFO; the server opens the
  client's FIFO, answers "Ready", and sends the file in messages of at most 127 bytes, each
  preceded by its length; the client writes them to the destination. A FIFO is a queue of
  bytes; writes of at most \<open>PIPE_BUF\<close> bytes are atomic, and every write of these two programs is
  that short.
\<close>

unbundle bit_operations_syntax

section \<open>Constants and the message structure\<close>

definition MSG_DATA_SZ :: nat where
  "MSG_DATA_SZ = 128"

definition PROT_SZ :: nat where
  "PROT_SZ = 1"

definition MAX_READ_SZ :: nat where
  "MAX_READ_SZ = MSG_DATA_SZ - PROT_SZ"

definition SERVER_FIFO_NAME :: string where
  "SERVER_FIFO_NAME = ''../channels/fifo_server''"

definition CHANNELS_REL_PATH :: string where
  "CHANNELS_REL_PATH = ''../channels/''"

definition PIPE_BUF :: nat where
  "PIPE_BUF = 4096"

definition READY_MSG :: bytes where
  "READY_MSG = [82, 101, 97, 100, 121]"

lemmas fifo_consts = MSG_DATA_SZ_def PROT_SZ_def MAX_READ_SZ_def PIPE_BUF_def

text \<open>\<open>struct simple_message\<close> is a 4-byte pid, least significant byte first, and 128 bytes of data.\<close>

definition le32 :: "32 word \<Rightarrow> bytes" where
  "le32 w = [ucast w, ucast (drop_bit 8 w), ucast (drop_bit 16 w), ucast (drop_bit 24 w)]"

definition of_le32 :: "bytes \<Rightarrow> 32 word" where
  "of_le32 bs =
     ucast (bs ! 0) OR push_bit 8 (ucast (bs ! 1)) OR push_bit 16 (ucast (bs ! 2))
       OR push_bit 24 (ucast (bs ! 3))"

lemma of_le32_le32: "of_le32 (le32 w @ rest) = w"
proof (rule bit_word_eqI)
  fix n
  assume "n < LENGTH(32)"
  then consider "n < 8" | "8 \<le> n" "n < 16" | "16 \<le> n" "n < 24" | "24 \<le> n" "n < 32" by fastforce
  then show "bit (of_le32 (le32 w @ rest)) n \<longleftrightarrow> bit w n"
    by cases (auto simp: of_le32_def le32_def bit_simps)
qed

lemma length_le32 [simp]: "length (le32 w) = 4"
  by (simp add: le32_def)

text \<open>A \<open>char *\<close> into a buffer reads up to the first NUL.\<close>

definition cstr :: "bytes \<Rightarrow> bytes" where
  "cstr buf = takeWhile (\<lambda>b. b \<noteq> 0) buf"

lemma cstr_terminated [simp]: "0 \<notin> set s \<Longrightarrow> cstr (s @ 0 # g) = s"
  by (auto simp: cstr_def takeWhile_tail)

text \<open>The structure as it travels: the buffer holds the string, a NUL, and whatever was there.\<close>

definition message :: "32 word \<Rightarrow> bytes \<Rightarrow> bytes \<Rightarrow> bytes" where
  "message p s g = le32 p @ s @ 0 # g"

definition MakeFifoName :: "32 word \<Rightarrow> nat \<Rightarrow> string" where
  "MakeFifoName pid name_max = snprintf_into name_max (CHANNELS_REL_PATH @ ''fifo'' @ dec_int (sint pid))"

lemma MakeFifoName_not_server: "MakeFifoName p 100 \<noteq> SERVER_FIFO_NAME"
proof
  assume eq: "MakeFifoName p 100 = SERVER_FIFO_NAME"
  obtain c cs where d: "dec_int (sint p) = c # cs" by (cases "dec_int (sint p)") auto
  then have "c \<in> set ''-0123456789''" using dec_int_chars [of "sint p"] by auto
  moreover have "MakeFifoName p 100 ! 16 = c"
    by (simp add: MakeFifoName_def snprintf_into_def CHANNELS_REL_PATH_def d)
  moreover have "SERVER_FIFO_NAME ! 16 = CHR ''_''" by (simp add: SERVER_FIFO_NAME_def)
  ultimately show False using eq by auto
qed

section \<open>The wrappers around system calls\<close>

text \<open>Each takes the value the system call returned.\<close>

definition Open :: "int \<Rightarrow> c_error + int" where
  "Open fd = (if fd = -1 then Inl (Exit 1) else Inr fd)"

definition Read :: "int \<Rightarrow> c_error + unit" where
  "Read nread = (if nread = -1 then Inl (Exit 1) else if nread = 0 then Inl (Exit 1) else Inr ())"

definition Write :: "int \<Rightarrow> c_error + nat" where
  "Write written_sz = (if written_sz = -1 then Inl (Exit 1) else Inr (nat written_sz))"

section \<open>One turn of the sending and of the receiving loop\<close>

text \<open>
  The server: what it writes into the client's FIFO, what is left of the file, and whether the
  loop goes on. \<open>read_sz\<close> is what \<open>read\<close> returned, \<open>data\<close> the bytes it put into the buffer.
\<close>

definition server_send :: "int \<Rightarrow> bytes \<Rightarrow> bytes \<times> bool" where
  "server_send read_sz data =
     (if read_sz \<noteq> int MAX_READ_SZ then
        (if read_sz \<noteq> 0 then (take (nat (read_sz + int PROT_SZ)) (word_of_int read_sz # data), False)
         else ([], False))
      else (take (nat (read_sz + int PROT_SZ)) (word_of_int read_sz # data), True))"

text \<open>\<open>(size_t)(msg.sm_data[0])\<close>: \<open>char\<close> is signed, \<open>size_t\<close> has 64 bits.\<close>

definition size_of_char :: "byte \<Rightarrow> nat" where
  "size_of_char b = nat (sint b mod 2 ^ 64)"

text \<open>
  The client: the bytes read overwrite the front of the buffer; the first one is the length.
  The result is the new buffer, the bytes handed to \<open>Write\<close> and whether the loop goes on. A
  length beyond the buffer makes \<open>write\<close> read outside it.
\<close>

definition client_receive :: "bytes \<Rightarrow> bytes \<Rightarrow> c_error + bytes \<times> bytes \<times> bool" where
  "client_receive sm_data d =
     (let sm_data = d @ drop (length d) sm_data;
          len = size_of_char (hd sm_data) in
      if len \<noteq> MAX_READ_SZ then
        (if len \<noteq> 0 then
           (if len \<le> length sm_data - PROT_SZ then Inr (sm_data, take len (drop PROT_SZ sm_data), False)
            else Inl OutOfBounds)
         else Inr (sm_data, [], False))
      else Inr (sm_data, take len (drop PROT_SZ sm_data), True))"

text \<open>A message of the transfer: length byte and data.\<close>

definition packet :: "bytes \<Rightarrow> bytes" where
  "packet d = of_nat (length d) # d"

lemma server_send_packet:
  "length d \<le> 127 \<Longrightarrow>
   server_send (int (length d)) d = (if d = [] then [] else packet d, length d = 127)"
  by (auto simp: server_send_def packet_def fifo_consts nat_add_distrib)

lemma size_of_char_len: "n \<le> 127 \<Longrightarrow> size_of_char (of_nat n) = n"
proof -
  assume "n \<le> 127"
  then have "sint (of_nat n :: byte) = int n"
    by (simp add: signed_of_nat signed_take_bit_int_eq_self)
  with \<open>n \<le> 127\<close> show ?thesis by (simp add: size_of_char_def)
qed

lemma packet_nonempty [simp]: "packet d \<noteq> []"
  by (simp add: packet_def)

lemma length_packet [simp]: "length (packet d) = Suc (length d)"
  by (simp add: packet_def)

lemma client_receive_packet:
  assumes "length d \<le> 127" and "length buf = 128"
  shows "client_receive buf (packet d) =
    Inr (packet d @ drop (Suc (length d)) buf, d, length d = 127)"
  using assms size_of_char_len [of 127]
  by (auto simp: client_receive_def packet_def size_of_char_len fifo_consts Let_def)

section \<open>The two processes\<close>

text \<open>
  The server: before \<open>mkfifo\<close>, in \<open>GetStarted\<close>'s \<open>Read\<close>, with the path received and the client
  greeted, in the loop, past it, ended by \<open>exit\<close> or \<open>SIGPIPE\<close>. The client: before \<open>mkfifo\<close>, before its
  request, waiting for the answer, before opening its destination, in the loop, past it, ended by \<open>exit\<close>,
  out of bounds, killed in \<open>fileno(NULL)\<close>.
\<close>

datatype server_pc = SStart | SWaitRequest | SOpenSource bytes | SSend | SDone | SExit

datatype client_pc = CStart | CRequest | CWaitReady | COpenDest | CReceive | CDone | CExit | CFault | CNoDest

record fifo_sys =
  channels :: "string set"
  fifo_capacity :: nat
  server_fifo :: bytes
  client_fifo :: bytes
  disk :: "bytes \<Rightarrow> bytes option"
  fin :: "bytes option"
  server :: server_pc
  client :: client_pc
  pid :: "32 word"
  arg1 :: bytes
  sm_data :: bytes
  fout :: bytes
  unwritten :: bytes

text \<open>
  A FIFO holds up to \<open>fifo_capacity\<close> bytes, and a \<open>write\<close> waits for room for all of its bytes, as they are
  fewer than \<open>PIPE_BUF\<close>. \<open>unwritten\<close> records what the client had read but could not write when \<open>Write\<close> ended it. The
  second descriptor each side keeps on its own FIFO means that a read there never sees the end
  of the stream: with nothing to read it waits.
\<close>

definition client_gone :: "fifo_sys \<Rightarrow> bool" where
  "client_gone s \<longleftrightarrow> client s \<in> {CExit, CFault, CNoDest}"

text \<open>
  The steps of the server. A \<open>write\<close> to the FIFO of a client that has ended raises \<open>SIGPIPE\<close>, which ends
  the server.
\<close>

inductive fifo_server_step :: "fifo_sys \<Rightarrow> fifo_sys \<Rightarrow> bool" where
  \<comment> \<open>server: \<open>mkfifo\<close>, \<open>Open\<close> of its own FIFO\<close>
  s_mkfifo: "server s = SStart \<Longrightarrow>
     fifo_server_step s (s\<lparr>channels := insert SERVER_FIFO_NAME (channels s), server := SWaitRequest\<rparr>)"
| s_mkfifo_fail: "server s = SStart \<Longrightarrow> fifo_server_step s (s\<lparr>server := SExit\<rparr>)"
  \<comment> \<open>server: \<open>GetStarted\<close>\<close>
| s_request: "server s = SWaitRequest \<Longrightarrow> server_fifo s \<noteq> [] \<Longrightarrow> m = take 132 (server_fifo s) \<Longrightarrow>
     MakeFifoName (of_le32 m) 100 \<in> channels s \<Longrightarrow> client s = CWaitReady \<Longrightarrow> length g = 122 \<Longrightarrow>
     fifo_server_step s (s\<lparr>server_fifo := drop 132 (server_fifo s),
                    client_fifo := client_fifo s @ message p READY_MSG g,
                    server := SOpenSource (cstr (drop 4 m))\<rparr>)"
| s_request_fail: "server s = SWaitRequest \<Longrightarrow> server_fifo s \<noteq> [] \<Longrightarrow> m = take 132 (server_fifo s) \<Longrightarrow>
     MakeFifoName (of_le32 m) 100 \<notin> channels s \<Longrightarrow>
     fifo_server_step s (s\<lparr>server_fifo := drop 132 (server_fifo s), server := SExit\<rparr>)"
  \<comment> \<open>server: opening the source and the sending loop\<close>
| s_open: "server s = SOpenSource p \<Longrightarrow> disk s p = Some f \<Longrightarrow>
     fifo_server_step s (s\<lparr>fin := Some f, server := SSend\<rparr>)"
| s_open_fail: "server s = SOpenSource p \<Longrightarrow> disk s p = None \<Longrightarrow> fifo_server_step s (s\<lparr>server := SExit\<rparr>)"
| s_send: "server s = SSend \<Longrightarrow> fin s = Some f \<Longrightarrow> d = take MAX_READ_SZ f \<Longrightarrow>
     server_send (int (length d)) d = (out, go) \<Longrightarrow> 
     out = [] \<or> \<not> client_gone s \<and> length (client_fifo s) + length out \<le> fifo_capacity s \<Longrightarrow>
     fifo_server_step s (s\<lparr>fin := Some (drop MAX_READ_SZ f), client_fifo := client_fifo s @ out,
                    server := (if go then SSend else SDone)\<rparr>)"
| s_sigpipe: "server s = SSend \<Longrightarrow> fin s = Some f \<Longrightarrow> f \<noteq> [] \<Longrightarrow> client_gone s \<Longrightarrow>
     fifo_server_step s (s\<lparr>server := SExit\<rparr>)"
| s_read_error: "server s = SSend \<Longrightarrow> server_send (-1) d = (out, go) \<Longrightarrow>
     fifo_server_step s (s\<lparr>client_fifo := client_fifo s @ out, server := (if go then SSend else SDone)\<rparr>)"

inductive fifo_client_step :: "fifo_sys \<Rightarrow> fifo_sys \<Rightarrow> bool" where
  \<comment> \<open>client: \<open>mkfifo\<close>, \<open>Open\<close> of the server's FIFO, the request\<close>
  c_mkfifo: "client s = CStart \<Longrightarrow>
     fifo_client_step s (s\<lparr>channels := insert (MakeFifoName (pid s) 100) (channels s), client := CRequest\<rparr>)"
| c_mkfifo_fail: "client s = CStart \<Longrightarrow> fifo_client_step s (s\<lparr>client := CExit\<rparr>)"
| c_open_fail: "client s = CRequest \<Longrightarrow> SERVER_FIFO_NAME \<notin> channels s \<Longrightarrow>
     fifo_client_step s (s\<lparr>client := CExit\<rparr>)"
| c_request: "client s = CRequest \<Longrightarrow> SERVER_FIFO_NAME \<in> channels s \<Longrightarrow> server s = SWaitRequest \<Longrightarrow>
     length (arg1 s) < MSG_DATA_SZ \<Longrightarrow> length g = 127 - length (arg1 s) \<Longrightarrow>
     fifo_client_step s (s\<lparr>server_fifo := server_fifo s @ message (pid s) (arg1 s) g, client := CWaitReady\<rparr>)"
| c_request_fault: "client s = CRequest \<Longrightarrow> MSG_DATA_SZ \<le> length (arg1 s) \<Longrightarrow>
     fifo_client_step s (s\<lparr>client := CFault\<rparr>)"
  \<comment> \<open>client: the answer and the receiving loop\<close>
| c_ready: "client s = CWaitReady \<Longrightarrow> client_fifo s \<noteq> [] \<Longrightarrow> m = take 132 (client_fifo s) \<Longrightarrow>
     fifo_client_step s (s\<lparr>client_fifo := drop 132 (client_fifo s), sm_data := drop 4 m,
                    client := (if cstr (drop 4 m) = READY_MSG then COpenDest else CExit)\<rparr>)"
| c_fopen: "client s = COpenDest \<Longrightarrow> fifo_client_step s (s\<lparr>client := CReceive\<rparr>)"
| c_fopen_null: "client s = COpenDest \<Longrightarrow> fifo_client_step s (s\<lparr>client := CNoDest\<rparr>)"
| c_receive: "client s = CReceive \<Longrightarrow> client_fifo s \<noteq> [] \<Longrightarrow>
     client_receive (sm_data s) (take MSG_DATA_SZ (client_fifo s)) = Inr (buf, out, go) \<Longrightarrow>
     fifo_client_step s (s\<lparr>client_fifo := drop MSG_DATA_SZ (client_fifo s), sm_data := buf,
                    fout := fout s @ out, client := (if go then CReceive else CDone)\<rparr>)"
| c_write_error: "client s = CReceive \<Longrightarrow> client_fifo s \<noteq> [] \<Longrightarrow>
     client_receive (sm_data s) (take MSG_DATA_SZ (client_fifo s)) = Inr (buf, out, go) \<Longrightarrow> out \<noteq> [] \<Longrightarrow>
     fifo_client_step s (s\<lparr>client_fifo := drop MSG_DATA_SZ (client_fifo s), sm_data := buf,
                    unwritten := out, client := CExit\<rparr>)"
| c_receive_fault: "client s = CReceive \<Longrightarrow> client_fifo s \<noteq> [] \<Longrightarrow>
     client_receive (sm_data s) (take MSG_DATA_SZ (client_fifo s)) = Inl e \<Longrightarrow>
     fifo_client_step s (s\<lparr>client_fifo := drop MSG_DATA_SZ (client_fifo s), client := CFault\<rparr>)"

text \<open>One of the two processes moves.\<close>

inductive fifo_step :: "fifo_sys \<Rightarrow> fifo_sys \<Rightarrow> bool" where
  server_moves: "fifo_server_step s t \<Longrightarrow> fifo_step s t"
| client_moves: "fifo_client_step s t \<Longrightarrow> fifo_step s t"

text \<open>A fresh pair: the client's first argument names a file on the server's disk.\<close>

definition fifo_start :: "bytes \<Rightarrow> fifo_sys \<Rightarrow> bool" where
  "fifo_start file s \<longleftrightarrow>
     channels s = {} \<and> PIPE_BUF \<le> fifo_capacity s \<and> server_fifo s = [] \<and> client_fifo s = [] \<and> disk s (arg1 s) = Some file \<and>
     fin s = None \<and> server s = SStart \<and> client s = CStart \<and> length (arg1 s) < MSG_DATA_SZ \<and>
     0 \<notin> set (arg1 s) \<and> length (sm_data s) = MSG_DATA_SZ \<and> fout s = [] \<and> unwritten s = []"

section \<open>What is in the channel\<close>

fun payload :: "bytes \<Rightarrow> bytes" where
  "payload [] = []"
| "payload (l # bs) = take (unat l) bs @ payload (drop (unat l) bs)"

definition greeted :: "fifo_sys \<Rightarrow> bool" where
  "greeted s \<longleftrightarrow> client s \<noteq> CStart \<and> client s \<noteq> CRequest \<and> client s \<noteq> CWaitReady"

text \<open>The transfer messages in the client's FIFO, without a greeting not yet read.\<close>

definition stream :: "fifo_sys \<Rightarrow> bytes" where
  "stream s = (if greeted s then client_fifo s else drop 132 (client_fifo s))"

definition unread :: "fifo_sys \<Rightarrow> bytes" where
  "unread s = (case fin s of Some r \<Rightarrow> r | None \<Rightarrow> (case disk s (arg1 s) of Some f \<Rightarrow> f | None \<Rightarrow> []))"

definition fifo_pending :: "fifo_sys \<Rightarrow> bytes" where
  "fifo_pending s = unwritten s @ payload (stream s) @ unread s"

definition last_packet :: "bytes \<Rightarrow> bytes" where
  "last_packet t = (if t = [] then [] else packet t)"

text \<open>Full packets, then possibly one short packet, which is the end of the file.\<close>

definition framed :: "bytes \<Rightarrow> bytes list \<Rightarrow> bytes \<Rightarrow> bool" where
  "framed bs cs t \<longleftrightarrow>
     bs = concat (map packet cs) @ last_packet t \<and> (\<forall>c \<in> set cs. length c = 127) \<and> length t < 127"

lemma unat_of_nat_byte: "n \<le> 127 \<Longrightarrow> unat (of_nat n :: byte) = n"
  by (simp add: unat_of_nat)

lemma payload_packet: "length d \<le> 127 \<Longrightarrow> payload (packet d @ bs) = d @ payload bs"
  by (simp add: packet_def unat_of_nat_byte)

lemma payload_framed: "framed bs cs t \<Longrightarrow> payload bs = concat cs @ t"
proof -
  assume f: "framed bs cs t"
  then have "\<forall>c \<in> set cs. length c = 127" by (simp add: framed_def)
  then have "payload (concat (map packet cs) @ last_packet t) = concat cs @ payload (last_packet t)"
    by (induction cs) (auto simp: payload_packet)
  moreover have "payload (last_packet t) = t"
    using f payload_packet [of t "[]"] by (auto simp: last_packet_def framed_def)
  ultimately show ?thesis using f by (simp add: framed_def)
qed

text \<open>Appending what the server writes, and taking one read of the client off the front.\<close>

lemma framed_send_full: "framed bs cs [] \<Longrightarrow> length d = 127 \<Longrightarrow> framed (bs @ packet d) (cs @ [d]) []"
  by (simp add: framed_def last_packet_def)

lemma framed_send_last: "framed bs cs [] \<Longrightarrow> length d < 127 \<Longrightarrow> framed (bs @ last_packet d) cs d"
  by (simp add: framed_def last_packet_def)

lemma framed_receive:
  assumes "framed bs cs t" and "bs \<noteq> []"
  shows "(\<exists>c cs'. cs = c # cs' \<and> take 128 bs = packet c \<and> length c = 127 \<and> framed (drop 128 bs) cs' t) \<or>
    (cs = [] \<and> t \<noteq> [] \<and> take 128 bs = packet t \<and> drop 128 bs = [])"
proof (cases cs)
  case Nil
  with assms show ?thesis by (auto simp: framed_def last_packet_def split: if_splits)
next
  case (Cons c cs')
  with assms show ?thesis by (auto simp: framed_def)
qed

lemma framed_Nil: "framed [] [] []"
  by (simp add: framed_def last_packet_def)

section \<open>The invariant\<close>

definition fifo_framing :: "fifo_sys \<Rightarrow> bool" where
  "fifo_framing s \<longleftrightarrow>
     (\<exists>cs t. framed (stream s) cs t \<and> (t \<noteq> [] \<longrightarrow> server s = SDone \<and> fin s = Some []))"

text \<open>The channel starts with the server's answer.\<close>

definition greeting :: "bytes \<Rightarrow> bool" where
  "greeting bs \<longleftrightarrow> (\<exists>p g rest. bs = message p READY_MSG g @ rest \<and> length g = 122)"

definition fifo_phases :: "fifo_sys \<Rightarrow> bool" where
  "fifo_phases s \<longleftrightarrow>
     disk s (arg1 s) \<noteq> None \<and> length (arg1 s) < 128 \<and> 0 \<notin> set (arg1 s) \<and> length (sm_data s) = 128 \<and>
     (server s = SStart \<or> server s = SWaitRequest \<longrightarrow>
        client_fifo s = [] \<and> fin s = None \<and> client s \<noteq> COpenDest \<and> client s \<noteq> CReceive \<and> client s \<noteq> CDone) \<and>
     (client s = CStart \<or> client s = CRequest \<longrightarrow>
        server_fifo s = [] \<and> client_fifo s = [] \<and> (\<forall>p. server s \<noteq> SOpenSource p) \<and>
        server s \<noteq> SSend \<and> server s \<noteq> SDone) \<and>
     (client s = CRequest \<or> client s = CWaitReady \<longrightarrow> MakeFifoName (pid s) 100 \<in> channels s) \<and>
     (client s = CWaitReady \<and> server s = SWaitRequest \<longrightarrow>
        (\<exists>g. server_fifo s = message (pid s) (arg1 s) g \<and> length g = 127 - length (arg1 s))) \<and>
     (client s = CWaitReady \<longrightarrow> server s \<noteq> SStart) \<and>
     (\<forall>p. server s = SOpenSource p \<longrightarrow> p = arg1 s \<and> fin s = None) \<and>
     (server s = SSend \<or> server s = SDone \<longrightarrow> fin s \<noteq> None) \<and>
     (client s = CWaitReady \<longrightarrow> client_fifo s = [] \<or> greeting (client_fifo s)) \<and>
     (client s = CWaitReady \<and> client_fifo s = [] \<longrightarrow> server s = SWaitRequest \<or> server s = SExit)"

text \<open>Who has made which FIFO, and that a client waiting for the answer gets it.\<close>

definition fifo_names :: "fifo_sys \<Rightarrow> bool" where
  "fifo_names s \<longleftrightarrow>
     (client s = CWaitReady \<and> client_fifo s = [] \<longrightarrow> server s = SWaitRequest) \<and>
     (server s = SStart \<longrightarrow> SERVER_FIFO_NAME \<notin> channels s) \<and>
     (client s = CStart \<or> client s = CRequest \<longrightarrow> server s = SExit \<longrightarrow> SERVER_FIFO_NAME \<notin> channels s)"

definition fifo_progress :: "fifo_sys \<Rightarrow> bool" where
  "fifo_progress s \<longleftrightarrow>
     client s \<noteq> CFault \<and> (client s \<noteq> CExit \<longrightarrow> unwritten s = []) \<and>
     (client s \<noteq> CDone \<longrightarrow> 127 dvd length (fout s)) \<and>
     (client s = CDone \<longrightarrow> server s = SDone \<and> fin s = Some [] \<and> client_fifo s = [] \<and>
        \<not> 127 dvd length (fout s))"

definition fifo_good :: "fifo_sys \<Rightarrow> bool" where
  "fifo_good s \<longleftrightarrow> fifo_phases s \<and> fifo_framing s \<and> fifo_progress s \<and> fifo_names s"

lemma length_message: "length (message p s g) = 5 + length s + length g"
  by (simp add: message_def)

lemma message_nonempty [simp]: "message p s g \<noteq> []"
  by (simp add: message_def)

lemma of_le32_message [simp]: "of_le32 (message p s g) = p"
  by (simp add: message_def of_le32_le32)

lemma of_le32_message_append [simp]: "of_le32 (message p s g @ bs) = p"
  by (simp add: message_def of_le32_le32)

lemma cstr_message [simp]: "0 \<notin> set s \<Longrightarrow> cstr (drop 4 (message p s g)) = s"
  by (simp add: message_def)

lemma READY_MSG_clean [simp]: "0 \<notin> set READY_MSG" and length_READY_MSG [simp]: "length READY_MSG = 5"
  by (auto simp: READY_MSG_def)

lemma greeting_append: "greeting bs \<Longrightarrow> greeting (bs @ x)"
  by (force simp: greeting_def)

lemma greeting_message: "length g = 122 \<Longrightarrow> greeting (message p READY_MSG g)"
  by (metis greeting_def append_Nil2)

lemma greeting_take:
  assumes "greeting bs"
  shows "cstr (drop 4 (take 132 bs)) = READY_MSG" and "132 \<le> length bs"
  using assms by (auto simp: greeting_def length_message)

lemma greeting_nonempty [simp]: "\<not> greeting []"
  by (simp add: greeting_def message_def)

lemma fifo_phases_step_server: "fifo_server_step s s' \<Longrightarrow> fifo_phases s \<Longrightarrow> fifo_phases s'"
proof (induction rule: fifo_server_step.induct)
  case (s_request s m g p)
  then obtain gr where f: "server_fifo s = message (pid s) (arg1 s) gr" "length gr = 127 - length (arg1 s)"
    by (auto simp: fifo_phases_def)
  with s_request.prems have "take 132 (server_fifo s) = message (pid s) (arg1 s) gr"
    by (simp add: fifo_phases_def length_message)
  with s_request have "cstr (drop 4 m) = arg1 s" by (simp add: fifo_phases_def)
  moreover have "client_fifo s = []" using s_request by (simp add: fifo_phases_def)
  ultimately show ?case using s_request by (auto simp: fifo_phases_def greeting_message)
next
  case (s_send s f d out go)
  then show ?case by (auto simp: fifo_phases_def greeting_append)
qed (auto simp: fifo_phases_def fifo_consts server_send_def split: if_splits)

lemma fifo_phases_step_client: "fifo_client_step s s' \<Longrightarrow> fifo_phases s \<Longrightarrow> fifo_phases s'"
proof (induction rule: fifo_client_step.induct)
  case (c_ready s m)
  then have "greeting (client_fifo s)" by (auto simp: fifo_phases_def)
  with c_ready greeting_take [OF this] show ?case by (auto simp: fifo_phases_def)
next
  case (c_receive s buf out go)
  then have "length buf = 128"
    by (auto simp: client_receive_def Let_def fifo_phases_def fifo_consts split: if_splits)
  with c_receive show ?case by (auto simp: fifo_phases_def)
next
  case (c_write_error s buf out go)
  then have "length buf = 128"
    by (auto simp: client_receive_def Let_def fifo_phases_def fifo_consts split: if_splits)
  with c_write_error show ?case by (auto simp: fifo_phases_def)
qed (auto simp: fifo_phases_def fifo_consts server_send_def split: if_splits)

lemma fifo_phases_step: "fifo_step s s' \<Longrightarrow> fifo_phases s \<Longrightarrow> fifo_phases s'"
  by (auto elim: fifo_step.cases intro: fifo_phases_step_server fifo_phases_step_client)

lemma fifo_names_step_server:
  assumes "fifo_server_step s s'" and "fifo_phases s" and "fifo_names s"
  shows "fifo_names s'"
  using assms
proof (induction rule: fifo_server_step.induct)
  case (s_request_fail s m)
  have "client s \<noteq> CStart \<and> client s \<noteq> CRequest" using s_request_fail by (auto simp: fifo_phases_def)
  moreover have "client s \<noteq> CWaitReady"
  proof
    assume w: "client s = CWaitReady"
    with s_request_fail obtain gr where f: "server_fifo s = message (pid s) (arg1 s) gr" "length gr = 127 - length (arg1 s)"
      by (auto simp: fifo_phases_def)
    with s_request_fail.prems have "take 132 (server_fifo s) = message (pid s) (arg1 s) gr"
      by (simp add: fifo_phases_def length_message)
    with s_request_fail.hyps w s_request_fail.prems show False by (simp add: fifo_phases_def)
  qed
  ultimately show ?case by (simp add: fifo_names_def)
next
  case (s_request s m g p)
  then show ?case by (simp add: fifo_names_def)
next
  case (s_send s f d out go)
  then have "client s \<noteq> CStart \<and> client s \<noteq> CRequest" by (auto simp: fifo_phases_def)
  moreover have "client_fifo s \<noteq> [] \<or> client s \<noteq> CWaitReady" using s_send by (auto simp: fifo_names_def)
  ultimately show ?case using s_send.prems by (auto simp: fifo_names_def)
next
  case (s_read_error s d out go)
  then have "client s \<noteq> CStart \<and> client s \<noteq> CRequest" by (auto simp: fifo_phases_def)
  moreover have "client_fifo s \<noteq> [] \<or> client s \<noteq> CWaitReady" using s_read_error by (auto simp: fifo_names_def)
  ultimately show ?case using s_read_error.prems by (auto simp: fifo_names_def)
qed (auto simp: fifo_names_def fifo_phases_def)

lemma fifo_names_step_client:
  assumes "fifo_client_step s s'" and "fifo_phases s" and "fifo_names s"
  shows "fifo_names s'"
  using assms
proof (induction rule: fifo_client_step.induct)
  case (c_mkfifo s)
  then show ?case using MakeFifoName_not_server [of "pid s"] by (auto simp: fifo_names_def)
qed (auto simp: fifo_names_def fifo_phases_def)

lemma fifo_names_step: "fifo_step s s' \<Longrightarrow> fifo_phases s \<Longrightarrow> fifo_names s \<Longrightarrow> fifo_names s'"
  by (auto elim: fifo_step.cases intro: fifo_names_step_server fifo_names_step_client)

text \<open>What one step does to the stream and to the bytes written.\<close>

lemma send_ready:
  assumes "fifo_phases s" and "server s = SSend"
  shows "greeted s \<or> greeting (client_fifo s)"
  using assms by (cases "client s") (auto simp: fifo_phases_def greeted_def)

lemma stream_append:
  assumes "greeted s \<or> greeting (client_fifo s)"
    and "client s' = client s" and "client_fifo s' = client_fifo s @ x"
  shows "stream s' = stream s @ x"
  using assms greeting_take(2) [of "client_fifo s"] by (auto simp: stream_def greeted_def)

lemma fifo_receive_cases:
  assumes ph: "fifo_phases s" and fr: "fifo_framing s" and c: "client s = CReceive"
    and ne: "client_fifo s \<noteq> []"
  obtains (full) d cs t buf where "length d = 127"
      "client_receive (sm_data s) (take 128 (client_fifo s)) = Inr (buf, d, True)"
      "client_fifo s = packet d @ drop 128 (client_fifo s)"
      "framed (drop 128 (client_fifo s)) cs t" "t \<noteq> [] \<longrightarrow> server s = SDone \<and> fin s = Some []"
  | (short) d buf where "d \<noteq> []" "length d < 127"
      "client_receive (sm_data s) (take 128 (client_fifo s)) = Inr (buf, d, False)"
      "client_fifo s = packet d" "drop 128 (client_fifo s) = []" "server s = SDone" "fin s = Some []"
proof -
  have buf: "length (sm_data s) = 128" using ph by (simp add: fifo_phases_def)
  from c have st: "stream s = client_fifo s" by (simp add: stream_def greeted_def)
  from fr obtain cs t where f: "framed (client_fifo s) cs t"
    and e: "t \<noteq> [] \<longrightarrow> server s = SDone \<and> fin s = Some []"
    by (auto simp: fifo_framing_def st)
  have split: "client_fifo s = take 128 (client_fifo s) @ drop 128 (client_fifo s)" by simp
  from framed_receive [OF f ne] show thesis
  proof (elim disjE exE conjE)
    fix d cs'
    assume "take 128 (client_fifo s) = packet d" "length d = 127" "framed (drop 128 (client_fifo s)) cs' t"
    with buf split e show thesis
      by (intro full [of d _ cs' t]) (auto simp: client_receive_packet)
  next
    assume "t \<noteq> []" "take 128 (client_fifo s) = packet t" "drop 128 (client_fifo s) = []"
    moreover have "length t < 127" using f by (simp add: framed_def)
    ultimately show thesis using buf split e
      by (intro short [of t]) (auto simp: client_receive_packet)
  qed
qed

lemma fifo_framing_step_server:
  assumes "fifo_server_step s s'" and "fifo_phases s" and "fifo_framing s"
  shows "fifo_framing s'"
  using assms
proof (induction rule: fifo_server_step.induct)
  case (s_request s m g p)
  then have "client_fifo s = []" by (simp add: fifo_phases_def)
  with s_request framed_Nil show ?case
    by (auto simp: fifo_framing_def stream_def greeted_def length_message)
next
  case (s_send s f d out go)
  let ?s = "s\<lparr>fin := Some (drop MAX_READ_SZ f), client_fifo := client_fifo s @ out,
    server := (if go then SSend else SDone)\<rparr>"
  have st: "stream ?s = stream s @ out"
    by (rule stream_append [OF send_ready [OF s_send.prems(1) s_send.hyps(1)]]) auto
  from s_send obtain cs where f: "framed (stream s) cs []" by (auto simp: fifo_framing_def)
  have len: "length d \<le> 127" using s_send.hyps(3) by (simp add: fifo_consts)
  with s_send.hyps(4) have out: "out = last_packet d" "go = (length d = 127)"
    by (auto simp: server_send_packet last_packet_def)
  show ?case
  proof (cases "length d = 127")
    case True
    with out have "out = packet d" by (auto simp: last_packet_def)
    with framed_send_full [OF f True] st show ?thesis by (auto simp: fifo_framing_def)
  next
    case False
    with len s_send.hyps(3) have "drop MAX_READ_SZ f = []" by (auto simp: fifo_consts)
    with framed_send_last [OF f, of d] False len out st show ?thesis
      by (auto simp: fifo_framing_def intro!: exI [of _ cs] exI [of _ d])
  qed
next
  case (s_read_error s d out go)
  then have "out = []" and "\<not> go" by (auto simp: server_send_def fifo_consts)
  moreover from s_read_error obtain cs where "framed (stream s) cs []" by (auto simp: fifo_framing_def)
  ultimately show ?case unfolding fifo_framing_def
    by - (rule exI [of _ cs], rule exI [of _ "[]"], auto simp: stream_def greeted_def)
qed (auto simp: fifo_framing_def stream_def greeted_def fifo_phases_def)

lemma fifo_framing_step_client:
  assumes "fifo_client_step s s'" and "fifo_phases s" and "fifo_framing s"
  shows "fifo_framing s'"
  using assms
proof (induction rule: fifo_client_step.induct)
  case (c_ready s m)
  then have "greeting (client_fifo s)" by (auto simp: fifo_phases_def)
  with c_ready show ?case by (auto simp: fifo_framing_def stream_def greeted_def)
next
  case (c_receive s buf out go)
  then show ?case
    by (elim fifo_receive_cases) (auto simp: fifo_framing_def stream_def greeted_def fifo_consts
        intro: framed_Nil)
next
  case (c_write_error s buf out go)
  then show ?case
    by (elim fifo_receive_cases) (auto simp: fifo_framing_def stream_def greeted_def fifo_consts
        intro: framed_Nil)
next
  case (c_receive_fault s e)
  then show ?case
    by (elim fifo_receive_cases) (auto simp: fifo_consts)
qed (auto simp: fifo_framing_def stream_def greeted_def fifo_phases_def)

lemma fifo_framing_step:
  assumes "fifo_step s s'" and "fifo_phases s" and "fifo_framing s"
  shows "fifo_framing s'"
  using assms by (auto elim: fifo_step.cases intro: fifo_framing_step_server fifo_framing_step_client)

lemma fifo_progress_step_server:
  assumes "fifo_server_step s s'" and "fifo_phases s" and "fifo_framing s" and "fifo_progress s"
  shows "fifo_progress s'"
  using assms
proof (induction rule: fifo_server_step.induct)
qed (auto simp: fifo_progress_def fifo_phases_def fifo_consts)

lemma fifo_progress_step_client:
  assumes "fifo_client_step s s'" and "fifo_phases s" and "fifo_framing s" and "fifo_progress s"
  shows "fifo_progress s'"
  using assms
proof (induction rule: fifo_client_step.induct)
  case (c_ready s m)
  then have "greeting (client_fifo s)" by (auto simp: fifo_phases_def)
  from greeting_take(1) [OF this] c_ready show ?case by (auto simp: fifo_progress_def)
next
  case (c_receive s buf out go)
  from c_receive.prems(1,2) c_receive.hyps(1,2) show ?case
  proof (cases rule: fifo_receive_cases)
    case full
    with c_receive show ?thesis by (auto simp: fifo_progress_def fifo_consts)
  next
    case (short d buf')
    with c_receive have "\<not> 127 dvd length (fout s @ d)"
      by (auto simp: fifo_progress_def dvd_add_right_iff dest: dvd_imp_le)
    with short c_receive show ?thesis by (auto simp: fifo_progress_def fifo_consts)
  qed
next
  case (c_write_error s buf out go)
  then show ?case by (auto simp: fifo_progress_def)
next
  case (c_receive_fault s e)
  then show ?case by (elim fifo_receive_cases) (auto simp: fifo_consts)
qed (auto simp: fifo_progress_def fifo_phases_def fifo_consts)

lemma fifo_progress_step:
  assumes "fifo_step s s'" and "fifo_phases s" and "fifo_framing s" and "fifo_progress s"
  shows "fifo_progress s'"
  using assms by (auto elim: fifo_step.cases intro: fifo_progress_step_server fifo_progress_step_client)

lemma unread_Some [simp]: "fin s = Some r \<Longrightarrow> unread s = r"
  by (simp add: unread_def)

lemma unread_update [simp]:
  "unread (s\<lparr>channels := a\<rparr>) = unread s" "unread (s\<lparr>server_fifo := b\<rparr>) = unread s"
  "unread (s\<lparr>client_fifo := b\<rparr>) = unread s" "unread (s\<lparr>server := c\<rparr>) = unread s"
  "unread (s\<lparr>client := d\<rparr>) = unread s" "unread (s\<lparr>sm_data := b\<rparr>) = unread s"
  "unread (s\<lparr>fout := b\<rparr>) = unread s" "unread (s\<lparr>unwritten := b\<rparr>) = unread s"
  by (simp_all add: unread_def cong: option.case_cong)

lemma fifo_content_step_server:
  assumes "fifo_server_step s s'" and "fifo_phases s" and "fifo_framing s" and "fifo_progress s"
  shows "fout s' @ fifo_pending s' = fout s @ fifo_pending s"
  using assms
proof (induction rule: fifo_server_step.induct)
  case (s_request s m g p)
  then have "client_fifo s = []" by (simp add: fifo_phases_def)
  with s_request show ?case
    by (simp add: fifo_pending_def stream_def greeted_def length_message)
next
  case (s_open s p f)
  then show ?case by (simp add: fifo_pending_def stream_def greeted_def unread_def fifo_phases_def)
next
  case (s_send s f d out go)
  let ?s = "s\<lparr>fin := Some (drop MAX_READ_SZ f), client_fifo := client_fifo s @ out,
    server := (if go then SSend else SDone)\<rparr>"
  have st: "stream ?s = stream s @ out"
    by (rule stream_append [OF send_ready [OF s_send.prems(1) s_send.hyps(1)]]) auto
  from s_send obtain cs where f: "framed (stream s) cs []" by (auto simp: fifo_framing_def)
  have len: "length d \<le> 127" using s_send.hyps(3) by (simp add: fifo_consts)
  with s_send.hyps(4) have "out = last_packet d"
    by (auto simp: server_send_packet last_packet_def)
  moreover have "payload (stream s @ last_packet d) = payload (stream s) @ d"
    using payload_framed [OF f] payload_framed [OF framed_send_full [OF f, of d]]
      payload_framed [OF framed_send_last [OF f, of d]] len
    by (cases "length d = 127") (auto simp: last_packet_def)
  moreover have "f = d @ drop MAX_READ_SZ f" using s_send.hyps(3) by simp
  ultimately show ?case
    using st s_send.hyps(2) by (simp add: fifo_pending_def)
next
  case (s_read_error s d out go)
  then show ?case
    by (auto simp: fifo_pending_def stream_def greeted_def server_send_def fifo_consts)
qed (auto simp: fifo_pending_def stream_def greeted_def fifo_phases_def)

lemma fifo_content_step_client:
  assumes "fifo_client_step s s'" and "fifo_phases s" and "fifo_framing s" and "fifo_progress s"
  shows "fout s' @ fifo_pending s' = fout s @ fifo_pending s"
  using assms
proof (induction rule: fifo_client_step.induct)
  case (c_ready s m)
  then have "greeting (client_fifo s)" by (auto simp: fifo_phases_def)
  with c_ready show ?case by (auto simp: fifo_pending_def stream_def greeted_def)
next
  case (c_receive s buf out go)
  from c_receive.prems(1,2) c_receive.hyps(1,2) show ?case
  proof (cases rule: fifo_receive_cases)
    case (full d cs t buf')
    then have "payload (client_fifo s) = d @ payload (drop 128 (client_fifo s))"
      using payload_packet [of d] by (metis order_refl)
    with full c_receive show ?thesis
      by (simp add: fifo_pending_def stream_def greeted_def fifo_consts fifo_progress_def)
  next
    case (short d buf')
    then have "payload (client_fifo s) = d" using payload_packet [of d "[]"] by simp
    with short c_receive show ?thesis
      by (simp add: fifo_pending_def stream_def greeted_def fifo_consts fifo_progress_def)
  qed
next
  case (c_write_error s buf out go)
  from c_write_error.prems(1,2) c_write_error.hyps(1,2) show ?case
  proof (cases rule: fifo_receive_cases)
    case (full d cs t buf')
    then have "payload (client_fifo s) = d @ payload (drop 128 (client_fifo s))"
      using payload_packet [of d] by (metis order_refl)
    with full c_write_error show ?thesis
      by (simp add: fifo_pending_def stream_def greeted_def fifo_consts fifo_progress_def)
  next
    case (short d buf')
    then have "payload (client_fifo s) = d" using payload_packet [of d "[]"] by simp
    with short c_write_error show ?thesis
      by (simp add: fifo_pending_def stream_def greeted_def fifo_consts fifo_progress_def)
  qed
next
  case (c_receive_fault s e)
  then show ?case by (elim fifo_receive_cases) (auto simp: fifo_consts)
qed (auto simp: fifo_pending_def stream_def greeted_def fifo_phases_def)

lemma fifo_content_step:
  assumes "fifo_step s s'" and "fifo_phases s" and "fifo_framing s" and "fifo_progress s"
  shows "fout s' @ fifo_pending s' = fout s @ fifo_pending s"
  using assms by (auto elim: fifo_step.cases intro: fifo_content_step_server fifo_content_step_client)

section \<open>Runs\<close>

fun server_rank :: "server_pc \<Rightarrow> nat" where
  "server_rank SStart = 600"
| "server_rank SWaitRequest = 500"
| "server_rank (SOpenSource _) = 200"
| "server_rank SSend = 100"
| "server_rank SDone = 0"
| "server_rank SExit = 0"

fun client_rank :: "client_pc \<Rightarrow> nat" where
  "client_rank CStart = 600"
| "client_rank CRequest = 500"
| "client_rank CWaitReady = 200"
| "client_rank COpenDest = 150"
| "client_rank CReceive = 100"
| "client_rank _ = 0"

text \<open>Every byte of the file costs at most three: it is read, sent and received.\<close>

definition fifo_work :: "fifo_sys \<Rightarrow> nat" where
  "fifo_work s =
     server_rank (server s) + client_rank (client s) + 3 * length (unread s) + length (client_fifo s)"

lemma unread_fin [simp]: "unread (s\<lparr>fin := Some f\<rparr>) = f"
  by (simp add: unread_def)

lemma fifo_work_step_server:
  assumes "fifo_server_step s s'" and "fifo_good s"
  shows "fifo_work s' < fifo_work s"
  using assms
proof (induction rule: fifo_server_step.induct)
  case (s_send s f d out go)
  have len: "length d \<le> 127" using s_send.hyps(3) by (simp add: fifo_consts)
  with s_send.hyps(4) have "out = last_packet d" "go = (length d = 127)"
    by (auto simp: server_send_packet last_packet_def)
  with s_send.hyps len show ?case
    by (auto simp: fifo_work_def fifo_consts last_packet_def)
next
  case (s_open s p f)
  then show ?case by (simp add: fifo_work_def fifo_good_def fifo_phases_def unread_def)
next
  case (s_read_error s d out go)
  then show ?case by (auto simp: fifo_work_def server_send_def fifo_consts)
qed (auto simp: fifo_work_def length_message)

lemma fifo_work_step_client:
  assumes "fifo_client_step s s'" and "fifo_good s"
  shows "fifo_work s' < fifo_work s"
  using assms
proof (induction rule: fifo_client_step.induct)
  case (c_receive s buf out go)
  then have "0 < length (client_fifo s)" by simp
  with c_receive show ?case by (auto simp: fifo_work_def fifo_consts)
qed (auto simp: fifo_work_def length_message)

lemma fifo_work_step:
  assumes "fifo_step s s'" and "fifo_good s"
  shows "fifo_work s' < fifo_work s"
  using assms by (auto elim: fifo_step.cases intro: fifo_work_step_server fifo_work_step_client)

lemma fifo_start_good: "fifo_start file s \<Longrightarrow> fifo_good s"
  using framed_Nil
  by (auto simp: fifo_start_def fifo_good_def fifo_phases_def fifo_framing_def fifo_progress_def fifo_names_def
      stream_def greeted_def fifo_consts)

interpretation fifo_transfer:
  finite_transfer fifo_step fifo_start fout fifo_pending fifo_good fifo_work
proof (unfold_locales, goal_cases)
  case (1 f s)
  then show ?case by (rule fifo_start_good)
next
  case (2 f s)
  then show ?case by (simp add: fifo_start_def fifo_pending_def stream_def greeted_def unread_def)
next
  case (3 s t)
  then show ?case
    unfolding fifo_good_def by (blast intro: fifo_phases_step fifo_framing_step fifo_progress_step fifo_names_step)
next
  case (4 s t)
  then show ?case unfolding fifo_good_def by (blast intro: fifo_content_step)
next
  case (5 s t)
  then show ?case by (blast intro: fifo_work_step)
qed

lemma fifo_done_content:
  "fifo_good s \<Longrightarrow> client s = CDone \<Longrightarrow> fifo_pending s = []"
  by (auto simp: fifo_good_def fifo_progress_def fifo_pending_def stream_def greeted_def)

end
