(* ===== verification/FifoProps.thy ===== *)
theory FifoProps
  imports Fifo
begin

text \<open>
  The properties of the FIFO transfer, from the invariant and the interpretation of
  \<open>finite_transfer\<close> in Fifo, with a complete run on a small file for their witnesses.
\<close>

section \<open>A run on a file of three bytes\<close>

definition fifo_demo :: "string set \<Rightarrow> bytes \<Rightarrow> bytes \<Rightarrow> bytes option \<Rightarrow> server_pc \<Rightarrow> client_pc \<Rightarrow>
  bytes \<Rightarrow> bytes \<Rightarrow> fifo_sys" where
  "fifo_demo chs sf cf fi sv cl buf out =
     \<lparr>channels = chs, fifo_capacity = 65536, server_fifo = sf, client_fifo = cf, disk = [[97] \<mapsto> [1, 2, 3]], fin = fi,
      server = sv, client = cl, pid = 42, arg1 = [97], sm_data = buf, fout = out, unwritten = []\<rparr>"

abbreviation fifo_demo_0 :: fifo_sys where
  "fifo_demo_0 \<equiv> fifo_demo {} [] [] None SStart CStart (replicate 128 0) []"

lemma fifo_demo_start: "fifo_start [1, 2, 3] fifo_demo_0"
  by (simp add: fifo_start_def fifo_demo_def fifo_consts)

lemma fifo_run: "fifo_step\<^sup>*\<^sup>* a b \<Longrightarrow> fifo_step b c \<Longrightarrow> fifo_step\<^sup>*\<^sup>* a c"
  by (rule rtranclp.rtrancl_into_rtrancl)

lemma fifo_demo_done:
  "fifo_step\<^sup>*\<^sup>* fifo_demo_0
     (fifo_demo {SERVER_FIFO_NAME, MakeFifoName 42 100} [] [] (Some []) SDone CDone
       (packet [1, 2, 3] @ drop 4 (READY_MSG @ 0 # replicate 122 0)) [1, 2, 3])"
proof -
  let ?b = "replicate 128 0" and ?c = "{SERVER_FIFO_NAME, MakeFifoName 42 100}"
  let ?r = "message 42 [97] (replicate 126 0)" and ?y = "message 0 READY_MSG (replicate 122 0)"
  let ?b2 = "READY_MSG @ 0 # replicate 122 0"
  have s1: "fifo_server_step fifo_demo_0 (fifo_demo {SERVER_FIFO_NAME} [] [] None SWaitRequest CStart ?b [])"
    using fifo_server_step.s_mkfifo [of fifo_demo_0] by (simp add: fifo_demo_def)
  have s2: "fifo_client_step (fifo_demo {SERVER_FIFO_NAME} [] [] None SWaitRequest CStart ?b [])
      (fifo_demo ?c [] [] None SWaitRequest CRequest ?b [])"
    using fifo_client_step.c_mkfifo [of "fifo_demo {SERVER_FIFO_NAME} [] [] None SWaitRequest CStart ?b []"]
    by (simp add: fifo_demo_def insert_commute)
  have s3: "fifo_client_step (fifo_demo ?c [] [] None SWaitRequest CRequest ?b [])
      (fifo_demo ?c ?r [] None SWaitRequest CWaitReady ?b [])"
    using fifo_client_step.c_request [of "fifo_demo ?c [] [] None SWaitRequest CRequest ?b []" "replicate 126 0"]
    by (simp add: fifo_demo_def fifo_consts)
  have s4: "fifo_server_step (fifo_demo ?c ?r [] None SWaitRequest CWaitReady ?b [])
      (fifo_demo ?c [] ?y None (SOpenSource [97]) CWaitReady ?b [])"
    using fifo_server_step.s_request [of "fifo_demo ?c ?r [] None SWaitRequest CWaitReady ?b []" ?r
        "replicate 122 0" 0]
    by (simp add: fifo_demo_def length_message)
  have s5: "fifo_server_step (fifo_demo ?c [] ?y None (SOpenSource [97]) CWaitReady ?b [])
      (fifo_demo ?c [] ?y (Some [1, 2, 3]) SSend CWaitReady ?b [])"
    using fifo_server_step.s_open [of "fifo_demo ?c [] ?y None (SOpenSource [97]) CWaitReady ?b []" "[97]" "[1, 2, 3]"]
    by (simp add: fifo_demo_def)
  have s6: "fifo_server_step (fifo_demo ?c [] ?y (Some [1, 2, 3]) SSend CWaitReady ?b [])
      (fifo_demo ?c [] (?y @ packet [1, 2, 3]) (Some []) SDone CWaitReady ?b [])"
    using fifo_server_step.s_send [of "fifo_demo ?c [] ?y (Some [1, 2, 3]) SSend CWaitReady ?b []" "[1, 2, 3]"
        "[1, 2, 3]" "packet [1, 2, 3]" False] server_send_packet [of "[1, 2, 3]"]
    by (simp add: fifo_demo_def fifo_consts client_gone_def length_message)
  have s7: "fifo_client_step (fifo_demo ?c [] (?y @ packet [1, 2, 3]) (Some []) SDone CWaitReady ?b [])
      (fifo_demo ?c [] (packet [1, 2, 3]) (Some []) SDone COpenDest ?b2 [])"
    using fifo_client_step.c_ready [of "fifo_demo ?c [] (?y @ packet [1, 2, 3]) (Some []) SDone CWaitReady ?b []" ?y]
    by (simp add: fifo_demo_def length_message) (simp add: message_def)
  have s7': "fifo_client_step (fifo_demo ?c [] (packet [1, 2, 3]) (Some []) SDone COpenDest ?b2 [])
      (fifo_demo ?c [] (packet [1, 2, 3]) (Some []) SDone CReceive ?b2 [])"
    using fifo_client_step.c_fopen [of "fifo_demo ?c [] (packet [1, 2, 3]) (Some []) SDone COpenDest ?b2 []"]
    by (simp add: fifo_demo_def)
  have r: "client_receive ?b2 (packet [1, 2, 3]) = Inr (packet [1, 2, 3] @ drop 4 ?b2, [1, 2, 3], False)"
    using client_receive_packet [of "[1, 2, 3]" ?b2] by (simp add: eval_nat_numeral)
  have s8: "fifo_client_step (fifo_demo ?c [] (packet [1, 2, 3]) (Some []) SDone CReceive ?b2 [])
      (fifo_demo ?c [] [] (Some []) SDone CDone (packet [1, 2, 3] @ drop 4 ?b2) [1, 2, 3])"
    using fifo_client_step.c_receive [of "fifo_demo ?c [] (packet [1, 2, 3]) (Some []) SDone CReceive ?b2 []"
        "packet [1, 2, 3] @ drop 4 ?b2" "[1, 2, 3]" False] r
    by (simp add: fifo_demo_def fifo_consts)
  show ?thesis
    by (rule fifo_run [OF fifo_run [OF fifo_run [OF fifo_run [OF fifo_run [OF fifo_run [OF fifo_run
        [OF fifo_run [OF r_into_rtranclp [of fifo_step, OF server_moves [OF s1]] client_moves [OF s2]]
        client_moves [OF s3]] server_moves [OF s4]] server_moves [OF s5]] server_moves [OF s6]]
        client_moves [OF s7]] client_moves [OF s7']] client_moves [OF s8]])
qed

section \<open>Properties\<close>

text \<open>Safety of the FIFO transfer: under every interleaving of server and client, and whatever
  fails, the destination holds a prefix of the source file at every moment, and the client never
  writes from outside its message buffer.\<close>

theorem fifo_output_is_prefix:
  assumes "fifo_start file s" and "fifo_step\<^sup>*\<^sup>* s t"
  shows "prefix (fout t) file \<and> client t \<noteq> CFault"
proof -
  have "prefix (fout t) file" using assms by (rule fifo_transfer.reach_prefix)
  moreover have "fifo_good t" using assms by (rule fifo_transfer.reach_good)
  ultimately show ?thesis by (simp add: fifo_good_def fifo_progress_def)
qed

theorem fifo_output_is_prefix_witness:
  "prefix [1, 2, 3 :: byte] [1, 2, 3]"
  using fifo_output_is_prefix [OF fifo_demo_start fifo_demo_done] by (simp add: fifo_demo_def)

text \<open>C5. A client that reaches the end of its receiving loop has the whole file: the destination
  equals the source byte for byte, however the 127-byte messages were interleaved with its reads.\<close>

theorem fifo_done_means_complete:
  assumes "fifo_start file s" and "fifo_step\<^sup>*\<^sup>* s t" and "client t = CDone"
  shows "fout t = file"
proof -
  have "fifo_good t" using assms(1,2) by (rule fifo_transfer.reach_good)
  with assms(3) have "fifo_pending t = []" by (simp add: fifo_done_content)
  with assms(1,2) show ?thesis by (rule fifo_transfer.reach_complete)
qed

theorem fifo_done_means_complete_witness:
  "fout (fifo_demo {SERVER_FIFO_NAME, MakeFifoName 42 100} [] [] (Some []) SDone CDone
       (packet [1, 2, 3] @ drop 4 (READY_MSG @ 0 # replicate 122 0)) [1, 2, 3]) = [1, 2, 3]"
  using fifo_done_means_complete [OF fifo_demo_start fifo_demo_done] by (simp add: fifo_demo_def)









end
