(* ===== verification/ShmRing.thy ===== *)
theory ShmRing
  imports FileTransfer
begin

text \<open>
  The transfer over System V shared memory (\<open>task3/shr-mem-SYSV\<close>): \<open>sm_main.c\<close>, \<open>sm_sem.c\<close>,
  \<open>sm_main.h\<close>. The parent reads the source byte by byte into a ring of \<open>BUF_SZ\<close> bytes, the child
  writes it out; the semaphores \<open>empty\<close>, \<open>full\<close> and \<open>mutex\<close> and the flag \<open>status\<close> in the segment
  synchronise them. The two processes interleave at the granularity of one semaphore operation
  or one access to the shared flag; inside a critical section no other access is possible, so
  the body between the two waits and the two posts is one step.
\<close>

section \<open>The segment\<close>

definition INDEX_NUM :: nat where
  "INDEX_NUM = 3"

definition SHM_SZ :: nat where
  "SHM_SZ = 64"

definition sizeof_size_t :: nat where
  "sizeof_size_t = 8"

definition BUF_SZ :: nat where
  "BUF_SZ = SHM_SZ - INDEX_NUM * sizeof_size_t"

lemmas shm_consts = INDEX_NUM_def SHM_SZ_def sizeof_size_t_def BUF_SZ_def

lemma BUF_SZ_40 [simp]: "BUF_SZ = 40"
  by (simp add: shm_consts)

text \<open>
  \<open>SharedMemoryInit\<close>: where the fields lie, as offsets from the start of the segment.
  \<open>status\<close> and \<open>s_ind\<close> are \<open>size_t *\<close>, so adding \<open>sizeof(size_t)\<close> to one of them moves it by eight
  words.
\<close>

record SharedMemory =
  status_at :: nat
  s_ind_at :: nat
  r_ind_at :: nat
  buf_at :: nat

definition ptr_add :: "nat \<Rightarrow> nat \<Rightarrow> nat" where
  "ptr_add p n = p + n * sizeof_size_t"

definition SharedMemoryInit :: SharedMemory where
  "SharedMemoryInit =
     (let status = 0;
          s_ind = ptr_add status sizeof_size_t;
          r_ind = ptr_add s_ind sizeof_size_t
      in \<lparr>status_at = status, s_ind_at = s_ind, r_ind_at = r_ind,
          buf_at = INDEX_NUM * sizeof_size_t\<rparr>)"

definition overlap :: "nat \<Rightarrow> nat \<Rightarrow> nat \<Rightarrow> nat \<Rightarrow> bool" where
  "overlap a m b n \<longleftrightarrow> a < b + n \<and> b < a + m"

section \<open>The semaphores\<close>

text \<open>
  The kernel's table of semaphore sets, by key. \<open>semget\<close> with \<open>IPC_CREAT\<close> finds or creates the set;
  it may also fail, with the error number in \<open>errno\<close>. \<open>ENOENT\<close> is 2, \<open>EEXIST\<close> is 17.
\<close>

type_synonym sem_table = "int \<rightharpoonup> int"

definition ENOENT :: int where
  "ENOENT = 2"

definition semget :: "int \<Rightarrow> sem_table \<Rightarrow> sem_table" where
  "semget key tab = (case tab key of None \<Rightarrow> tab(key \<mapsto> 0) | Some _ \<Rightarrow> tab)"

text \<open>
  \<open>MySemOpen\<close>: \<open>ftok\<close> must give a key; the set is created or found, its value set to 0, waited
  for to be 0 and set to \<open>sem_sz\<close>. \<open>semget_ok\<close> tells whether \<open>semget\<close> succeeded. Without
  \<open>IPC_EXCL\<close> it never fails with \<open>EEXIST\<close>, so a failure ends the process.
\<close>

definition MySemOpen :: "int \<Rightarrow> bool \<Rightarrow> int \<Rightarrow> sem_table \<Rightarrow> c_error + int \<times> sem_table" where
  "MySemOpen key semget_ok sem_sz tab =
     (if key = -1 then Inl (Exit 1)
      else if \<not> semget_ok then Inl (Exit 1)
      else
        (let tab = semget key tab;
             tab = tab(key \<mapsto> 0)
         in Inr (key, tab(key \<mapsto> sem_sz))))"

text \<open>
  \<open>MySemRemove\<close>: the test is \<open>semget(...) == -1\<close>; only then, and with \<open>ENOENT\<close>, is \<open>IPC_RMID\<close>
  applied, to the id -1.
\<close>

definition MySemRemove :: "int \<Rightarrow> int \<Rightarrow> bool \<Rightarrow> sem_table \<Rightarrow> c_error + sem_table" where
  "MySemRemove key errno semget_ok tab =
     (if key = -1 then (if errno \<noteq> ENOENT then Inl (Exit 1) else Inr tab)
      else if \<not> semget_ok then (if errno \<noteq> ENOENT then Inl (Exit 1) else Inr (tab(-1 := None)))
      else Inr (semget key tab))"

text \<open>
  The three sets of a program, with \<open>k\<close> the keys \<open>ftok\<close> gave for \<open>argv[0]\<close>, \<open>argv[1]\<close> and \<open>argv[2]\<close>. The
  result of \<open>semget\<close> and, where it is looked at, \<open>errno\<close> come with each key.
\<close>

definition SemaphoresInit :: "int \<times> bool \<Rightarrow> int \<times> bool \<Rightarrow> int \<times> bool \<Rightarrow> sem_table
    \<Rightarrow> c_error + (int \<times> int \<times> int) \<times> sem_table" where
  "SemaphoresInit = (\<lambda>(k0, ok0) (k1, ok1) (k2, ok2) tab.
     case MySemOpen k0 ok0 (int BUF_SZ) tab of Inl e \<Rightarrow> Inl e | Inr (id0, tab) \<Rightarrow>
     (case MySemOpen k1 ok1 1 tab of Inl e \<Rightarrow> Inl e | Inr (id1, tab) \<Rightarrow>
     (case MySemOpen k2 ok2 0 tab of Inl e \<Rightarrow> Inl e | Inr (id2, tab) \<Rightarrow>
        Inr ((id0, id1, id2), tab))))"

definition SemaphoreRemove :: "int \<times> int \<times> bool \<Rightarrow> int \<times> int \<times> bool \<Rightarrow> int \<times> int \<times> bool \<Rightarrow> sem_table
    \<Rightarrow> c_error + sem_table" where
  "SemaphoreRemove = (\<lambda>(k0, errno0, ok0) (k1, errno1, ok1) (k2, errno2, ok2) tab.
     case MySemRemove k0 errno0 ok0 tab of Inl e \<Rightarrow> Inl e | Inr tab \<Rightarrow>
     (case MySemRemove k1 errno1 ok1 tab of Inl e \<Rightarrow> Inl e | Inr tab \<Rightarrow>
        MySemRemove k2 errno2 ok2 tab))"

text \<open>\<open>semop\<close> with -1 waits while the value is 0.\<close>

definition MySemPost :: "nat \<Rightarrow> nat" where
  "MySemPost v = v + 1"

definition MySemWait :: "nat \<Rightarrow> nat option" where
  "MySemWait v = (if v = 0 then None else Some (v - 1))"

section \<open>The two processes\<close>

datatype sender_pc = S_Loop | S_WaitEmpty | S_WaitMutex | S_Crit | S_PostMutex | S_PostFull | S_Spin | S_Done

datatype receiver_pc =
    R_WaitFull | R_WaitMutex | R_Crit | R_PostMutex | R_PostEmpty
  | R_BreakPostMutex | R_BreakPostEmpty | R_SetStatus | R_Done

record ring_sys =
  sem_empty :: nat
  sem_mutex :: nat
  sem_full :: nat
  status :: nat
  s_ind :: nat
  r_ind :: nat
  buf :: bytes
  src_rest :: bytes
  dst :: bytes
  spc :: sender_pc
  rpc :: receiver_pc

text \<open>
  \<open>send\<close>: one operation of the parent. \<open>None\<close> means that it waits, in \<open>semop\<close> or in the final
  loop \<open>while (*status == 0);\<close>. \<open>read\<close> stores one byte at \<open>buf + *snd_pos\<close>, or none at the end.
\<close>

definition send_body :: "ring_sys \<Rightarrow> ring_sys" where
  "send_body s =
     (case src_rest s of
        [] \<Rightarrow> s\<lparr>status := 0\<rparr>
      | b # rest \<Rightarrow>
          s\<lparr>src_rest := rest, buf := (buf s)[s_ind s := b], s_ind := (s_ind s + 1) mod BUF_SZ\<rparr>)"

text \<open>
  The index arithmetic at its width: \<open>read_sz\<close> is a \<open>size_t\<close>, so the -1 of a failing \<open>read\<close> is
  \<open>2 ^ 64 - 1\<close>. The steps of the ring use it for the one byte of a successful \<open>read\<close> only.
\<close>

definition snd_pos_after :: "64 word \<Rightarrow> 64 word \<Rightarrow> 64 word" where
  "snd_pos_after snd_pos read_sz = (snd_pos + read_sz) mod word_of_nat BUF_SZ"

lemma unat_BUF_SZ: "unat (word_of_nat BUF_SZ :: 64 word) = 40"
  by simp

lemma snd_pos_after_byte:
  assumes "i < BUF_SZ"
  shows "unat (snd_pos_after (word_of_nat i) 1) = (i + 1) mod BUF_SZ"
proof -
  have "unat (word_of_nat i + 1 :: 64 word) = i + 1"
    using assms by (simp add: unat_word_ariths unat_of_nat)
  then show ?thesis by (simp add: snd_pos_after_def unat_mod)
qed

text \<open>A failing \<open>read\<close> at the start of the ring skips 15 places; elsewhere it steps back over the last byte.\<close>

lemma snd_pos_after_error:
  assumes "i < BUF_SZ"
  shows "unat (snd_pos_after (word_of_nat i) (-1)) = (if i = 0 then 15 else i - 1)"
proof (cases i)
  case 0
  then show ?thesis by (simp add: snd_pos_after_def unat_mod)
next
  case (Suc k)
  then have "word_of_nat i + -1 = (word_of_nat k :: 64 word)" by simp
  then show ?thesis using Suc assms by (simp add: snd_pos_after_def unat_mod unat_of_nat)
qed

definition send :: "ring_sys \<Rightarrow> ring_sys option" where
  "send s =
     (case spc s of
        S_Loop \<Rightarrow> Some (s\<lparr>spc := (if status s \<noteq> 0 then S_WaitEmpty else S_Spin)\<rparr>)
      | S_WaitEmpty \<Rightarrow> map_option (\<lambda>v. s\<lparr>sem_empty := v, spc := S_WaitMutex\<rparr>) (MySemWait (sem_empty s))
      | S_WaitMutex \<Rightarrow> map_option (\<lambda>v. s\<lparr>sem_mutex := v, spc := S_Crit\<rparr>) (MySemWait (sem_mutex s))
      | S_Crit \<Rightarrow> Some ((send_body s)\<lparr>spc := S_PostMutex\<rparr>)
      | S_PostMutex \<Rightarrow> Some (s\<lparr>sem_mutex := MySemPost (sem_mutex s), spc := S_PostFull\<rparr>)
      | S_PostFull \<Rightarrow> Some (s\<lparr>sem_full := MySemPost (sem_full s), spc := S_Loop\<rparr>)
      | S_Spin \<Rightarrow> if status s = 0 then None else Some (s\<lparr>spc := S_Done\<rparr>)
      | S_Done \<Rightarrow> None)"

text \<open>
  \<open>receive\<close>: the test \<open>(((*status) == 1) + GETVAL != 0) <= 0\<close> ends the loop when the status is
  not 1 and the value of \<open>full\<close> is 0.
\<close>

definition receive_test :: "ring_sys \<Rightarrow> bool" where
  "receive_test s \<longleftrightarrow>
     (if (if status s = 1 then 1 else 0) + int (sem_full s) \<noteq> 0 then 1 else 0) \<le> (0 :: int)"

definition receive_body :: "ring_sys \<Rightarrow> ring_sys" where
  "receive_body s = s\<lparr>dst := dst s @ [buf s ! r_ind s], r_ind := (r_ind s + 1) mod BUF_SZ\<rparr>"

definition receive :: "ring_sys \<Rightarrow> ring_sys option" where
  "receive s =
     (case rpc s of
        R_WaitFull \<Rightarrow> map_option (\<lambda>v. s\<lparr>sem_full := v, rpc := R_WaitMutex\<rparr>) (MySemWait (sem_full s))
      | R_WaitMutex \<Rightarrow> map_option (\<lambda>v. s\<lparr>sem_mutex := v, rpc := R_Crit\<rparr>) (MySemWait (sem_mutex s))
      | R_Crit \<Rightarrow>
          if receive_test s then Some (s\<lparr>rpc := R_BreakPostMutex\<rparr>)
          else Some ((receive_body s)\<lparr>rpc := R_PostMutex\<rparr>)
      | R_PostMutex \<Rightarrow> Some (s\<lparr>sem_mutex := MySemPost (sem_mutex s), rpc := R_PostEmpty\<rparr>)
      | R_PostEmpty \<Rightarrow> Some (s\<lparr>sem_empty := MySemPost (sem_empty s), rpc := R_WaitFull\<rparr>)
      | R_BreakPostMutex \<Rightarrow> Some (s\<lparr>sem_mutex := MySemPost (sem_mutex s), rpc := R_BreakPostEmpty\<rparr>)
      | R_BreakPostEmpty \<Rightarrow> Some (s\<lparr>sem_empty := MySemPost (sem_empty s), rpc := R_SetStatus\<rparr>)
      | R_SetStatus \<Rightarrow> Some (s\<lparr>status := 1, rpc := R_Done\<rparr>)
      | R_Done \<Rightarrow> None)"

definition ring_step :: "ring_sys \<Rightarrow> ring_sys \<Rightarrow> bool" where
  "ring_step s t \<longleftrightarrow> send s = Some t \<or> receive s = Some t"

text \<open>After \<open>SharedMemoryInit\<close>, \<open>SemaphoresInit\<close> and \<open>fork\<close>: the segment's buffer may hold anything.\<close>

definition ring_init :: "bytes \<Rightarrow> bytes \<Rightarrow> ring_sys" where
  "ring_init garbage file =
     \<lparr>sem_empty = BUF_SZ, sem_mutex = 1, sem_full = 0, status = 1, s_ind = 0, r_ind = 0,
      buf = garbage, src_rest = file, dst = [], spc = S_Loop, rpc = R_WaitFull\<rparr>"

text \<open>
  \<open>getaddr\<close> on the results of \<open>ftok\<close>, \<open>shmget\<close> and \<open>shmat\<close>, and \<open>main\<close> up to the fork: the state the
  two processes start in, with the semaphore sets in the kernel.
\<close>

definition getaddr :: "int \<Rightarrow> int \<Rightarrow> int \<Rightarrow> c_error + int" where
  "getaddr key shmid shmptr =
     (if key = -1 then Inl (Exit 1) else if shmid = -1 then Inl (Exit 1)
      else if shmptr = -1 then Inl (Exit 1) else Inr shmptr)"

definition sm_main :: "nat \<Rightarrow> int \<times> int \<times> int \<Rightarrow> (int \<times> bool) \<times> (int \<times> bool) \<times> (int \<times> bool) \<Rightarrow> int \<Rightarrow> bytes \<Rightarrow> bytes \<Rightarrow> sem_table
    \<Rightarrow> c_error + ring_sys \<times> sem_table" where
  "sm_main argc = (\<lambda>(key, shmid, shmptr) (k0, k1, k2) pid garbage file tab.
     if argc \<noteq> 3 then Inl (Exit 1)
     else
       (case getaddr key shmid shmptr of Inl e \<Rightarrow> Inl e | Inr ptr \<Rightarrow>
       (case SemaphoresInit k0 k1 k2 tab of Inl e \<Rightarrow> Inl e | Inr (sem, tab) \<Rightarrow>
        if pid = -1 then Inl (Exit 1) else Inr (ring_init garbage file, tab))))"

definition ring_start :: "bytes \<Rightarrow> ring_sys \<Rightarrow> bool" where
  "ring_start f s \<longleftrightarrow> (\<exists>g. length g = BUF_SZ \<and> s = ring_init g f)"

text \<open>A schedule: \<open>True\<close> lets the parent move, \<open>False\<close> the child.\<close>

fun run_schedule :: "bool list \<Rightarrow> ring_sys \<Rightarrow> ring_sys option" where
  "run_schedule [] s = Some s"
| "run_schedule (p # ps) s =
     (case (if p then send s else receive s) of None \<Rightarrow> None | Some t \<Rightarrow> run_schedule ps t)"

lemma run_schedule_steps: "run_schedule ps s = Some t \<Longrightarrow> ring_step\<^sup>*\<^sup>* s t"
proof (induction ps arbitrary: s)
  case Nil
  then show ?case by simp
next
  case (Cons p ps)
  then obtain u where "(if p then send s else receive s) = Some u" and u: "run_schedule ps u = Some t"
    by (auto split: option.splits)
  then have "ring_step s u" by (auto simp: ring_step_def split: if_splits)
  with Cons.IH [OF u] show ?case by (rule converse_rtranclp_into_rtranclp [rotated])
qed

lemma run_schedule_append:
  "run_schedule (ps @ qs) s = (case run_schedule ps s of None \<Rightarrow> None | Some t \<Rightarrow> run_schedule qs t)"
  by (induction ps arbitrary: s) (auto split: option.splits)


section \<open>The invariant\<close>

text \<open>The \<open>q\<close> bytes of the ring that start at \<open>r\<close>.\<close>

definition ring :: "nat \<Rightarrow> nat \<Rightarrow> bytes \<Rightarrow> bytes" where
  "ring r q b = map (\<lambda>i. b ! ((r + i) mod 40)) [0..<q]"

lemma ring_0 [simp]: "ring r 0 b = []"
  by (simp add: ring_def)

lemma length_ring [simp]: "length (ring r q b) = q"
  by (simp add: ring_def)

lemma ring_store:
  assumes "q < 40" and "length b = 40"
  shows "ring r (Suc q) (b[(r + q) mod 40 := x]) = ring r q b @ [x]"
proof -
  have "(r + i) mod 40 \<noteq> (r + q) mod 40" if "i < q" for i
  proof
    assume "(r + i) mod 40 = (r + q) mod 40"
    then have "40 dvd (r + q) - (r + i)" using that by (metis add_le_mono1 less_imp_le mod_eq_dvd_iff_nat add.commute)
    then show False using that assms(1) by (auto dest: dvd_imp_le)
  qed
  then have "\<forall>i\<in>{0..<q}. b[(r + q) mod 40 := x] ! ((r + i) mod 40) = b ! ((r + i) mod 40)"
    by (metis atLeastLessThan_iff nth_list_update_neq)
  then show ?thesis using assms by (simp add: ring_def)
qed

lemma ring_fetch: "ring r (Suc q) b = b ! (r mod 40) # ring (Suc r) q b"
  by (simp add: ring_def upt_conv_Cons map_Suc_upt [symmetric] del: upt_Suc)

lemma ring_mod: "ring (r mod 40) q b = ring r q b"
  by (simp add: ring_def mod_add_left_eq)

text \<open>Who holds which token of the three semaphores.\<close>

definition s_empty :: "sender_pc \<Rightarrow> nat" where
  "s_empty p = (if p \<in> {S_WaitMutex, S_Crit, S_PostMutex, S_PostFull} then 1 else 0)"

definition s_mutex :: "sender_pc \<Rightarrow> nat" where
  "s_mutex p = (if p \<in> {S_Crit, S_PostMutex} then 1 else 0)"

definition s_full :: "sender_pc \<Rightarrow> nat" where
  "s_full p = (if p \<in> {S_PostMutex, S_PostFull} then 1 else 0)"

definition r_token :: "receiver_pc \<Rightarrow> nat" where
  "r_token p = (if p \<in> {R_WaitFull, R_SetStatus, R_Done} then 0 else 1)"

definition r_mutex :: "receiver_pc \<Rightarrow> nat" where
  "r_mutex p = (if p \<in> {R_Crit, R_PostMutex, R_BreakPostMutex} then 1 else 0)"

definition r_full :: "receiver_pc \<Rightarrow> nat" where
  "r_full p = (if p \<in> {R_WaitMutex, R_Crit} then 1 else 0)"

definition in_loop :: "receiver_pc \<Rightarrow> bool" where
  "in_loop p \<longleftrightarrow> p \<in> {R_WaitFull, R_WaitMutex, R_Crit, R_PostMutex, R_PostEmpty}"

lemmas ring_tokens = s_empty_def s_mutex_def s_full_def r_token_def r_mutex_def r_full_def in_loop_def

definition ring_sems :: "ring_sys \<Rightarrow> bool" where
  "ring_sems s \<longleftrightarrow>
     sem_empty s + sem_full s + s_empty (spc s) + r_token (rpc s) = 40 \<and>
     sem_mutex s + s_mutex (spc s) + r_mutex (rpc s) = 1"

definition ring_status :: "ring_sys \<Rightarrow> bool" where
  "ring_status s \<longleftrightarrow>
     (status s = 0 \<or> status s = 1) \<and>
     (spc s \<in> {S_WaitEmpty, S_WaitMutex, S_Crit} \<longrightarrow> status s = 1) \<and>
     (spc s = S_Spin \<and> rpc s \<noteq> R_Done \<longrightarrow> status s = 0) \<and>
     (spc s = S_Done \<longrightarrow> rpc s = R_Done) \<and>
     (status s = 0 \<longrightarrow> src_rest s = []) \<and>
     (rpc s \<in> {R_BreakPostMutex, R_BreakPostEmpty, R_SetStatus} \<longrightarrow> status s = 0)"

text \<open>
  \<open>q\<close> bytes are in the ring. While the receiver is in its loop the tokens of \<open>full\<close> count them,
  and one more for the end of the file; past the loop at most one byte is left.
\<close>

definition ring_content :: "nat \<Rightarrow> ring_sys \<Rightarrow> bool" where
  "ring_content q s \<longleftrightarrow>
     length (buf s) = 40 \<and> s_ind s = (r_ind s + q) mod 40 \<and> r_ind s < 40 \<and>
     (in_loop (rpc s) \<longrightarrow> q + (1 - status s) = sem_full s + s_full (spc s) + r_full (rpc s)) \<and>
     (\<not> in_loop (rpc s) \<longrightarrow> src_rest s = [] \<and> q \<le> 1)"

definition ring_inv :: "ring_sys \<Rightarrow> bool" where
  "ring_inv s \<longleftrightarrow> ring_sems s \<and> ring_status s \<and> (\<exists>q. ring_content q s)"

text \<open>
  The bytes not yet written: what the ring holds, then what the source file still has. The ring
  holds between 0 and 40 bytes; with equal indices the count of \<open>full\<close> tells empty from full.
\<close>

definition buffered :: "ring_sys \<Rightarrow> nat" where
  "buffered s =
     (if in_loop (rpc s) then sem_full s + s_full (spc s) + r_full (rpc s) - (1 - status s)
      else (s_ind s + 40 - r_ind s) mod 40)"

definition ring_pending :: "ring_sys \<Rightarrow> bytes" where
  "ring_pending s = ring (r_ind s) (buffered s) (buf s) @ src_rest s"

lemma buffered_content: "ring_content q s \<Longrightarrow> buffered s = q"
proof (cases "in_loop (rpc s)")
  case True
  assume "ring_content q s"
  with True have "q + (1 - status s) = sem_full s + s_full (spc s) + r_full (rpc s)"
    by (simp add: ring_content_def)
  then have "sem_full s + s_full (spc s) + r_full (rpc s) - (1 - status s) = q" by arith
  with True show ?thesis by (simp add: buffered_def)
next
  case False
  assume c: "ring_content q s"
  with False have "q \<le> 1" and "r_ind s < 40" and "s_ind s = (r_ind s + q) mod 40"
    by (auto simp: ring_content_def)
  then have "(s_ind s + 40 - r_ind s) mod 40 = q"
    by (cases "q = 0"; cases "r_ind s = 39") (auto simp: le_Suc_eq)
  with False show ?thesis by (simp add: buffered_def)
qed


lemma sender_cases:
  assumes "send s = Some t"
  obtains
    (loop) "spc s = S_Loop" "t = s\<lparr>spc := (if status s \<noteq> 0 then S_WaitEmpty else S_Spin)\<rparr>"
  | (wait_empty) "spc s = S_WaitEmpty" "sem_empty s \<noteq> 0" "t = s\<lparr>sem_empty := sem_empty s - 1, spc := S_WaitMutex\<rparr>"
  | (wait_mutex) "spc s = S_WaitMutex" "sem_mutex s \<noteq> 0" "t = s\<lparr>sem_mutex := sem_mutex s - 1, spc := S_Crit\<rparr>"
  | (eof) "spc s = S_Crit" "src_rest s = []" "t = s\<lparr>status := 0, spc := S_PostMutex\<rparr>"
  | (store) b rest where "spc s = S_Crit" "src_rest s = b # rest"
      "t = s\<lparr>src_rest := rest, buf := (buf s)[s_ind s := b], s_ind := (s_ind s + 1) mod 40, spc := S_PostMutex\<rparr>"
  | (post_mutex) "spc s = S_PostMutex" "t = s\<lparr>sem_mutex := sem_mutex s + 1, spc := S_PostFull\<rparr>"
  | (post_full) "spc s = S_PostFull" "t = s\<lparr>sem_full := sem_full s + 1, spc := S_Loop\<rparr>"
  | (spin) "spc s = S_Spin" "status s \<noteq> 0" "t = s\<lparr>spc := S_Done\<rparr>"
proof (cases "spc s")
  case S_Loop
  with assms show ?thesis by (intro loop) (simp_all add: send_def)
next
  case S_WaitEmpty
  with assms show ?thesis by (intro wait_empty) (simp_all add: send_def MySemWait_def split: if_splits)
next
  case S_WaitMutex
  with assms show ?thesis by (intro wait_mutex) (simp_all add: send_def MySemWait_def split: if_splits)
next
  case S_Crit
  show ?thesis
  proof (cases "src_rest s")
    case Nil
    with S_Crit assms show ?thesis by (intro eof) (simp_all add: send_def send_body_def)
  next
    case (Cons b rest)
    with S_Crit assms show ?thesis by (intro store [of b rest]) (simp_all add: send_def send_body_def)
  qed
next
  case S_PostMutex
  with assms show ?thesis by (intro post_mutex) (simp_all add: send_def MySemPost_def)
next
  case S_PostFull
  with assms show ?thesis by (intro post_full) (simp_all add: send_def MySemPost_def)
next
  case S_Spin
  with assms show ?thesis by (intro spin) (simp_all add: send_def split: if_splits)
next
  case S_Done
  with assms show ?thesis by (simp add: send_def)
qed

lemma receive_test_iff: "receive_test s \<longleftrightarrow> status s \<noteq> 1 \<and> sem_full s = 0"
  by (simp add: receive_test_def)

lemma receiver_cases:
  assumes "receive s = Some t"
  obtains
    (wait_full) "rpc s = R_WaitFull" "sem_full s \<noteq> 0" "t = s\<lparr>sem_full := sem_full s - 1, rpc := R_WaitMutex\<rparr>"
  | (wait_mutex) "rpc s = R_WaitMutex" "sem_mutex s \<noteq> 0" "t = s\<lparr>sem_mutex := sem_mutex s - 1, rpc := R_Crit\<rparr>"
  | (leave) "rpc s = R_Crit" "status s \<noteq> 1" "sem_full s = 0" "t = s\<lparr>rpc := R_BreakPostMutex\<rparr>"
  | (fetch) "rpc s = R_Crit" "status s = 1 \<or> sem_full s \<noteq> 0"
      "t = s\<lparr>dst := dst s @ [buf s ! r_ind s], r_ind := (r_ind s + 1) mod 40, rpc := R_PostMutex\<rparr>"
  | (post_mutex) "rpc s = R_PostMutex" "t = s\<lparr>sem_mutex := sem_mutex s + 1, rpc := R_PostEmpty\<rparr>"
  | (post_empty) "rpc s = R_PostEmpty" "t = s\<lparr>sem_empty := sem_empty s + 1, rpc := R_WaitFull\<rparr>"
  | (leave_mutex) "rpc s = R_BreakPostMutex" "t = s\<lparr>sem_mutex := sem_mutex s + 1, rpc := R_BreakPostEmpty\<rparr>"
  | (leave_empty) "rpc s = R_BreakPostEmpty" "t = s\<lparr>sem_empty := sem_empty s + 1, rpc := R_SetStatus\<rparr>"
  | (set_status) "rpc s = R_SetStatus" "t = s\<lparr>status := 1, rpc := R_Done\<rparr>"
proof (cases "rpc s")
  case R_WaitFull
  with assms show ?thesis by (intro wait_full) (simp_all add: receive_def MySemWait_def split: if_splits)
next
  case R_WaitMutex
  with assms show ?thesis by (intro wait_mutex) (simp_all add: receive_def MySemWait_def split: if_splits)
next
  case R_Crit
  show ?thesis
  proof (cases "receive_test s")
    case True
    with R_Crit assms show ?thesis by (intro leave) (simp_all add: receive_def receive_test_iff)
  next
    case False
    with R_Crit assms show ?thesis
      by (intro fetch) (auto simp: receive_def receive_test_iff receive_body_def)
  qed
next
  case R_PostMutex
  with assms show ?thesis by (intro post_mutex) (simp_all add: receive_def MySemPost_def)
next
  case R_PostEmpty
  with assms show ?thesis by (intro post_empty) (simp_all add: receive_def MySemPost_def)
next
  case R_BreakPostMutex
  with assms show ?thesis by (intro leave_mutex) (simp_all add: receive_def MySemPost_def)
next
  case R_BreakPostEmpty
  with assms show ?thesis by (intro leave_empty) (simp_all add: receive_def MySemPost_def)
next
  case R_SetStatus
  with assms show ?thesis by (intro set_status) (simp_all add: receive_def)
next
  case R_Done
  with assms show ?thesis by (simp add: receive_def)
qed

lemma ring_step_cases:
  assumes "ring_step s t"
  obtains "send s = Some t" | "receive s = Some t"
  using assms by (auto simp: ring_step_def)

text \<open>Every step moves a token, never makes or drops one.\<close>

lemma ring_sems_step:
  assumes "ring_step s t" and "ring_sems s"
  shows "ring_sems t"
  using assms(1)
proof (cases rule: ring_step_cases)
  case 1
  then show ?thesis
    by (cases rule: sender_cases) (use assms(2) in \<open>auto simp: ring_sems_def ring_tokens\<close>)
next
  case 2
  then show ?thesis
    by (cases rule: receiver_cases) (use assms(2) in \<open>auto simp: ring_sems_def ring_tokens\<close>)
qed

lemma ring_status_step:
  assumes "ring_step s t" and "ring_sems s" and "ring_status s"
  shows "ring_status t"
  using assms(1)
proof (cases rule: ring_step_cases)
  case 1
  then show ?thesis
    by (cases rule: sender_cases) (use assms(2,3) in \<open>auto simp: ring_status_def ring_sems_def ring_tokens\<close>)
next
  case 2
  then show ?thesis
    by (cases rule: receiver_cases) (use assms(2,3) in \<open>auto simp: ring_status_def ring_sems_def ring_tokens\<close>)
qed


text \<open>The bytes move from the source to the ring and from the ring to the destination.\<close>

lemma ring_content_move:
  assumes "ring_content q s"
    and "buf t = buf s" "s_ind t = s_ind s" "r_ind t = r_ind s" "src_rest t = src_rest s" "dst t = dst s"
    and "in_loop (rpc t) = in_loop (rpc s)"
    and "in_loop (rpc s) \<Longrightarrow> status t = status s"
    and "sem_full t + s_full (spc t) + r_full (rpc t) = sem_full s + s_full (spc s) + r_full (rpc s)"
  shows "\<exists>q'. ring_content q' t \<and>
    dst t @ ring (r_ind t) q' (buf t) @ src_rest t = dst s @ ring (r_ind s) q (buf s) @ src_rest s"
  using assms by (intro exI [of _ q]) (simp add: ring_content_def)

lemma sender_content:
  assumes "send s = Some t" and "ring_sems s" and "ring_status s" and "ring_content q s"
  shows "\<exists>q'. ring_content q' t \<and>
    dst t @ ring (r_ind t) q' (buf t) @ src_rest t = dst s @ ring (r_ind s) q (buf s) @ src_rest s"
  using assms(1)
proof (cases rule: sender_cases)
  case eof
  then have "status s = 1" using assms(3) by (simp add: ring_status_def)
  with eof assms(4) have "ring_content q t" by (simp add: ring_content_def s_full_def)
  with eof show ?thesis by (intro exI [of _ q]) simp
next
  case (store b rest)
  then have st: "status s = 1" and loop: "in_loop (rpc s)"
    using assms(3,4) by (auto simp: ring_status_def ring_content_def)
  have len: "length (buf s) = 40" and s_ind: "s_ind s = (r_ind s + q) mod 40" and r: "r_ind s < 40"
    and cnt: "q = sem_full s + r_full (rpc s)"
    using assms(4) st loop store(1) by (simp_all add: ring_content_def s_full_def)
  have "sem_full s + 1 + r_token (rpc s) \<le> 40" and "r_full (rpc s) \<le> r_token (rpc s)"
    using assms(2) store(1) by (auto simp: ring_sems_def s_empty_def r_token_def r_full_def)
  then have q: "q < 40" using cnt by linarith
  have "ring_content (Suc q) t"
    using store cnt st loop len r by (simp add: ring_content_def s_full_def s_ind mod_Suc_eq)
  moreover have "ring (r_ind s) (Suc q) (buf t) = ring (r_ind s) q (buf s) @ [b]"
    using ring_store [OF q len, of "r_ind s" b] store(3) s_ind by simp
  ultimately show ?thesis using store by (intro exI [of _ "Suc q"]) simp
qed (rule ring_content_move [OF assms(4)]; simp add: s_full_def)+

lemma receiver_content:
  assumes "receive s = Some t" and "ring_sems s" and "ring_status s" and "ring_content q s"
  shows "\<exists>q'. ring_content q' t \<and>
    dst t @ ring (r_ind t) q' (buf t) @ src_rest t = dst s @ ring (r_ind s) q (buf s) @ src_rest s"
  using assms(1)
proof (cases rule: receiver_cases)
  case fetch
  have cnt: "q + (1 - status s) = sem_full s + s_full (spc s) + 1" and r: "r_ind s < 40"
    and len: "length (buf s) = 40" and s_ind: "s_ind s = (r_ind s + q) mod 40"
    using assms(4) fetch(1) by (simp_all add: ring_content_def in_loop_def r_full_def)
  have "status s = 0 \<or> status s = 1" using assms(3) by (simp add: ring_status_def)
  with cnt fetch(2) have "q \<noteq> 0" by (elim disjE) simp_all
  then obtain k where k: "q = Suc k" by (cases q) auto
  have "(r_ind s + q) mod 40 = (r_ind t + k) mod 40" using fetch(3) k by (simp add: mod_simps)
  then have "ring_content k t"
    using fetch(1,3) cnt len s_ind k by (simp add: ring_content_def in_loop_def r_full_def)
  moreover have "ring (r_ind s) q (buf s) = buf s ! r_ind s # ring ((r_ind s + 1) mod 40) k (buf s)"
    using r ring_fetch [of "r_ind s" k "buf s"] ring_mod [of "Suc (r_ind s)" k "buf s"] k by simp
  ultimately show ?thesis using fetch by (intro exI [of _ k]) simp
next
  case leave
  then have "status s = 0" and "src_rest s = []" using assms(3) by (auto simp: ring_status_def)
  moreover have "q + (1 - status s) = s_full (spc s) + 1" and "length (buf s) = 40"
    and "s_ind s = (r_ind s + q) mod 40" and "r_ind s < 40"
    using assms(4) leave(1,3) by (simp_all add: ring_content_def in_loop_def r_full_def)
  moreover have "s_full (spc s) \<le> 1" by (simp add: s_full_def)
  ultimately have "ring_content q t" using leave(4) by (simp add: ring_content_def in_loop_def)
  with leave show ?thesis by (intro exI [of _ q]) simp
qed (rule ring_content_move [OF assms(4)]; simp add: in_loop_def r_full_def)+

lemma ring_pending_content:
  "ring_content q s \<Longrightarrow> ring_pending s = ring (r_ind s) q (buf s) @ src_rest s"
  by (simp add: ring_pending_def buffered_content)

lemma ring_step_inv:
  assumes "ring_inv s" and "ring_step s t"
  shows "ring_inv t \<and> dst t @ ring_pending t = dst s @ ring_pending s"
proof -
  from assms(1) obtain q where s: "ring_sems s" "ring_status s" "ring_content q s"
    by (auto simp: ring_inv_def)
  with assms(2) have "ring_sems t" and "ring_status t"
    by (auto intro: ring_sems_step ring_status_step)
  moreover from assms(2) s obtain q' where "ring_content q' t" and
    "dst t @ ring (r_ind t) q' (buf t) @ src_rest t = dst s @ ring (r_ind s) q (buf s) @ src_rest s"
    by (cases rule: ring_step_cases) (blast dest: sender_content receiver_content)+
  ultimately show ?thesis using s(3) by (auto simp: ring_inv_def ring_pending_content)
qed

lemma ring_start_content: "ring_start f s \<Longrightarrow> ring_content 0 s"
  by (auto simp: ring_start_def ring_init_def ring_content_def ring_tokens)

lemma ring_start_inv: "ring_start f s \<Longrightarrow> ring_inv s"
  using ring_start_content [of f s]
  by (auto simp: ring_inv_def ring_start_def ring_init_def ring_sems_def ring_status_def ring_tokens)

section \<open>Every run ends\<close>

definition s_weight :: "sender_pc \<Rightarrow> nat" where
  "s_weight p = (case p of S_PostMutex \<Rightarrow> 20 | S_PostFull \<Rightarrow> 19 | S_Loop \<Rightarrow> 7 | S_WaitEmpty \<Rightarrow> 6
     | S_WaitMutex \<Rightarrow> 5 | S_Crit \<Rightarrow> 4 | S_Spin \<Rightarrow> 3 | S_Done \<Rightarrow> 0)"

definition r_weight :: "receiver_pc \<Rightarrow> nat" where
  "r_weight p = (case p of R_WaitMutex \<Rightarrow> 13 | R_Crit \<Rightarrow> 12 | R_PostMutex \<Rightarrow> 10 | R_PostEmpty \<Rightarrow> 9
     | R_WaitFull \<Rightarrow> 4 | R_BreakPostMutex \<Rightarrow> 11 | R_BreakPostEmpty \<Rightarrow> 10 | R_SetStatus \<Rightarrow> 9 | R_Done \<Rightarrow> 0)"

text \<open>
  The parent's turns: one for each byte, one for each time it can find the end of the file,
  which it does again if the child's final \<open>*status = 1\<close> reaches it before it tests the flag.
\<close>

definition ring_work :: "ring_sys \<Rightarrow> nat" where
  "ring_work s =
     20 * (length (src_rest s) + (if rpc s = R_Done then 0 else 1) + status s)
     + s_weight (spc s) + 10 * sem_full s + r_weight (rpc s)"

lemma ring_step_work:
  assumes "ring_inv s" and "ring_step s t"
  shows "ring_work t < ring_work s"
  using assms(2)
proof (cases rule: ring_step_cases)
  case 1
  then show ?thesis
    by (cases rule: sender_cases)
       (use assms(1) in \<open>auto simp: ring_work_def s_weight_def ring_inv_def ring_status_def\<close>)
next
  case 2
  then show ?thesis
    by (cases rule: receiver_cases)
       (use assms(1) in \<open>auto simp: ring_work_def r_weight_def ring_inv_def ring_status_def\<close>)
qed

interpretation ring_transfer: finite_transfer ring_step ring_start dst ring_pending ring_inv ring_work
proof
  show "ring_start f s \<Longrightarrow> dst s @ ring_pending s = f" for f s
    using ring_start_content [of f s]
    by (auto simp: ring_pending_content ring_start_def ring_init_def)
qed (auto intro: ring_start_inv ring_step_work dest: ring_step_inv)

text \<open>As long as the child is in its loop, one of the two can move.\<close>

lemma ring_progress:
  assumes "ring_inv s" and "rpc s \<noteq> R_Done"
  shows "\<exists>t. ring_step s t"
proof (rule ccontr)
  assume "\<nexists>t. ring_step s t"
  then have r: "receive s = None" and se: "send s = None"
    by (auto simp: ring_step_def intro: option.exhaust)
  from assms(1) obtain q where inv: "ring_sems s" "ring_status s" "ring_content q s"
    by (auto simp: ring_inv_def)
  from r assms(2) have "rpc s = R_WaitFull \<and> sem_full s = 0 \<or> rpc s = R_WaitMutex \<and> sem_mutex s = 0"
    by (cases "rpc s") (auto simp: receive_def MySemWait_def split: if_splits)
  moreover from se have "spc s = S_WaitEmpty \<and> sem_empty s = 0 \<or> spc s = S_WaitMutex \<and> sem_mutex s = 0
      \<or> spc s = S_Spin \<and> status s = 0 \<or> spc s = S_Done"
    by (cases "spc s") (auto simp: send_def MySemWait_def split: if_splits)
  ultimately show False
    using inv assms(2) unfolding ring_sems_def ring_status_def ring_content_def ring_tokens
    by (elim disjE conjE) simp_all
qed

end
