(* ===== verification/RingProps.thy ===== *)
theory RingProps
  imports ShmRing
begin

text \<open>
  What the ring of ShmRing achieves: the order of the bytes, mutual exclusion, the undisturbed run and the
  race at its end, the layout of the segment, and the life of the semaphore sets.
\<close>

section \<open>What the transfer achieves\<close>

text \<open>The state at the top of both loops with nothing in the ring.\<close>

definition idle :: "bytes \<Rightarrow> bytes \<Rightarrow> ring_sys \<Rightarrow> bool" where
  "idle rest out s \<longleftrightarrow>
     spc s = S_Loop \<and> rpc s = R_WaitFull \<and> sem_empty s = 40 \<and> sem_mutex s = 1 \<and> sem_full s = 0 \<and>
     status s = 1 \<and> length (buf s) = 40 \<and> s_ind s = r_ind s \<and> r_ind s < 40 \<and>
     src_rest s = rest \<and> dst s = out"

lemmas ring_exec = send_def send_body_def receive_def receive_body_def receive_test_iff
  MySemPost_def MySemWait_def

lemma idle_start: "ring_start f s \<Longrightarrow> idle f [] s"
  by (auto simp: ring_start_def ring_init_def idle_def)

text \<open>One byte goes through: a turn of the parent, then a turn of the child.\<close>

lemma idle_round: "idle (b # rest) out s \<Longrightarrow> \<exists>t. ring_step\<^sup>*\<^sup>* s t \<and> idle rest (out @ [b]) t"
proof -
  assume i: "idle (b # rest) out s"
  let ?sched = "[True, True, True, True, True, True, False, False, False, False, False]"
  let ?t = "s\<lparr>src_rest := rest, buf := (buf s)[s_ind s := b], s_ind := (s_ind s + 1) mod 40,
      dst := out @ [b], r_ind := (r_ind s + 1) mod 40\<rparr>"
  have "run_schedule ?sched s = Some ?t" using i by (simp add: idle_def ring_exec)
  then have "ring_step\<^sup>*\<^sup>* s ?t" by (rule run_schedule_steps)
  moreover have "idle rest (out @ [b]) ?t" using i by (simp add: idle_def)
  ultimately show ?thesis by blast
qed

lemma idle_rounds: "idle (bs @ rest) out s \<Longrightarrow> \<exists>t. ring_step\<^sup>*\<^sup>* s t \<and> idle rest (out @ bs) t"
proof (induction bs arbitrary: out s)
  case Nil
  then show ?case by auto
next
  case (Cons b bs)
  then obtain u where "ring_step\<^sup>*\<^sup>* s u" and "idle (bs @ rest) (out @ [b]) u"
    using idle_round [of b "bs @ rest" out s] by auto
  moreover from Cons.IH [OF this(2)] obtain t where "ring_step\<^sup>*\<^sup>* u t" and "idle rest (out @ b # bs) t"
    by auto
  ultimately show ?case by (meson rtranclp_trans)
qed

text \<open>Throughout a transfer the destination file is a prefix of the source file: no
  interleaving of the two processes reorders, repeats or invents a byte; and the ring indices
  stay inside the buffer.\<close>

theorem ring_output_is_prefix:
  assumes "ring_start f s" and "ring_step\<^sup>*\<^sup>* s t"
  shows "prefix (dst t) f \<and> s_ind t < BUF_SZ \<and> r_ind t < BUF_SZ \<and> length (buf t) = BUF_SZ"
proof -
  from assms have "ring_inv t" by (rule ring_transfer.reach_good)
  then have "s_ind t < BUF_SZ \<and> r_ind t < BUF_SZ \<and> length (buf t) = BUF_SZ"
    by (auto simp: ring_inv_def ring_content_def)
  with ring_transfer.reach_prefix [OF assms] show ?thesis by simp
qed

definition ring_demo :: "bytes \<Rightarrow> ring_sys" where
  "ring_demo f = ring_init (replicate 40 0) f"

lemma ring_demo_start: "ring_start f (ring_demo f)"
  unfolding ring_start_def ring_demo_def by (intro exI [of _ "replicate 40 0"]) simp

lemma ring_demo_run: "run_schedule ps (ring_demo f) = Some t \<Longrightarrow> ring_step\<^sup>*\<^sup>* (ring_demo f) t"
  by (rule run_schedule_steps)

lemma ring_demo_store:
  "run_schedule [True, True, True, True] (ring_demo [7, 9]) =
   Some ((ring_demo [7, 9])\<lparr>sem_empty := 39, sem_mutex := 0, src_rest := [9],
     buf := (replicate 40 0)[0 := 7], s_ind := 1, spc := S_PostMutex\<rparr>)"
  by (simp add: ring_demo_def ring_init_def ring_exec)

theorem ring_output_is_prefix_witness:
  "prefix (dst (ring_demo [7, 9])) [7, 9] \<and> s_ind ((ring_demo [7, 9])\<lparr>sem_empty := 39, sem_mutex := 0,
     src_rest := [9], buf := (replicate 40 0)[0 := 7], s_ind := 1, spc := S_PostMutex\<rparr>) < BUF_SZ"
  using ring_output_is_prefix [OF ring_demo_start ring_demo_run [OF ring_demo_store]]
  by (simp add: ring_demo_def ring_init_def)

text \<open>C15. The semaphores do their work: parent and child are never both in their critical
  sections, a free slot or a filled one is never counted twice, and at most \<open>BUF_SZ\<close> bytes wait
  in the ring.\<close>

theorem ring_mutual_exclusion:
  assumes "ring_start f s" and "ring_step\<^sup>*\<^sup>* s t"
  shows "\<not> (spc t = S_Crit \<and> rpc t = R_Crit) \<and> sem_mutex t \<le> 1 \<and>
    sem_empty t + sem_full t \<le> BUF_SZ \<and> buffered t \<le> BUF_SZ"
proof -
  from assms have "ring_inv t" by (rule ring_transfer.reach_good)
  then obtain q where sems: "ring_sems t" and c: "ring_content q t" by (auto simp: ring_inv_def)
  have "q \<le> 40"
  proof (cases "in_loop (rpc t)")
    case True
    have "s_full (spc t) \<le> s_empty (spc t)" and "r_full (rpc t) \<le> r_token (rpc t)"
      by (simp_all add: ring_tokens)
    then show ?thesis using True sems c unfolding ring_sems_def ring_content_def by linarith
  next
    case False
    then show ?thesis using c by (simp add: ring_content_def)
  qed
  then have "buffered t \<le> BUF_SZ" using buffered_content [OF c] by simp
  then show ?thesis using sems by (auto simp: ring_sems_def ring_tokens)
qed

theorem ring_mutual_exclusion_witness:
  "sem_mutex ((ring_demo [7, 9])\<lparr>sem_empty := 39, sem_mutex := 0, src_rest := [9],
     buf := (replicate 40 0)[0 := 7], s_ind := 1, spc := S_PostMutex\<rparr>) \<le> 1"
  using ring_mutual_exclusion [OF ring_demo_start ring_demo_run [OF ring_demo_store]] by simp

text \<open>Every run of the pair is finite, at most \<open>20 * (length + 2) + 11\<close> operations, and a run that
  can go no further has left the receiving loop: there is no deadlock while the child is in it.\<close>

theorem ring_receiver_finishes:
  assumes "ring_start f s" and "(ring_step ^^ n) s t"
  shows "n \<le> 20 * (length f + 2) + 11 \<and> ((\<forall>u. \<not> ring_step t u) \<longrightarrow> rpc t = R_Done)"
proof -
  have "ring_work s = 20 * (length f + 2) + 11"
    using assms(1) by (auto simp: ring_start_def ring_init_def ring_work_def s_weight_def r_weight_def)
  with ring_transfer.run_bounded [OF assms(2) ring_transfer.start_good [OF assms(1)]]
  show ?thesis using ring_progress [of t] by auto
qed

theorem ring_receiver_finishes_witness:
  "\<exists>n t. (ring_step ^^ n) (ring_demo [7, 9]) t \<and> n \<le> 91 \<and> rpc t = R_Done"
proof -
  obtain n t where "(ring_step ^^ n) (ring_demo [7, 9]) t" and "\<forall>u. \<not> ring_step t u"
    using ring_transfer.run_ends_counted [OF ring_transfer.start_good [OF ring_demo_start]] by blast
  with ring_receiver_finishes [OF ring_demo_start, of n "[7, 9]" t] show ?thesis by auto
qed

text \<open>When the child has left its loop, it has written the whole source file, or all of it but
  the last byte.\<close>

theorem ring_loses_at_most_one_byte:
  assumes "ring_start f s" and "ring_step\<^sup>*\<^sup>* s t" and "rpc t = R_Done"
  shows "dst t = f \<or> dst t = butlast f"
proof -
  from assms(1,2) have "ring_inv t" by (rule ring_transfer.reach_good)
  then obtain q where c: "ring_content q t" by (auto simp: ring_inv_def)
  then have "q \<le> 1" and "src_rest t = []" using assms(3) by (auto simp: ring_content_def in_loop_def)
  moreover have "dst t @ ring_pending t = f" using assms(1,2) by (rule ring_transfer.reach_content)
  ultimately have "length (ring_pending t) \<le> 1" and "dst t @ ring_pending t = f"
    by (simp_all add: ring_pending_content [OF c])
  then show ?thesis by (cases "ring_pending t") auto
qed


text \<open>The undisturbed end of a transfer, and the race at its end.\<close>

lemma idle_finish:
  assumes "idle [] out s"
  shows "\<exists>t. ring_step\<^sup>*\<^sup>* s t \<and> dst t = out \<and> spc t = S_Done \<and> rpc t = R_Done"
proof -
  let ?sched = "[True, True, True, True, True, True, True, False, False, False, False, False, False, True]"
  let ?t = "s\<lparr>status := 1, spc := S_Done, rpc := R_Done\<rparr>"
  have "run_schedule ?sched s = Some ?t"
    using assms by (simp add: idle_def ring_exec)
  then have "ring_step\<^sup>*\<^sup>* s ?t" by (rule run_schedule_steps)
  then show ?thesis using assms by (intro exI [of _ ?t]) (simp add: idle_def)
qed

lemma idle_race:
  assumes "idle [b] out s"
  shows "\<exists>t. ring_step\<^sup>*\<^sup>* s t \<and> dst t = out \<and> spc t = S_Spin \<and> status t = 0 \<and> rpc t = R_Done"
proof -
  let ?sched = "[True, True, True, True, True, True, False, True, True, True, True, True, False, False, False, False, False, True, True, True, True, True, True, True, True]"
  let ?t = "s\<lparr>src_rest := [], buf := (buf s)[s_ind s := b], s_ind := (s_ind s + 1) mod 40,
      sem_empty := 38, sem_full := 2, status := 0, spc := S_Spin, rpc := R_Done\<rparr>"
  have "run_schedule ?sched s = Some ?t"
    using assms by (simp add: idle_def ring_exec)
  then have "ring_step\<^sup>*\<^sup>* s ?t" by (rule run_schedule_steps)
  then show ?thesis using assms by (intro exI [of _ ?t]) (simp add: idle_def)
qed

text \<open>Every file can be transferred whole, with both processes ending.\<close>

theorem ring_can_complete:
  assumes "ring_start f s"
  shows "\<exists>t. ring_step\<^sup>*\<^sup>* s t \<and> dst t = f \<and> spc t = S_Done \<and> rpc t = R_Done"
proof -
  obtain u where "ring_step\<^sup>*\<^sup>* s u" and "idle [] f u"
    using idle_rounds [of f "[]" "[]" s] idle_start [OF assms] by auto
  with idle_finish show ?thesis by (meson rtranclp_trans)
qed

theorem ring_can_complete_witness:
  "\<exists>t. ring_step\<^sup>*\<^sup>* (ring_demo [7, 9]) t \<and> dst t = [7, 9] \<and> spc t = S_Done \<and> rpc t = R_Done"
  by (rule ring_can_complete [OF ring_demo_start])

text \<open>C14. The flag is cleared before the token of the end is posted. A child that has taken the
  token of the last byte and sees the cleared flag leaves without writing that byte: for every
  non-empty file there is a run that ends with all but its last byte written and with the parent
  waiting for the flag for ever.\<close>

theorem ring_last_byte_race:
  assumes "ring_start f s" and "f \<noteq> []"
  shows "\<exists>t. ring_step\<^sup>*\<^sup>* s t \<and> dst t = butlast f \<and> rpc t = R_Done \<and> spc t = S_Spin \<and> (\<forall>u. \<not> ring_step t u)"
proof -
  have "idle (butlast f @ [last f]) [] s" using idle_start [OF assms(1)] assms(2) by simp
  then obtain u where su: "ring_step\<^sup>*\<^sup>* s u" and "idle [last f] (butlast f) u"
    using idle_rounds [of "butlast f" "[last f]" "[]" s] by auto
  from idle_race [OF this(2)] obtain t where "ring_step\<^sup>*\<^sup>* u t" and
    t: "dst t = butlast f" "spc t = S_Spin" "status t = 0" "rpc t = R_Done" by blast
  moreover from t have "\<not> ring_step t v" for v by (simp add: ring_step_def send_def receive_def)
  ultimately show ?thesis using su by (meson rtranclp_trans)
qed

theorem ring_last_byte_race_witness:
  "\<exists>t. ring_step\<^sup>*\<^sup>* (ring_demo [7, 9]) t \<and> dst t = [7] \<and> rpc t = R_Done \<and> spc t = S_Spin
     \<and> (\<forall>u. \<not> ring_step t u)"
  using ring_last_byte_race [OF ring_demo_start, of "[7, 9]"] by simp

lemma ring_demo_empty_run:
  "run_schedule [True, True, True, True, True, True, True, False, False, False, False, False, False, True] (ring_demo []) =
   Some ((ring_demo [])\<lparr>status := 1, spc := S_Done, rpc := R_Done\<rparr>)"
  by (simp add: ring_demo_def ring_init_def ring_exec)

theorem ring_loses_at_most_one_byte_witness:
  "dst ((ring_demo [])\<lparr>status := 1, spc := S_Done, rpc := R_Done\<rparr>) = []"
  using ring_loses_at_most_one_byte [OF ring_demo_start ring_demo_run [OF ring_demo_empty_run]] by simp

text \<open>The layout computed by \<open>SharedMemoryInit\<close>: status, the two indices and the ring do not
  overlap, but pointer arithmetic on \<open>size_t *\<close> puts both indices at or past the end of the
  \<open>SHM_SZ\<close> bytes that were requested.\<close>

theorem shared_memory_layout:
  "\<not> overlap (status_at SharedMemoryInit) 8 (buf_at SharedMemoryInit) BUF_SZ \<and>
   \<not> overlap (s_ind_at SharedMemoryInit) 8 (buf_at SharedMemoryInit) BUF_SZ \<and>
   \<not> overlap (r_ind_at SharedMemoryInit) 8 (buf_at SharedMemoryInit) BUF_SZ \<and>
   \<not> overlap (s_ind_at SharedMemoryInit) 8 (r_ind_at SharedMemoryInit) 8 \<and>
   buf_at SharedMemoryInit + BUF_SZ = SHM_SZ \<and>
   SHM_SZ \<le> s_ind_at SharedMemoryInit \<and> SHM_SZ \<le> r_ind_at SharedMemoryInit"
  by (simp add: SharedMemoryInit_def ptr_add_def overlap_def shm_consts Let_def)

text \<open>\<open>SemaphoresInit\<close> followed by \<open>SemaphoreRemove\<close>: opening gives the three sets their initial
  values whatever an earlier run left in them; removing them leaves all three in the kernel, whatever
  \<open>ftok\<close> and \<open>semget\<close> return then, unless it ends the process.\<close>

lemma MySemRemove_keeps: "MySemRemove key errno ok tab = Inr tab' \<Longrightarrow> k \<noteq> -1 \<Longrightarrow> tab k = Some v \<Longrightarrow> tab' k = Some v"
  by (auto simp: MySemRemove_def semget_def split: if_splits option.splits)

lemma MySemRemove_error: "MySemRemove key errno ok tab = Inl e \<Longrightarrow> e = Exit 1"
  by (auto simp: MySemRemove_def split: if_splits)

lemma SemaphoreRemove_keeps:
  assumes "SemaphoreRemove a b c tab = Inr tab'" and "k \<noteq> -1" and "tab k = Some v"
  shows "tab' k = Some v"
  using assms by (auto simp: SemaphoreRemove_def split: sum.splits prod.splits dest!: MySemRemove_keeps [where k = k])

lemma SemaphoreRemove_error: "SemaphoreRemove a b c tab = Inl e \<Longrightarrow> e = Exit 1"
  by (auto simp: SemaphoreRemove_def split: sum.splits prod.splits dest: MySemRemove_error)

theorem semaphores_stay_in_kernel:
  assumes "distinct [k0, k1, k2]" and "-1 \<notin> {k0, k1, k2}"
  shows "\<exists>tab'. SemaphoresInit (k0, True) (k1, True) (k2, True) tab = Inr ((k0, k1, k2), tab') \<and>
    tab' k0 = Some (int BUF_SZ) \<and> tab' k1 = Some 1 \<and> tab' k2 = Some 0 \<and>
    (\<forall>a b c. case SemaphoreRemove a b c tab' of Inl e \<Rightarrow> e = Exit 1
       | Inr tab'' \<Rightarrow> tab'' k0 = Some (int BUF_SZ) \<and> tab'' k1 = Some 1 \<and> tab'' k2 = Some 0)"
proof -
  obtain tab' where t: "SemaphoresInit (k0, True) (k1, True) (k2, True) tab = Inr ((k0, k1, k2), tab')"
    "tab' k0 = Some (int BUF_SZ)" "tab' k1 = Some 1" "tab' k2 = Some 0"
    using assms by (auto simp: SemaphoresInit_def MySemOpen_def semget_def Let_def split: option.splits)
  moreover have "case SemaphoreRemove a b c tab' of Inl e \<Rightarrow> e = Exit 1
       | Inr tab'' \<Rightarrow> tab'' k0 = Some (int BUF_SZ) \<and> tab'' k1 = Some 1 \<and> tab'' k2 = Some 0" for a b c
    using t assms(2) by (cases "SemaphoreRemove a b c tab'") (auto dest: SemaphoreRemove_error intro: SemaphoreRemove_keeps)
  ultimately show ?thesis by blast
qed

theorem semaphores_stay_in_kernel_witness:
  "\<exists>tab'. SemaphoresInit (5, True) (6, True) (7, True) Map.empty = Inr ((5, 6, 7), tab') \<and> tab' 5 = Some (int BUF_SZ) \<and>
     tab' 6 = Some 1 \<and> tab' 7 = Some 0"
  using semaphores_stay_in_kernel [of 5 6 7 Map.empty] by auto

text \<open>\<open>main\<close> starts the two processes in a state of the ring, with the kernel's semaphores as in it; it
  does so exactly if all the calls before the fork succeed.\<close>

lemma sm_main_starts:
  assumes "distinct [k0, k1, k2]" and "-1 \<notin> {k0, k1, k2}" and "-1 \<notin> {key, shmid, shmptr}" and "pid \<noteq> -1"
    and "length garbage = BUF_SZ"
  shows "\<exists>s tab'. sm_main 3 (key, shmid, shmptr) ((k0, True), (k1, True), (k2, True)) pid garbage f tab = Inr (s, tab') \<and>
    ring_start f s \<and>
    tab' k0 = Some (int (sem_empty s)) \<and> tab' k1 = Some (int (sem_mutex s)) \<and> tab' k2 = Some (int (sem_full s))"
  using assms
  by (auto simp: sm_main_def getaddr_def SemaphoresInit_def MySemOpen_def semget_def Let_def ring_start_def ring_init_def
      split: option.splits)

lemma sm_main_fails:
  "sm_main argc (key, shmid, shmptr) ((k0, ok0), (k1, ok1), (k2, ok2)) pid garbage f tab = Inl e \<longleftrightarrow>
     e = Exit 1 \<and> (argc \<noteq> 3 \<or> -1 \<in> {key, shmid, shmptr, k0, k1, k2, pid} \<or> \<not> (ok0 \<and> ok1 \<and> ok2))"
  by (auto simp: sm_main_def getaddr_def SemaphoresInit_def MySemOpen_def Let_def)

end
