(* ===== verification/RingRun.thy ===== *)
theory RingRun
  imports RingProps
begin

text \<open>
  The whole program of \<open>task3/shr-mem-SYSV/src/sm_main.c\<close> from the fork to the end of both processes:
  \<open>send\<close> and \<open>receive\<close> of ShmRing with the opening of the files before them, and what both processes do
  after their loops. It refines the ring of ShmRing, and its final states are classified.
\<close>

section \<open>The two processes from the fork to their end\<close>

text \<open>
  Where each process is: opening its file, in its loop, the parent waiting for its child, removing the
  semaphores, ended with an exit code, or killed in \<open>fileno(NULL)\<close>.
\<close>

datatype run_pc = Opening | Looping | Waiting | Removing | Ended int | Crashed

record ring_run =
  core :: ring_sys
  par :: run_pc
  chi :: run_pc
  keys :: "int \<times> int \<times> int"

text \<open>The kernel's table of the program's semaphore sets: their values are those the ring works with.\<close>

definition kernel_sets :: "int \<times> int \<times> int \<Rightarrow> ring_sys \<Rightarrow> sem_table" where
  "kernel_sets = (\<lambda>(k0, k1, k2) r.
     [k0 \<mapsto> int (sem_empty r), k1 \<mapsto> int (sem_mutex r), k2 \<mapsto> int (sem_full r)])"

text \<open>
  \<open>SemaphoreRemove\<close> by a process: it goes on to its \<open>return 0\<close> or ends in one of the calls, whatever \<open>ftok\<close>
  and \<open>semget\<close> return. The sets stay as they are (lemma \<open>remove_keeps_sets\<close>), so no step below changes them.
\<close>

inductive remove_sets :: "sem_table \<Rightarrow> run_pc \<Rightarrow> sem_table \<Rightarrow> bool" where
  removed: "SemaphoreRemove a b c tab = Inr tab' \<Longrightarrow> remove_sets tab (Ended 0) tab'"
| remove_failed: "SemaphoreRemove a b c tab = Inl (Exit n) \<Longrightarrow> remove_sets tab (Ended n) tab"

lemma remove_keeps_sets:
  assumes "remove_sets (kernel_sets (k0, k1, k2) r) p tab" and "-1 \<notin> {k0, k1, k2}" and "k \<in> {k0, k1, k2}"
  shows "tab k = kernel_sets (k0, k1, k2) r k"
proof -
  obtain v where v: "kernel_sets (k0, k1, k2) r k = Some v" using assms(3) by (cases "kernel_sets (k0, k1, k2) r k") (auto simp: kernel_sets_def split: if_splits)
  moreover from assms(1) have "tab k = Some v"
    by (cases rule: remove_sets.cases) (use v assms(2,3) in \<open>auto intro: SemaphoreRemove_keeps\<close>)
  ultimately show ?thesis by simp
qed

lemma remove_ends: "remove_sets tab p tab' \<Longrightarrow> p = Ended 0 \<or> p = Ended 1"
  by (auto elim!: remove_sets.cases dest: SemaphoreRemove_error)

lemma remove_can_succeed: "\<exists>tab'. remove_sets tab (Ended 0) tab'"
proof -
  have "\<exists>tab'. SemaphoreRemove (0, 0, True) (0, 0, True) (0, 0, True) tab = Inr tab'"
    by (simp add: SemaphoreRemove_def MySemRemove_def)
  then show ?thesis by (blast intro: removed)
qed

text \<open>
  The steps of the parent (\<open>send\<close>, \<open>wait(NULL)\<close>) and of the child (\<open>receive\<close>), then what both do. The parent's
  \<open>open\<close> can fail; the child's \<open>fopen\<close> can give \<open>NULL\<close>, which \<open>fileno\<close> dereferences. \<open>wait\<close> returns once the
  child has ended, in whatever way.
\<close>

inductive ring_run_step :: "ring_run \<Rightarrow> ring_run \<Rightarrow> bool" where
  par_open: "par s = Opening \<Longrightarrow> ring_run_step s (s\<lparr>par := Looping\<rparr>)"
| par_open_error: "par s = Opening \<Longrightarrow> ring_run_step s (s\<lparr>par := Ended 1\<rparr>)"
| par_send: "par s = Looping \<Longrightarrow> send (core s) = Some r \<Longrightarrow> ring_run_step s (s\<lparr>core := r\<rparr>)"
| par_close: "par s = Looping \<Longrightarrow> spc (core s) = S_Done \<Longrightarrow> ring_run_step s (s\<lparr>par := Waiting\<rparr>)"
| par_wait: "par s = Waiting \<Longrightarrow> chi s = Ended n \<or> chi s = Crashed \<Longrightarrow> ring_run_step s (s\<lparr>par := Removing\<rparr>)"
| par_remove: "par s = Removing \<Longrightarrow> remove_sets (kernel_sets (keys s) (core s)) p tab \<Longrightarrow> ring_run_step s (s\<lparr>par := p\<rparr>)"
| chi_open: "chi s = Opening \<Longrightarrow> ring_run_step s (s\<lparr>chi := Looping\<rparr>)"
| chi_open_error: "chi s = Opening \<Longrightarrow> ring_run_step s (s\<lparr>chi := Crashed\<rparr>)"
| chi_receive: "chi s = Looping \<Longrightarrow> receive (core s) = Some r \<Longrightarrow> ring_run_step s (s\<lparr>core := r\<rparr>)"
| chi_close: "chi s = Looping \<Longrightarrow> rpc (core s) = R_Done \<Longrightarrow> ring_run_step s (s\<lparr>chi := Removing\<rparr>)"
| chi_remove: "chi s = Removing \<Longrightarrow> remove_sets (kernel_sets (keys s) (core s)) p tab \<Longrightarrow> ring_run_step s (s\<lparr>chi := p\<rparr>)"

definition ring_run_start :: "bytes \<Rightarrow> ring_run \<Rightarrow> bool" where
  "ring_run_start f s \<longleftrightarrow> ring_start f (core s) \<and> par s = Opening \<and> chi s = Opening"

section \<open>It refines the ring\<close>

lemma ring_run_refines: "ring_run_step s t \<Longrightarrow> ring_step\<^sup>*\<^sup>* (core s) (core t)"
  by (induction rule: ring_run_step.induct) (auto simp: ring_step_def)

lemma ring_run_core: "ring_run_step\<^sup>*\<^sup>* s t \<Longrightarrow> ring_step\<^sup>*\<^sup>* (core s) (core t)"
  by (induction rule: rtranclp_induct) (auto dest: ring_run_refines)

text \<open>Once the child has left its loop the parent posts at most twice more.\<close>

definition ring_tail :: "ring_sys \<Rightarrow> bool" where
  "ring_tail r \<longleftrightarrow> in_loop (rpc r) \<or> sem_full r + s_full (spc r) + status r \<le> (if rpc r = R_Done then 2 else 1)"

lemma ring_tail_step:
  assumes "ring_step r r'" and "ring_inv r" and "ring_tail r"
  shows "ring_tail r'"
  using assms(1)
proof (cases rule: ring_step_cases)
  case 1
  then show ?thesis
    by (cases rule: sender_cases)
       (use assms(2,3) in \<open>auto simp: ring_tail_def ring_inv_def ring_status_def ring_content_def ring_tokens split: if_splits\<close>)
next
  case 2
  then show ?thesis
    by (cases rule: receiver_cases)
       (use assms(2,3) in \<open>auto simp: ring_tail_def ring_inv_def ring_status_def ring_content_def ring_tokens split: if_splits\<close>)
qed

text \<open>Where each process is tells where it is in its loop; before the parent's loop nothing happens in the ring.\<close>

definition run_inv :: "bytes \<Rightarrow> ring_run \<Rightarrow> bool" where
  "run_inv f s \<longleftrightarrow> ring_inv (core s) \<and> ring_tail (core s) \<and> dst (core s) @ ring_pending (core s) = f \<and>
     (par s = Opening \<longrightarrow> idle f [] (core s)) \<and>
     (\<forall>n. par s = Ended n \<longrightarrow> n = 1 \<and> idle f [] (core s) \<or> (n = 0 \<or> n = 1) \<and> spc (core s) = S_Done) \<and>
     (par s = Waiting \<or> par s = Removing \<longrightarrow> spc (core s) = S_Done) \<and> par s \<noteq> Crashed \<and>
     (chi s = Opening \<or> chi s = Crashed \<longrightarrow> rpc (core s) = R_WaitFull \<and> dst (core s) = []) \<and>
     (chi s = Removing \<longrightarrow> rpc (core s) = R_Done) \<and>
     (\<forall>n. chi s = Ended n \<longrightarrow> (n = 0 \<or> n = 1) \<and> rpc (core s) = R_Done) \<and> chi s \<noteq> Waiting"

lemma ring_run_start_inv: "ring_run_start f s \<Longrightarrow> run_inv f s"
  using idle_start [of f "core s"] ring_start_inv [of f "core s"] ring_transfer.start_content [of f "core s"]
  by (auto simp: ring_run_start_def run_inv_def ring_tail_def idle_def ring_tokens)

lemma idle_child_waits: "idle f [] r \<Longrightarrow> receive r = None"
  by (simp add: idle_def receive_def MySemWait_def)

lemma sender_child_still: "send r = Some r' \<Longrightarrow> rpc r' = rpc r \<and> dst r' = dst r"
  by (erule sender_cases) simp_all

lemma receiver_parent_still: "receive r = Some r' \<Longrightarrow> spc r' = spc r"
  by (erule receiver_cases) simp_all

lemma ring_run_step_inv:
  assumes "ring_run_step s t" and "run_inv f s"
  shows "run_inv f t"
proof -
  have core: "ring_step (core s) r \<Longrightarrow> ring_inv r \<and> ring_tail r \<and> dst r @ ring_pending r = f" for r
    using assms(2) ring_step_inv [of "core s" r] ring_tail_step [of "core s" r] by (auto simp: run_inv_def)
  show ?thesis using assms(1)
  proof cases
    case (par_send r)
    then have "ring_step (core s) r" by (simp add: ring_step_def)
    with core [OF this] sender_child_still [OF par_send(3)] par_send assms(2) show ?thesis
      by (auto simp: run_inv_def)
  next
    case (chi_receive r)
    then have "ring_step (core s) r" by (simp add: ring_step_def)
    with core [OF this] receiver_parent_still [OF chi_receive(3)] idle_child_waits [of f "core s"] chi_receive assms(2)
    show ?thesis by (auto simp: run_inv_def)
  qed (use assms(2) in \<open>auto simp: run_inv_def dest: remove_ends\<close>)
qed

section \<open>Every run ends\<close>

definition run_weight :: "run_pc \<Rightarrow> nat" where
  "run_weight p = (case p of Opening \<Rightarrow> 4 | Looping \<Rightarrow> 3 | Waiting \<Rightarrow> 2 | Removing \<Rightarrow> 1 | Ended n \<Rightarrow> 0 | Crashed \<Rightarrow> 0)"

definition run_work :: "ring_run \<Rightarrow> nat" where
  "run_work s = ring_work (core s) + run_weight (par s) + run_weight (chi s)"

lemma ring_run_step_work:
  assumes "run_inv f s" and "ring_run_step s t"
  shows "run_work t < run_work s"
proof -
  have core: "ring_step (core s) r \<Longrightarrow> ring_work r < ring_work (core s)" for r
    using assms(1) ring_step_work by (auto simp: run_inv_def)
  show ?thesis using assms(2)
    by cases (auto simp: run_work_def run_weight_def ring_step_def intro: core dest!: remove_ends)
qed

interpretation ring_program: bounded_run ring_run_step "run_inv f" run_work
  by unfold_locales (blast intro: ring_run_step_inv, blast intro: ring_run_step_work)

section \<open>How a run can end\<close>

text \<open>Where a process stands that cannot go on.\<close>

lemma sender_stuck:
  "send r = None \<longleftrightarrow> spc r = S_WaitEmpty \<and> sem_empty r = 0 \<or> spc r = S_WaitMutex \<and> sem_mutex r = 0 \<or>
     spc r = S_Spin \<and> status r = 0 \<or> spc r = S_Done"
  by (cases "spc r") (auto simp: send_def MySemWait_def)

lemma receiver_stuck:
  "receive r = None \<longleftrightarrow> rpc r = R_WaitFull \<and> sem_full r = 0 \<or> rpc r = R_WaitMutex \<and> sem_mutex r = 0 \<or> rpc r = R_Done"
  by (cases "rpc r") (auto simp: receive_def MySemWait_def)

lemma run_parent_stuck:
  assumes "\<forall>u. \<not> ring_run_step s u"
  shows "par s = Looping \<and> send (core s) = None \<and> spc (core s) \<noteq> S_Done \<or>
    par s = Waiting \<and> chi s \<noteq> Crashed \<and> (\<forall>n. chi s \<noteq> Ended n) \<or> (\<exists>n. par s = Ended n) \<or> par s = Crashed"
proof (cases "par s")
  case Opening
  with assms show ?thesis by (blast intro: par_open)
next
  case Looping
  have "send (core s) = None" using assms par_send [OF Looping] by (cases "send (core s)") auto
  moreover have "spc (core s) \<noteq> S_Done" using assms par_close [OF Looping] by blast
  ultimately show ?thesis using Looping by simp
next
  case Waiting
  with assms show ?thesis by (blast intro: par_wait)
next
  case Removing
  with assms remove_can_succeed show ?thesis by (blast intro: par_remove)
qed simp_all

lemma run_child_stuck:
  assumes "\<forall>u. \<not> ring_run_step s u"
  shows "chi s = Looping \<and> receive (core s) = None \<and> rpc (core s) \<noteq> R_Done \<or>
    (\<exists>n. chi s = Ended n) \<or> chi s = Crashed \<or> chi s = Waiting"
proof (cases "chi s")
  case Opening
  with assms show ?thesis by (blast intro: chi_open)
next
  case Looping
  have "receive (core s) = None" using assms chi_receive [OF Looping] by (cases "receive (core s)") auto
  moreover have "rpc (core s) \<noteq> R_Done" using assms chi_close [OF Looping] by blast
  ultimately show ?thesis using Looping by simp
next
  case Removing
  with assms remove_can_succeed show ?thesis by (blast intro: chi_remove)
qed simp_all

text \<open>What the child has written when it is past its loop, and where the parent stands if the child never began.\<close>

lemma receiver_done_content:
  assumes "ring_inv r" and "dst r @ ring_pending r = f" and "rpc r = R_Done"
  shows "dst r = f \<or> dst r = butlast f"
proof -
  from assms(1) obtain q where c: "ring_content q r" by (auto simp: ring_inv_def)
  with assms(3) have "q \<le> 1" and "src_rest r = []" by (auto simp: ring_content_def in_loop_def)
  then have "length (ring_pending r) \<le> 1" by (simp add: ring_pending_content [OF c])
  with assms(2) show ?thesis by (cases "ring_pending r") auto
qed

lemma parent_alone_stuck:
  assumes "ring_inv r" and "dst r = []" and "ring_pending r = f" and "rpc r = R_WaitFull"
    and "send r = None" and "spc r \<noteq> S_Done"
  shows "spc r = (if BUF_SZ \<le> length f then S_WaitEmpty else S_Spin)"
proof -
  from assms(1) obtain q where inv: "ring_sems r" "ring_status r" and c: "ring_content q r" by (auto simp: ring_inv_def)
  have len: "length f = q + length (src_rest r)" using assms(3) by (auto simp: ring_pending_content [OF c])
  from assms(5,6) sender_stuck [of r] consider
      (full) "spc r = S_WaitEmpty" "sem_empty r = 0" | (mutex) "spc r = S_WaitMutex" "sem_mutex r = 0"
    | (spin) "spc r = S_Spin" "status r = 0" by auto
  then show ?thesis
  proof cases
    case full
    then show ?thesis using inv c len assms(4) by (auto simp: ring_sems_def ring_status_def ring_content_def ring_tokens)
  next
    case mutex
    then show ?thesis using inv assms(4) by (auto simp: ring_sems_def ring_tokens)
  next
    case spin
    then show ?thesis using inv c len assms(4) by (auto simp: ring_sems_def ring_status_def ring_content_def ring_tokens)
  qed
qed

text \<open>After the child has left its loop the parent can only be held up by the flag.\<close>

lemma parent_left_stuck:
  assumes "ring_inv r" and "ring_tail r" and "rpc r = R_Done" and "send r = None" and "spc r \<noteq> S_Done"
  shows "spc r = S_Spin"
  using assms(4,5) sender_stuck [of r] assms(1,2,3)
  by (auto simp: ring_inv_def ring_sems_def ring_tail_def ring_tokens)

text \<open>
  The ends of a run: both processes end; the child ends and the parent waits for the flag for ever; the
  parent could not open the source and the child, if it did not crash, waits for ever; the child crashed
  and the parent waits, for a free slot if the file fills the ring, else for the flag.
\<close>

definition run_outcome :: "bytes \<Rightarrow> ring_run \<Rightarrow> bool" where
  "run_outcome f t \<longleftrightarrow>
     par t \<in> {Ended 0, Ended 1} \<and> chi t \<in> {Ended 0, Ended 1} \<and> dst (core t) \<in> {f, butlast f} \<or>
     par t = Looping \<and> spc (core t) = S_Spin \<and> chi t \<in> {Ended 0, Ended 1} \<and> dst (core t) \<in> {f, butlast f} \<or>
     par t = Ended 1 \<and> chi t \<in> {Looping, Crashed} \<and> dst (core t) = [] \<or>
     par t = Looping \<and> spc (core t) = (if BUF_SZ \<le> length f then S_WaitEmpty else S_Spin) \<and>
       chi t = Crashed \<and> dst (core t) = []"

lemma run_stuck_outcome:
  assumes inv: "run_inv f t" and stuck: "\<forall>u. \<not> ring_run_step t u"
  shows "run_outcome f t"
proof -
  have ring: "ring_inv (core t)" "ring_tail (core t)" "dst (core t) @ ring_pending (core t) = f"
    and par_ended: "\<And>n. par t = Ended n \<Longrightarrow> n = 1 \<and> idle f [] (core t) \<or> (n = 0 \<or> n = 1) \<and> spc (core t) = S_Done"
    and chi_ended: "\<And>n. chi t = Ended n \<Longrightarrow> (n = 0 \<or> n = 1) \<and> rpc (core t) = R_Done"
    and wait: "par t = Waiting \<Longrightarrow> spc (core t) = S_Done" "par t \<noteq> Crashed" "chi t \<noteq> Waiting"
    and crash: "chi t = Crashed \<Longrightarrow> rpc (core t) = R_WaitFull \<and> dst (core t) = []"
    using inv unfolding run_inv_def by blast+
  have fin: "spc (core t) = S_Done \<Longrightarrow> rpc (core t) = R_Done"
    using ring(1) by (simp add: ring_inv_def ring_status_def)
  have par: "par t = Looping \<and> send (core t) = None \<and> spc (core t) \<noteq> S_Done \<or>
      par t = Waiting \<and> chi t \<noteq> Crashed \<and> (\<forall>n. chi t \<noteq> Ended n) \<or> (\<exists>n. par t = Ended n)"
    using run_parent_stuck [OF stuck] wait(2) by auto
  consider (loop) "chi t = Looping" "receive (core t) = None" "rpc (core t) \<noteq> R_Done"
    | (ended) j where "chi t = Ended j" | (crashed) "chi t = Crashed"
    using run_child_stuck [OF stuck] wait(3) by (elim disjE exE conjE) auto
  then show ?thesis
  proof cases
    case loop
    with ring_progress [OF ring(1)] have "send (core t) \<noteq> None" by (auto simp: ring_step_def)
    with par loop fin wait par_ended have "par t = Ended 1" and "idle f [] (core t)" by auto
    with loop show ?thesis by (simp add: run_outcome_def idle_def)
  next
    case (ended j)
    then have j: "chi t \<in> {Ended 0, Ended 1}" and r: "rpc (core t) = R_Done" using chi_ended by auto
    then have d: "dst (core t) \<in> {f, butlast f}" using receiver_done_content [OF ring(1,3)] by simp
    from par ended consider "par t = Looping" "send (core t) = None" "spc (core t) \<noteq> S_Done" | i where "par t = Ended i" by auto
    then show ?thesis
    proof cases
      case 1
      then show ?thesis using parent_left_stuck [OF ring(1,2) r] j d by (simp add: run_outcome_def)
    next
      case (2 i)
      then have "par t \<in> {Ended 0, Ended 1}" using par_ended by auto
      then show ?thesis using j d by (simp add: run_outcome_def)
    qed
  next
    case crashed
    then have r: "rpc (core t) = R_WaitFull" "dst (core t) = []" using crash by simp_all
    with ring have p: "ring_pending (core t) = f" by simp
    from par crashed consider "par t = Looping" "send (core t) = None" "spc (core t) \<noteq> S_Done" | i where "par t = Ended i" by auto
    then show ?thesis
    proof cases
      case 1
      then show ?thesis using parent_alone_stuck [OF ring(1) r(2) p r(1)] crashed r by (simp add: run_outcome_def)
    next
      case (2 i)
      then have "par t = Ended 1" using par_ended fin r by auto
      then show ?thesis using crashed r by (simp add: run_outcome_def)
    qed
  qed
qed

text \<open>C16. Every run of the whole program is finite, at most \<open>20 * (length + 2) + 19\<close> steps, and a run
  that can go no further ends in one of the four ways above: a child that got to its loop is not left in
  it unless the parent could not open the source, and what it has written is the file, the file without
  its last byte, or nothing.\<close>

theorem ring_program_outcomes:
  assumes "ring_run_start f s" and "(ring_run_step ^^ n) s t"
  shows "n \<le> 20 * (length f + 2) + 19 \<and> ((\<forall>u. \<not> ring_run_step t u) \<longrightarrow> run_outcome f t)"
proof -
  have "run_work s = 20 * (length f + 2) + 19"
    using assms(1) by (auto simp: ring_run_start_def ring_start_def ring_init_def run_work_def ring_work_def
        s_weight_def r_weight_def run_weight_def)
  with ring_program.run_bounded [OF assms(2) ring_run_start_inv [OF assms(1)]] run_stuck_outcome [of f t]
  show ?thesis by auto
qed

definition ring_run_demo :: "bytes \<Rightarrow> ring_run" where
  "ring_run_demo f = \<lparr>core = ring_demo f, par = Opening, chi = Opening, keys = (5, 6, 7)\<rparr>"

lemma ring_run_demo_start: "ring_run_start f (ring_run_demo f)"
  by (simp add: ring_run_start_def ring_run_demo_def ring_demo_start)

theorem ring_program_outcomes_witness:
  "\<exists>n t. (ring_run_step ^^ n) (ring_run_demo [7, 9]) t \<and> n \<le> 99 \<and> run_outcome [7, 9] t"
proof -
  obtain n t where "(ring_run_step ^^ n) (ring_run_demo [7, 9]) t" and "\<forall>u. \<not> ring_run_step t u"
    using ring_program.run_ends_counted [OF ring_run_start_inv [OF ring_run_demo_start]] by blast
  with ring_program_outcomes [OF ring_run_demo_start, of n "[7, 9]" t] show ?thesis by auto
qed

section \<open>Every end of the ring is an end of the program\<close>

lemma ring_run_lift:
  assumes "ring_step\<^sup>*\<^sup>* (core s) r" and "par s = Looping" and "chi s = Looping"
  shows "ring_run_step\<^sup>*\<^sup>* s (s\<lparr>core := r\<rparr>)"
  using assms(1)
proof (induction rule: rtranclp_induct)
  case base
  then show ?case by simp
next
  case (step r r')
  have "ring_run_step (s\<lparr>core := r\<rparr>) (s\<lparr>core := r'\<rparr>)"
    using step.hyps(2) par_send [of "s\<lparr>core := r\<rparr>" r'] chi_receive [of "s\<lparr>core := r\<rparr>" r'] assms(2,3)
    by (auto simp: ring_step_def)
  with step.IH show ?case by (rule rtranclp.rtrancl_into_rtrancl)
qed

lemma ring_run_enter:
  assumes "ring_run_start f s" and "ring_step\<^sup>*\<^sup>* (core s) r"
  shows "ring_run_step\<^sup>*\<^sup>* s (s\<lparr>core := r, par := Looping, chi := Looping\<rparr>)"
proof -
  let ?s = "s\<lparr>par := Looping, chi := Looping\<rparr>"
  have "ring_run_step s (s\<lparr>par := Looping\<rparr>)" and "ring_run_step (s\<lparr>par := Looping\<rparr>) ?s"
    using assms(1) par_open [of s] chi_open [of "s\<lparr>par := Looping\<rparr>"] by (simp_all add: ring_run_start_def)
  moreover have "ring_run_step\<^sup>*\<^sup>* ?s (?s\<lparr>core := r\<rparr>)" using assms(2) by (intro ring_run_lift) simp_all
  moreover have "?s\<lparr>core := r\<rparr> = s\<lparr>core := r, par := Looping, chi := Looping\<rparr>" by simp
  ultimately show ?thesis by (metis converse_rtranclp_into_rtranclp)
qed

text \<open>Every file can be copied whole, with both processes returning 0.\<close>

lemma ring_program_can_complete:
  assumes "ring_run_start f s"
  shows "\<exists>t. ring_run_step\<^sup>*\<^sup>* s t \<and> dst (core t) = f \<and> par t = Ended 0 \<and> chi t = Ended 0"
proof -
  obtain r where "ring_step\<^sup>*\<^sup>* (core s) r" and r: "dst r = f" "spc r = S_Done" "rpc r = R_Done"
    using ring_can_complete assms by (auto simp: ring_run_start_def)
  let ?s = "\<lambda>p c. s\<lparr>core := r, par := p, chi := c\<rparr>"
  have "ring_run_step\<^sup>*\<^sup>* s (?s Looping Looping)" by (rule ring_run_enter) fact+
  also have "ring_run_step (?s Looping Looping) (?s Looping Removing)"
    using chi_close [of "?s Looping Looping"] r by (cases s) simp
  also have "ring_run_step (?s Looping Removing) (?s Looping (Ended 0))"
    using chi_remove [of "?s Looping Removing" "Ended 0"] remove_can_succeed by (cases s) auto
  also have "ring_run_step (?s Looping (Ended 0)) (?s Waiting (Ended 0))"
    using par_close [of "?s Looping (Ended 0)"] r by (cases s) simp
  also have "ring_run_step (?s Waiting (Ended 0)) (?s Removing (Ended 0))"
    using par_wait [of "?s Waiting (Ended 0)"] by (cases s) simp
  also have "ring_run_step (?s Removing (Ended 0)) (?s (Ended 0) (Ended 0))"
    using par_remove [of "?s Removing (Ended 0)" "Ended 0"] remove_can_succeed by (cases s) auto
  finally show ?thesis using r by (intro exI [of _ "?s (Ended 0) (Ended 0)"]) simp
qed

text \<open>A parent that cannot open the source leaves a child that waits for ever.\<close>

lemma ring_program_orphan:
  assumes "ring_run_start f s"
  shows "\<exists>t. ring_run_step\<^sup>*\<^sup>* s t \<and> par t = Ended 1 \<and> chi t = Looping \<and> dst (core t) = [] \<and> (\<forall>u. \<not> ring_run_step t u)"
proof -
  let ?t = "s\<lparr>par := Ended 1, chi := Looping\<rparr>"
  have "ring_run_step s (s\<lparr>par := Ended 1\<rparr>)" and "ring_run_step (s\<lparr>par := Ended 1\<rparr>) ?t"
    using assms par_open_error [of s] chi_open [of "s\<lparr>par := Ended 1\<rparr>"] by (simp_all add: ring_run_start_def)
  then have "ring_run_step\<^sup>*\<^sup>* s ?t" by (meson r_into_rtranclp rtranclp_trans)
  moreover have "idle f [] (core s)" using assms by (auto simp: ring_run_start_def intro: idle_start)
  then have "\<not> ring_run_step ?t u" for u
    using idle_child_waits [of f "core s"] by (auto elim!: ring_run_step.cases simp: idle_def)
  ultimately show ?thesis using \<open>idle f [] (core s)\<close> by (intro exI [of _ ?t]) (simp add: idle_def)
qed

end
