(* ===== verification/Signals.thy ===== *)
theory Signals
  imports FileTransfer
begin

text \<open>
  The transfer by signals (\<open>task5/sig-transf\<close>): \<open>st_main.c\<close>. The child reads the source and sends
  every byte as eight signals, most significant bit first, \<open>SIGUSR1\<close> for 1 and \<open>SIGUSR2\<close> for 0,
  waiting for \<open>SIGUSR1\<close> from the parent after each; the parent's handlers collect the byte and
  its main loop writes it. The signals are blocked except during \<open>sigsuspend\<close>: a signal sent
  earlier is pending, a signal of a kind already pending is not counted twice, and one
  \<open>sigsuspend\<close> runs one handler. An alarm of one second, renewed with every byte, ends the
  child if the parent is too slow; here it may fire at any moment once it is set.
\<close>

unbundle bit_operations_syntax

section \<open>The state\<close>

datatype child_pc = Tx_Open | Tx_Read | Tx_Bit | Tx_Suspend | Tx_Exit

datatype parent_pc = Rx_Open | Rx_Loop | Rx_Suspend | Rx_Exit | Rx_Fault

record sig_sys =
  child :: child_pc
  parent :: parent_pc
  tx_rest :: bytes
  tx_c :: byte
  tx_i :: nat
  alive :: bool
  alarm_set :: bool
  gave_up :: bool
  usr1 :: bool
  usr2 :: bool
  chld :: bool
  ack :: bool
  fout_ok :: bool
  out_char :: nat
  counter :: nat
  rx_out :: bytes

text \<open>
  \<open>usr1\<close>, \<open>usr2\<close> and \<open>chld\<close> are the signals pending for the parent, \<open>ack\<close> the \<open>SIGUSR1\<close> pending for the
  child; \<open>fout_ok\<close> tells whether \<open>fopen\<close> gave a stream, \<open>gave_up\<close> records that the child ended before the
  end of the source file.
\<close>

section \<open>The handlers and the loop bodies\<close>

definition GotOne :: "sig_sys \<Rightarrow> sig_sys" where
  "GotOne s = s\<lparr>out_char := out_char s + counter s, counter := counter s div 2, ack := True\<rparr>"

definition GotZero :: "sig_sys \<Rightarrow> sig_sys" where
  "GotZero s = s\<lparr>counter := counter s div 2, ack := True\<rparr>"

text \<open>\<open>i & c\<close>, with the \<open>char\<close> sign-extended to \<open>int\<close>.\<close>

definition bit_test :: "nat \<Rightarrow> byte \<Rightarrow> bool" where
  "bit_test i c \<longleftrightarrow> ((of_nat i :: 32 word) AND scast c) \<noteq> 0"

text \<open>The \<open>kill\<close> of the child's inner loop.\<close>

definition send_bit :: "sig_sys \<Rightarrow> sig_sys" where
  "send_bit s = (if bit_test (tx_i s) (tx_c s) then s\<lparr>usr1 := True\<rparr> else s\<lparr>usr2 := True\<rparr>)"

text \<open>The parent's loop up to \<open>sigsuspend\<close>: \<open>write(fileno(fout), &out_char, 1)\<close> stores the low byte.\<close>

definition flush_byte :: "sig_sys \<Rightarrow> sig_sys" where
  "flush_byte s =
     (if counter s = 0
      then s\<lparr>rx_out := rx_out s @ [of_nat (out_char s)], counter := 128, out_char := 0\<rparr> else s)"

section \<open>The steps\<close>

inductive child_step :: "sig_sys \<Rightarrow> sig_sys \<Rightarrow> bool" where
  t_open: "child s = Tx_Open \<Longrightarrow> alive s \<Longrightarrow> child_step s (s\<lparr>child := Tx_Read\<rparr>)"
| t_open_fail: "child s = Tx_Open \<Longrightarrow> alive s \<Longrightarrow>
     child_step s (s\<lparr>child := Tx_Exit, alive := False, gave_up := True, chld := True\<rparr>)"
| t_read: "child s = Tx_Read \<Longrightarrow> alive s \<Longrightarrow> tx_rest s = b # rest \<Longrightarrow>
     child_step s (s\<lparr>tx_c := b, tx_rest := rest, alarm_set := True, tx_i := 128, child := Tx_Bit\<rparr>)"
| t_eof: "child s = Tx_Read \<Longrightarrow> alive s \<Longrightarrow> tx_rest s = [] \<Longrightarrow>
     child_step s (s\<lparr>child := Tx_Exit, alive := False, chld := True\<rparr>)"
| t_bit: "child s = Tx_Bit \<Longrightarrow> alive s \<Longrightarrow> 1 \<le> tx_i s \<Longrightarrow>
     child_step s ((send_bit s)\<lparr>child := Tx_Suspend\<rparr>)"
| t_next: "child s = Tx_Bit \<Longrightarrow> alive s \<Longrightarrow> \<not> 1 \<le> tx_i s \<Longrightarrow> child_step s (s\<lparr>child := Tx_Read\<rparr>)"
| t_ack: "child s = Tx_Suspend \<Longrightarrow> alive s \<Longrightarrow> ack s \<Longrightarrow>
     child_step s (s\<lparr>ack := False, tx_i := tx_i s div 2, child := Tx_Bit\<rparr>)"
| t_alarm: "alarm_set s \<Longrightarrow> alive s \<Longrightarrow> child_step s (s\<lparr>alive := False, gave_up := True, chld := True\<rparr>)"

text \<open>
  A stream that could not be opened is \<open>NULL\<close>; the parent notices when it has a byte to write, in
  \<open>fileno(fout)\<close>.
\<close>

inductive parent_step :: "sig_sys \<Rightarrow> sig_sys \<Rightarrow> bool" where
  p_open: "parent s = Rx_Open \<Longrightarrow> parent_step s (s\<lparr>parent := Rx_Loop\<rparr>)"
| p_open_fail: "parent s = Rx_Open \<Longrightarrow> parent_step s (s\<lparr>fout_ok := False, parent := Rx_Loop\<rparr>)"
| p_loop: "parent s = Rx_Loop \<Longrightarrow> counter s \<noteq> 0 \<or> fout_ok s \<Longrightarrow> parent_step s ((flush_byte s)\<lparr>parent := Rx_Suspend\<rparr>)"
| p_fault: "parent s = Rx_Loop \<Longrightarrow> counter s = 0 \<Longrightarrow> \<not> fout_ok s \<Longrightarrow> parent_step s (s\<lparr>parent := Rx_Fault\<rparr>)"
| p_one: "parent s = Rx_Suspend \<Longrightarrow> usr1 s \<Longrightarrow> parent_step s ((GotOne s)\<lparr>usr1 := False, parent := Rx_Loop\<rparr>)"
| p_zero: "parent s = Rx_Suspend \<Longrightarrow> usr2 s \<Longrightarrow> parent_step s ((GotZero s)\<lparr>usr2 := False, parent := Rx_Loop\<rparr>)"
| p_childexit: "parent s = Rx_Suspend \<Longrightarrow> chld s \<Longrightarrow> parent_step s (s\<lparr>chld := False, parent := Rx_Exit\<rparr>)"

inductive sig_step :: "sig_sys \<Rightarrow> sig_sys \<Rightarrow> bool" where
  child_moves: "child_step s t \<Longrightarrow> sig_step s t"
| parent_moves: "parent_step s t \<Longrightarrow> sig_step s t"

text \<open>After \<open>fork\<close>, with the handlers installed and the signals blocked.\<close>

definition sig_init :: "bytes \<Rightarrow> sig_sys" where
  "sig_init f =
     \<lparr>child = Tx_Open, parent = Rx_Open, tx_rest = f, tx_c = 0, tx_i = 0, alive = True,
      alarm_set = False, gave_up = False, usr1 = False, usr2 = False, chld = False, ack = False, fout_ok = True,
      out_char = 0, counter = 128, rx_out = []\<rparr>"

definition sig_start :: "bytes \<Rightarrow> sig_sys \<Rightarrow> bool" where
  "sig_start f s \<longleftrightarrow> s = sig_init f"

section \<open>Bits\<close>

text \<open>The byte with its \<open>k\<close> low bits cleared: what the parent has when bit \<open>k\<close> has arrived.\<close>

definition upper :: "byte \<Rightarrow> nat \<Rightarrow> nat" where
  "upper c k = (unat c div 2 ^ k) * 2 ^ k"

lemma bit_test_power: "k < 8 \<Longrightarrow> bit_test (2 ^ k) c \<longleftrightarrow> odd (unat c div 2 ^ k)"
proof -
  assume k: "k < 8"
  have "bit_test (2 ^ k) c \<longleftrightarrow> (scast c :: 32 word) AND 2 ^ k \<noteq> 0"
    by (simp add: bit_test_def and.commute)
  also have "\<dots> \<longleftrightarrow> bit (scast c :: 32 word) k" by (simp add: and_exp_eq_0_iff_not_bit)
  also have "\<dots> \<longleftrightarrow> bit c k" using k by (simp add: bit_simps)
  also have "bit c k \<longleftrightarrow> bit (unat c) k" by (simp add: bit_unsigned_iff)
  also have "bit (unat c) k \<longleftrightarrow> odd (unat c div 2 ^ k)" by (rule bit_iff_odd)
  finally show ?thesis .
qed

lemma upper_8: "upper c 8 = 0"
proof -
  have "unat c < 256" using unsigned_less [of c, where ?'a = nat] by simp
  then show ?thesis by (simp add: upper_def)
qed

lemma upper_0 [simp]: "upper c 0 = unat c"
  by (simp add: upper_def)

lemma upper_next:
  assumes "k < 8"
  shows "upper c k = upper c (Suc k) + (if bit_test (2 ^ k) c then 2 ^ k else 0)"
proof -
  let ?d = "unat c div 2 ^ k"
  have half: "unat c div 2 ^ Suc k = ?d div 2" by (simp add: div_mult2_eq [symmetric] mult.commute)
  have odd: "bit_test (2 ^ k) c \<longleftrightarrow> odd ?d" by (rule bit_test_power [OF assms])
  have "?d = 2 * (?d div 2) + (if odd ?d then 1 else 0)" by (simp add: odd_two_times_div_two_succ)
  then have "?d * 2 ^ k = (2 * (?d div 2) + (if odd ?d then 1 else 0)) * 2 ^ k" by simp
  also have "\<dots> = (?d div 2) * 2 ^ Suc k + (if odd ?d then 2 ^ k else 0)"
    by (simp add: add_mult_distrib)
  finally show ?thesis by (simp only: upper_def half odd)
qed


section \<open>The invariant\<close>

text \<open>
  Between two bytes the parent has either written the last one or is about to, or cannot; when bit \<open>k\<close> is
  the next to arrive, the handlers have collected the bits above it.
\<close>

definition between :: "sig_sys \<Rightarrow> bool" where
  "between s \<longleftrightarrow> counter s = 128 \<and> out_char s = 0 \<or> counter s = 0 \<and> parent s \<in> {Rx_Loop, Rx_Fault}"

definition expecting :: "sig_sys \<Rightarrow> nat \<Rightarrow> bool" where
  "expecting s k \<longleftrightarrow>
     (if k = 7 then between s else counter s = 2 ^ k \<and> out_char s = upper (tx_c s) (Suc k))"

definition delivered :: "sig_sys \<Rightarrow> nat \<Rightarrow> bool" where
  "delivered s k \<longleftrightarrow>
     (case k of 0 \<Rightarrow> between s | Suc j \<Rightarrow> counter s = 2 ^ j \<and> out_char s = upper (tx_c s) k)"

definition quiet :: "sig_sys \<Rightarrow> bool" where
  "quiet s \<longleftrightarrow> \<not> usr1 s \<and> \<not> usr2 s"

definition one_bit :: "sig_sys \<Rightarrow> bool" where
  "one_bit s \<longleftrightarrow> usr1 s = bit_test (tx_i s) (tx_c s) \<and> usr2 s = (\<not> bit_test (tx_i s) (tx_c s))"

definition sig_phase :: "sig_sys \<Rightarrow> bool" where
  "sig_phase s \<longleftrightarrow>
     (case child s of
        Tx_Bit \<Rightarrow> \<not> ack s \<and> quiet s \<and>
          (if tx_i s = 0 then between s else \<exists>k \<le> 7. tx_i s = 2 ^ k \<and> expecting s k)
      | Tx_Suspend \<Rightarrow> (\<exists>k \<le> 7. tx_i s = 2 ^ k \<and>
          (if ack s then quiet s \<and> delivered s k else one_bit s \<and> expecting s k))
      | _ \<Rightarrow> \<not> ack s \<and> quiet s \<and> between s)"

definition sig_ends :: "sig_sys \<Rightarrow> bool" where
  "sig_ends s \<longleftrightarrow>
     (alive s \<longleftrightarrow> \<not> chld s \<and> parent s \<noteq> Rx_Exit) \<and>
     (parent s = Rx_Exit \<longrightarrow> counter s \<noteq> 0) \<and>
     (\<not> alive s \<and> \<not> gave_up s \<longrightarrow> child s = Tx_Exit \<and> tx_rest s = []) \<and>
     (child s = Tx_Exit \<longrightarrow> \<not> alive s) \<and>
     (parent s = Rx_Open \<longrightarrow> counter s \<noteq> 0)"

definition sig_inv :: "sig_sys \<Rightarrow> bool" where
  "sig_inv s \<longleftrightarrow> sig_phase s \<and> sig_ends s"

text \<open>
  What is still to be written: a byte collected and not yet flushed, the byte whose bits are on
  their way, the rest of the source.
\<close>

definition in_transit :: "sig_sys \<Rightarrow> bool" where
  "in_transit s \<longleftrightarrow>
     child s = Tx_Bit \<and> tx_i s \<noteq> 0 \<or> child s = Tx_Suspend \<and> (\<not> ack s \<or> tx_i s \<noteq> 1)"

definition sig_pending :: "sig_sys \<Rightarrow> bytes" where
  "sig_pending s =
     (if counter s = 0 then [of_nat (out_char s)] else []) @ (if in_transit s then [tx_c s] else [])
     @ tx_rest s"

lemmas sig_defs = sig_phase_def sig_pending_def in_transit_def between_def quiet_def

lemma sig_start_inv: "sig_start f s \<Longrightarrow> sig_inv s"
  by (simp add: sig_start_def sig_init_def sig_inv_def sig_ends_def sig_defs)

lemma power2_half: "(2 :: nat) ^ k div 2 = (case k of 0 \<Rightarrow> 0 | Suc j \<Rightarrow> 2 ^ j)"
  by (cases k) auto

text \<open>The child's steps.\<close>

lemma expecting_child:
  "tx_c t = tx_c s \<Longrightarrow> counter t = counter s \<Longrightarrow> out_char t = out_char s \<Longrightarrow> parent t = parent s \<Longrightarrow>
   expecting t k = expecting s k \<and> delivered t k = delivered s k \<and> between t = between s"
  by (auto simp: expecting_def delivered_def between_def split: nat.split)

text \<open>The phase survives a step that keeps the channel and, if a byte is being collected, the bits.\<close>

lemma sig_phase_mono:
  assumes "sig_phase s"
    and f: "child t = child s" "ack t = ack s" "usr1 t = usr1 s" "usr2 t = usr2 s"
      "tx_i t = tx_i s" "tx_c t = tx_c s"
    and b: "between s \<Longrightarrow> between t"
    and c: "counter s \<noteq> 0 \<Longrightarrow> counter t = counter s \<and> out_char t = out_char s"
  shows "sig_phase t"
proof -
  have e: "expecting s k \<Longrightarrow> expecting t k" for k
    using b c f by (auto simp: expecting_def split: if_splits)
  have d: "delivered s k \<Longrightarrow> delivered t k" for k
    using b c f by (cases k) (auto simp: delivered_def)
  have q: "quiet t = quiet s" and o: "one_bit t = one_bit s"
    using f by (simp_all add: quiet_def one_bit_def)
  show ?thesis
  proof (cases "child s")
    case Tx_Bit
    then show ?thesis using assms(1) e b f q by (auto simp: sig_phase_def split: if_splits)
  next
    case Tx_Suspend
    then show ?thesis using assms(1) e d f q o by (simp add: sig_phase_def split: if_splits) blast+
  qed (use assms(1) b f q in \<open>auto simp: sig_phase_def\<close>)
qed

lemma delivered_expecting: "delivered s (Suc k) \<Longrightarrow> k < 7 \<Longrightarrow> expecting s k"
  by (simp add: delivered_def expecting_def)

lemma child_ends: "child_step s t \<Longrightarrow> sig_ends s \<Longrightarrow> sig_ends t"
  by (induction rule: child_step.induct) (auto simp: sig_ends_def send_bit_def)

lemma child_content: "child_step s t \<Longrightarrow> sig_phase s \<Longrightarrow>
  sig_phase t \<and> rx_out t = rx_out s \<and> sig_pending t = sig_pending s"
proof (induction rule: child_step.induct)
  case (t_open s)
  then show ?case by (simp add: sig_defs)
next
  case (t_open_fail s)
  then show ?case by (simp add: sig_defs)
next
  case (t_read s b rest)
  then have "between s" and "\<not> ack s" and "quiet s" by (simp_all add: sig_phase_def)
  moreover from this(1) have "expecting (s\<lparr>tx_c := b, tx_rest := rest, alarm_set := True, tx_i := 128, child := Tx_Bit\<rparr>) 7"
    by (simp add: expecting_def between_def)
  ultimately show ?case using t_read
    by (auto simp: sig_phase_def sig_pending_def in_transit_def quiet_def intro!: exI [of _ 7])
next
  case (t_eof s)
  then show ?case by (simp add: sig_defs)
next
  case (t_bit s)
  then obtain k where k: "k \<le> 7" "tx_i s = 2 ^ k" "expecting s k" and "\<not> ack s" and "quiet s"
    by (auto simp: sig_phase_def split: if_splits)
  let ?t = "(send_bit s)\<lparr>child := Tx_Suspend\<rparr>"
  have t: "tx_i ?t = tx_i s" "tx_c ?t = tx_c s" "counter ?t = counter s" "out_char ?t = out_char s"
    "parent ?t = parent s" "tx_rest ?t = tx_rest s" "ack ?t = ack s" "rx_out ?t = rx_out s"
    by (simp_all add: send_bit_def)
  have "one_bit ?t" using \<open>quiet s\<close> by (simp add: one_bit_def send_bit_def quiet_def)
  then have "sig_phase ?t"
    using k t expecting_child [of ?t s k] \<open>\<not> ack s\<close> by (auto simp: sig_phase_def intro!: exI [of _ k])
  moreover have "sig_pending ?t = sig_pending s"
    using t_bit t \<open>\<not> ack s\<close> by (simp add: sig_pending_def in_transit_def)
  ultimately show ?case using t by simp
next
  case (t_next s)
  then show ?case by (simp add: sig_defs)
next
  case (t_ack s)
  then obtain k where k: "k \<le> 7" "tx_i s = 2 ^ k" "delivered s k" and "quiet s"
    by (auto simp: sig_phase_def split: if_splits)
  let ?t = "s\<lparr>ack := False, tx_i := tx_i s div 2, child := Tx_Bit\<rparr>"
  show ?case
  proof (cases k)
    case 0
    then show ?thesis using k t_ack \<open>quiet s\<close> by (simp add: sig_defs delivered_def)
  next
    case (Suc j)
    then have "expecting ?t j" using delivered_expecting [of s j] k expecting_child [of ?t s j] by simp
    then have "sig_phase ?t" using Suc k \<open>quiet s\<close>
      by (auto simp: sig_phase_def quiet_def intro!: exI [of _ j])
    then show ?thesis using Suc k t_ack by (simp add: sig_pending_def in_transit_def)
  qed
next
  case (t_alarm s)
  let ?t = "s\<lparr>alive := False, gave_up := True, chld := True\<rparr>"
  have "sig_phase ?t" by (rule sig_phase_mono [OF t_alarm(3)]) (simp_all add: between_def)
  with t_alarm show ?case by (simp add: sig_pending_def in_transit_def)
qed

text \<open>The parent's steps. A handler is only run in \<open>sigsuspend\<close>, with the byte before flushed.\<close>

lemma suspended: "sig_phase s \<Longrightarrow> parent s = Rx_Suspend \<Longrightarrow> counter s \<noteq> 0"
  by (auto simp: sig_phase_def between_def expecting_def delivered_def
      split: child_pc.splits nat.splits if_splits)

lemma handler_content:
  assumes "sig_phase s" and "parent s = Rx_Suspend" and "usr1 s \<or> usr2 s"
    and t: "t = (if usr1 s then (GotOne s)\<lparr>usr1 := False, parent := Rx_Loop\<rparr>
      else (GotZero s)\<lparr>usr2 := False, parent := Rx_Loop\<rparr>)"
  shows "sig_phase t \<and> rx_out t = rx_out s \<and> sig_pending t = sig_pending s"
proof -
  have pc: "child s = Tx_Suspend" and "\<not> ack s"
    using assms(1,3) by (auto simp: sig_phase_def quiet_def split: child_pc.splits if_splits)
  then obtain k where k: "k \<le> 7" "tx_i s = 2 ^ k" and bit: "one_bit s" and e: "expecting s k"
    using assms(1) by (auto simp: sig_phase_def)
  have c: "counter s = 2 ^ k \<and> out_char s = upper (tx_c s) (Suc k)"
    using e assms(2) upper_8 by (auto simp: expecting_def between_def numeral_eq_Suc split: if_splits)
  have tf: "child t = Tx_Suspend" "ack t" "parent t = Rx_Loop" "tx_i t = 2 ^ k" "quiet t"
    "tx_c t = tx_c s" "tx_rest t = tx_rest s" "rx_out t = rx_out s"
    "counter t = 2 ^ k div 2" "out_char t = upper (tx_c s) k"
    using pc k c bit t upper_next [of k "tx_c s"] by (auto simp: GotOne_def GotZero_def quiet_def one_bit_def)
  have "delivered t k"
    using tf by (cases k) (simp_all add: delivered_def between_def)
  then have "sig_phase t" using tf k by (auto simp: sig_phase_def)
  moreover have "sig_pending t = sig_pending s"
    using tf pc c \<open>\<not> ack s\<close> by (cases k) (simp_all add: sig_pending_def in_transit_def)
  ultimately show ?thesis using tf by simp
qed

lemma parent_content: "parent_step s t \<Longrightarrow> sig_phase s \<Longrightarrow> sig_ends s \<Longrightarrow>
  sig_phase t \<and> rx_out t @ sig_pending t = rx_out s @ sig_pending s"
proof (induction rule: parent_step.induct)
  case (p_one s)
  then show ?case using handler_content [OF p_one(3,1), OF _ refl] by simp
next
  case (p_zero s)
  then have "\<not> usr1 s" by (auto simp: sig_phase_def quiet_def one_bit_def split: child_pc.splits if_splits)
  then show ?case using p_zero handler_content [OF p_zero(3,1), OF _ refl] by simp
next
  case (p_loop s)
  let ?t = "(flush_byte s)\<lparr>parent := Rx_Suspend\<rparr>"
  have "sig_phase ?t"
    by (rule sig_phase_mono [OF p_loop(3)]) (auto simp: flush_byte_def between_def)
  then show ?case by (auto simp: flush_byte_def sig_pending_def in_transit_def)
next
  case (p_open s)
  have "sig_phase (s\<lparr>parent := Rx_Loop\<rparr>)"
    by (rule sig_phase_mono [OF p_open(2)]) (auto simp: between_def)
  then show ?case by (simp add: sig_pending_def in_transit_def)
next
  case (p_open_fail s)
  have "sig_phase (s\<lparr>fout_ok := False, parent := Rx_Loop\<rparr>)"
    by (rule sig_phase_mono [OF p_open_fail(2)]) (auto simp: between_def)
  then show ?case by (simp add: sig_pending_def in_transit_def)
next
  case (p_fault s)
  have "sig_phase (s\<lparr>parent := Rx_Fault\<rparr>)"
    by (rule sig_phase_mono [OF p_fault(4)]) (auto simp: between_def)
  then show ?case by (simp add: sig_pending_def in_transit_def)
next
  case (p_childexit s)
  have "sig_phase (s\<lparr>chld := False, parent := Rx_Exit\<rparr>)"
    by (rule sig_phase_mono [OF p_childexit(3)]) (use p_childexit in \<open>auto simp: between_def\<close>)
  then show ?case by (simp add: sig_pending_def in_transit_def)
qed

lemma parent_ends:
  assumes "parent_step s t" and "sig_phase s" and "sig_ends s"
  shows "sig_ends t"
  using assms(1)
proof cases
  case p_loop
  then show ?thesis using assms(3) by (auto simp: sig_ends_def flush_byte_def)
next
  case p_childexit
  then show ?thesis using assms(3) suspended [OF assms(2)] by (auto simp: sig_ends_def)
qed (use assms(3) in \<open>auto simp: sig_ends_def GotOne_def GotZero_def\<close>)

section \<open>Every run ends\<close>

fun bits_left :: "nat \<Rightarrow> nat" where
  "bits_left i = (if i = 0 then 0 else Suc (bits_left (i div 2)))"

declare bits_left.simps [simp del]

lemma bits_left_0 [simp]: "bits_left 0 = 0"
  by (simp add: bits_left.simps)

lemma bits_left_pos: "0 < i \<Longrightarrow> bits_left i = Suc (bits_left (i div 2))"
  by (simp add: bits_left.simps)

lemma bits_left_128 [simp]: "bits_left 128 = 8"
  by (simp add: bits_left_pos)

definition child_work :: "child_pc \<Rightarrow> nat \<Rightarrow> nat" where
  "child_work p i = (case p of Tx_Open \<Rightarrow> 6 | Tx_Read \<Rightarrow> 5 | Tx_Bit \<Rightarrow> 10 * bits_left i + 6
     | Tx_Suspend \<Rightarrow> 10 * bits_left i + 2 | Tx_Exit \<Rightarrow> 0)"

definition parent_work :: "parent_pc \<Rightarrow> nat" where
  "parent_work p = (case p of Rx_Open \<Rightarrow> 3 | Rx_Loop \<Rightarrow> 2 | Rx_Suspend \<Rightarrow> 1 | Rx_Exit \<Rightarrow> 0 | Rx_Fault \<Rightarrow> 0)"

definition sig_work :: "sig_sys \<Rightarrow> nat" where
  "sig_work s = 100 * length (tx_rest s) + child_work (child s) (tx_i s) + parent_work (parent s)
     + (if usr1 s then 3 else 0) + (if usr2 s then 3 else 0) + (if chld s then 2 else 0)
     + (if alive s then 3 else 0)"

lemma child_step_work: "child_step s t \<Longrightarrow> sig_phase s \<Longrightarrow> sig_work t < sig_work s"
proof (induction rule: child_step.induct)
  case (t_bit s)
  then have "quiet s" by (simp add: sig_phase_def)
  with t_bit show ?case by (simp add: sig_work_def child_work_def send_bit_def quiet_def)
next
  case (t_ack s)
  then have "0 < tx_i s" by (auto simp: sig_phase_def)
  with t_ack show ?case by (simp add: sig_work_def child_work_def bits_left_pos)
qed (auto simp: sig_work_def child_work_def)

lemma parent_step_work: "parent_step s t \<Longrightarrow> sig_work t < sig_work s"
  by (induction rule: parent_step.induct)
     (simp_all add: sig_work_def parent_work_def GotOne_def GotZero_def flush_byte_def)

lemma sig_step_inv:
  assumes "sig_inv s" and "sig_step s t"
  shows "sig_inv t \<and> rx_out t @ sig_pending t = rx_out s @ sig_pending s \<and> sig_work t < sig_work s"
  using assms(2)
proof cases
  case child_moves
  with assms(1) show ?thesis
    using child_content [of s t] child_ends [of s t] child_step_work [of s t] by (simp add: sig_inv_def)
next
  case parent_moves
  with assms(1) show ?thesis
    using parent_content [of s t] parent_ends [of s t] parent_step_work [of s t] by (simp add: sig_inv_def)
qed

interpretation signal_transfer: finite_transfer sig_step sig_start rx_out sig_pending sig_inv sig_work
proof
  show "sig_start f s \<Longrightarrow> rx_out s @ sig_pending s = f" for f s
    by (simp add: sig_start_def sig_init_def sig_pending_def in_transit_def)
qed (use sig_start_inv sig_step_inv in auto)

text \<open>
  No acknowledgement and no bit is lost: until the parent has ended there is always a step, and
  with a stream to write to one that is neither the alarm nor a failure.
\<close>

lemma sig_progress:
  assumes "sig_inv s" and "parent s \<noteq> Rx_Exit" and "parent s \<noteq> Rx_Fault"
  shows "\<exists>t. sig_step s t \<and> gave_up t = gave_up s \<and> fout_ok t = fout_ok s \<and> (fout_ok s \<longrightarrow> parent t \<noteq> Rx_Fault)"
proof (cases "parent s")
  case Rx_Open
  show ?thesis by (intro exI conjI, rule parent_moves [OF p_open [OF Rx_Open]]) auto
next
  case Rx_Loop
  show ?thesis
  proof (cases "counter s \<noteq> 0 \<or> fout_ok s")
    case True
    show ?thesis by (intro exI conjI, rule parent_moves [OF p_loop [OF Rx_Loop True]]) (auto simp: flush_byte_def)
  next
    case False
    then have "counter s = 0" "\<not> fout_ok s" by simp_all
    from parent_moves [OF p_fault [OF Rx_Loop this]] False show ?thesis by force
  qed
next
  case Rx_Suspend
  consider "usr1 s" | "usr2 s" | "chld s" | "quiet s" "\<not> chld s" by (auto simp: quiet_def)
  then show ?thesis
  proof cases
    case 1
    show ?thesis by (intro exI conjI, rule parent_moves [OF p_one [OF Rx_Suspend 1]]) (auto simp: GotOne_def)
  next
    case 2
    show ?thesis by (intro exI conjI, rule parent_moves [OF p_zero [OF Rx_Suspend 2]]) (auto simp: GotZero_def)
  next
    case 3
    show ?thesis by (intro exI conjI, rule parent_moves [OF p_childexit [OF Rx_Suspend 3]]) auto
  next
    case 4
    then have alive: "alive s" using assms(1) Rx_Suspend by (auto simp: sig_inv_def sig_ends_def)
    show ?thesis
    proof (cases "child s")
      case Tx_Open
      show ?thesis by (intro exI conjI, rule child_moves [OF t_open [OF Tx_Open alive]]) (use Rx_Suspend in auto)
    next
      case Tx_Read
      then show ?thesis
      proof (cases "tx_rest s")
        case Nil
        show ?thesis by (intro exI conjI, rule child_moves [OF t_eof [OF Tx_Read alive Nil]]) (use Rx_Suspend in auto)
      next
        case (Cons b r)
        show ?thesis by (intro exI conjI, rule child_moves [OF t_read [OF Tx_Read alive Cons]]) (use Rx_Suspend in auto)
      qed
    next
      case Tx_Bit
      then show ?thesis
      proof (cases "1 \<le> tx_i s")
        case True
        show ?thesis by (intro exI conjI, rule child_moves [OF t_bit [OF Tx_Bit alive True]]) (use Rx_Suspend in \<open>auto simp: send_bit_def\<close>)
      next
        case False
        show ?thesis by (intro exI conjI, rule child_moves [OF t_next [OF Tx_Bit alive False]]) (use Rx_Suspend in auto)
      qed
    next
      case Tx_Suspend
      then have ack: "ack s"
        using assms(1) 4 by (auto simp: sig_inv_def sig_phase_def quiet_def one_bit_def split: if_splits)
      show ?thesis by (intro exI conjI, rule child_moves [OF t_ack [OF Tx_Suspend alive ack]]) (use Rx_Suspend in auto)
    next
      case Tx_Exit
      then show ?thesis using assms(1) alive by (simp add: sig_inv_def sig_ends_def)
    qed
  qed
qed (use assms in simp_all)


section \<open>What the transfer achieves\<close>

text \<open>Without a stream the parent writes nothing.\<close>

lemma signal_without_stream:
  assumes "sig_start f s" and "sig_step\<^sup>*\<^sup>* s t" and "\<not> fout_ok t"
  shows "rx_out t = []"
proof -
  from assms(2) have "parent t = Rx_Open \<or> \<not> fout_ok t \<longrightarrow> rx_out t = []"
  proof (induction rule: rtranclp_induct)
    case base
    from assms(1) show ?case by (simp add: sig_start_def sig_init_def)
  next
    case (step t u)
    from step.hyps(2) show ?case
    proof cases
      case child_moves
      then show ?thesis using step.IH by cases (auto simp: send_bit_def)
    next
      case parent_moves
      then show ?thesis using step.IH by cases (auto simp: flush_byte_def GotOne_def GotZero_def)
    qed
  qed
  with assms(3) show ?thesis by simp
qed

lemma signal_run_complete:
  assumes "sig_start f s" and "sig_step\<^sup>*\<^sup>* s t" and "parent t = Rx_Exit" and "\<not> gave_up t"
  shows "sig_pending t = []"
proof -
  from assms(1,2) have "sig_inv t" by (rule signal_transfer.reach_good)
  with assms(3,4) show ?thesis by (auto simp: sig_inv_def sig_ends_def sig_pending_def in_transit_def)
qed

lemma signal_undisturbed_run:
  "sig_inv s \<Longrightarrow> \<not> gave_up s \<Longrightarrow> fout_ok s \<Longrightarrow> parent s \<noteq> Rx_Fault \<Longrightarrow>
   \<exists>t. sig_step\<^sup>*\<^sup>* s t \<and> parent t = Rx_Exit \<and> \<not> gave_up t"
proof (induction "sig_work s" arbitrary: s rule: less_induct)
  case less
  show ?case
  proof (cases "parent s = Rx_Exit")
    case True
    with less.prems show ?thesis by blast
  next
    case False
    with sig_progress [OF less.prems(1)] less.prems obtain u where
      u: "sig_step s u" "\<not> gave_up u" "fout_ok u" "parent u \<noteq> Rx_Fault" by auto
    then have "sig_inv u" and "sig_work u < sig_work s" using sig_step_inv [OF less.prems(1)] by auto
    with less.hyps u obtain t where "sig_step\<^sup>*\<^sup>* u t" and "parent t = Rx_Exit \<and> \<not> gave_up t" by blast
    with u(1) show ?thesis by (meson converse_rtranclp_into_rtranclp)
  qed
qed

text \<open>Whatever the interleaving of the two processes and whenever the alarm fires, the
  destination is at every moment a prefix of the source file: no bit is lost, doubled or taken
  for another.\<close>

theorem signal_output_is_prefix:
  assumes "sig_start f s" and "sig_step\<^sup>*\<^sup>* s t"
  shows "prefix (rx_out t) f"
  using assms by (rule signal_transfer.reach_prefix)

theorem signal_output_is_prefix_witness:
  "prefix (rx_out (sig_init [165])) [165 :: byte]"
  by (rule signal_output_is_prefix [OF _ rtranclp.rtrancl_refl]) (simp add: sig_start_def)

text \<open>C18. A parent that ends, with the child having reached the end of the source file (neither the
  alarm nor a failed \<open>open\<close> ended it), has written the whole file; and such a run exists for
  every file.\<close>

theorem signal_complete_without_alarm:
  assumes "sig_start f s"
  shows "(\<exists>t. sig_step\<^sup>*\<^sup>* s t \<and> parent t = Rx_Exit \<and> \<not> gave_up t) \<and>
    (\<forall>t. sig_step\<^sup>*\<^sup>* s t \<and> parent t = Rx_Exit \<and> \<not> gave_up t \<longrightarrow> rx_out t = f)"
proof (intro conjI allI impI)
  from assms have "sig_inv s" "\<not> gave_up s" "fout_ok s" "parent s \<noteq> Rx_Fault"
    by (simp_all add: sig_start_inv) (simp_all add: sig_start_def sig_init_def)
  then show "\<exists>t. sig_step\<^sup>*\<^sup>* s t \<and> parent t = Rx_Exit \<and> \<not> gave_up t"
    by (rule signal_undisturbed_run)
next
  fix t
  assume t: "sig_step\<^sup>*\<^sup>* s t \<and> parent t = Rx_Exit \<and> \<not> gave_up t"
  then have "sig_pending t = []" using signal_run_complete [OF assms] by blast
  with t show "rx_out t = f" using signal_transfer.reach_complete [OF assms] by blast
qed

theorem signal_complete_without_alarm_witness:
  "\<exists>t. sig_step\<^sup>*\<^sup>* (sig_init [165, 10]) t \<and> parent t = Rx_Exit \<and> rx_out t = [165, 10]"
proof -
  have "sig_start [165, 10] (sig_init [165, 10])" by (simp add: sig_start_def)
  from signal_complete_without_alarm [OF this] show ?thesis by blast
qed

text \<open>C19. No run is infinite, with an explicit bound, and a run that can go no further has ended the
  parent: an acknowledgement sent before the child waits for it is not lost, and neither is a
  bit sent before the parent waits.\<close>

theorem signal_pair_ends:
  assumes "sig_start f s" and "(sig_step ^^ n) s t"
  shows "n \<le> 100 * length f + 12 \<and> ((\<forall>u. \<not> sig_step t u) \<longrightarrow> parent t \<in> {Rx_Exit, Rx_Fault})"
proof -
  have "sig_work s = 100 * length f + 12"
    using assms(1) by (simp add: sig_start_def sig_init_def sig_work_def child_work_def parent_work_def)
  with signal_transfer.run_bounded [OF assms(2) signal_transfer.start_good [OF assms(1)]]
  show ?thesis using sig_progress [of t] by auto
qed

theorem signal_pair_ends_witness:
  "\<exists>n t. (sig_step ^^ n) (sig_init [165]) t \<and> n \<le> 112 \<and> parent t \<in> {Rx_Exit, Rx_Fault}"
proof -
  have start: "sig_start [165] (sig_init [165])" by (simp add: sig_start_def)
  obtain n t where "(sig_step ^^ n) (sig_init [165]) t" and "\<forall>u. \<not> sig_step t u"
    using signal_transfer.run_ends_counted [OF signal_transfer.start_good [OF start]] by blast
  with signal_pair_ends [OF start, of n t] show ?thesis by auto
qed

text \<open>The child's eight tests and the parent's eight handlers on one byte.\<close>

fun bit_masks :: "nat \<Rightarrow> nat list" where
  "bit_masks i = (if i \<ge> 1 then i # bit_masks (i div 2) else [])"

declare bit_masks.simps [simp del]

definition handle_byte :: "byte \<Rightarrow> sig_sys \<Rightarrow> sig_sys" where
  "handle_byte c s = fold (\<lambda>i s. if bit_test i c then GotOne s else GotZero s) (bit_masks 128) s"

lemma handle_masks:
  "k < 8 \<Longrightarrow> counter s = 2 ^ k \<Longrightarrow> out_char s = upper c (Suc k) \<Longrightarrow>
   t = fold (\<lambda>i s. if bit_test i c then GotOne s else GotZero s) (bit_masks (2 ^ k)) s \<Longrightarrow>
   counter t = 0 \<and> out_char t = unat c"
proof (induction k arbitrary: s)
  case 0
  then show ?case using upper_next [of 0 c]
    by (auto simp: bit_masks.simps GotOne_def GotZero_def)
next
  case (Suc k)
  let ?s = "if bit_test (2 ^ Suc k) c then GotOne s else GotZero s"
  have m: "bit_masks (2 ^ Suc k) = 2 ^ Suc k # bit_masks (2 ^ k)"
    by (subst bit_masks.simps) simp
  show ?case
  proof (rule Suc.IH [of ?s])
    show "k < 8" using Suc.prems by simp
    show "counter ?s = 2 ^ k" using Suc.prems by (simp add: GotOne_def GotZero_def)
    show "out_char ?s = upper c (Suc k)"
      using Suc.prems upper_next [of "Suc k" c] by (simp add: GotOne_def GotZero_def)
    show "t = fold (\<lambda>i s. if bit_test i c then GotOne s else GotZero s) (bit_masks (2 ^ k)) ?s"
      using Suc.prems(4) m by simp
  qed
qed

text \<open>Sending a byte bit by bit and collecting it in the handlers gives the byte back, for every
  byte, the negative \<open>char\<close> values included, and leaves the counter at 0, which makes the
  parent write it.\<close>

theorem signal_byte_roundtrip:
  assumes "counter s = 128" and "out_char s = 0"
  shows "counter (handle_byte c s) = 0 \<and>
    rx_out (flush_byte (handle_byte c s)) = rx_out (handle_byte c s) @ [c]"
proof -
  have "counter (handle_byte c s) = 0 \<and> out_char (handle_byte c s) = unat c"
    using assms by (intro handle_masks [of 7 s c]) (simp_all add: handle_byte_def upper_8)
  then show ?thesis by (simp add: flush_byte_def)
qed

theorem signal_byte_roundtrip_witness:
  "counter (handle_byte 165 (sig_init [165])) = 0 \<and>
   rx_out (flush_byte (handle_byte 165 (sig_init [165]))) = rx_out (handle_byte 165 (sig_init [165])) @ [165]"
  by (rule signal_byte_roundtrip) (simp_all add: sig_init_def)

end
