(* ===== verification/Shell.thy ===== *)
theory Shell
  imports CString CHeap
begin

text \<open>
  The command line parser and the pipelines of the shell (\<open>task1/shell-wrapper\<close>): \<open>sw_parse.c\<close>,
  \<open>sw_run.c\<close>, \<open>sw_main.c\<close>. The parser is modelled on the heap, with the byte sizes it hands to
  \<open>realloc\<close>; \<open>run_cmd\<close> on the descriptor tables of the shell and of its children.
\<close>

section \<open>The data on the heap\<close>

text \<open>
  \<open>struct Command\<close> and the three kinds of blocks: a string, an array of \<open>char *\<close> with as many
  slots as its size in bytes allows, an array of commands. \<open>sizeof(char *)\<close> is 8.
\<close>

record Command =
  argv :: "addr option"
  argc :: nat

datatype cell = Text string | Ptrs "addr option list" | Cmds "Command list"

record CommandLine =
  cmds :: "addr option"
  cmds_size :: nat

definition BUFFER_SIZE :: nat where
  "BUFFER_SIZE = 2048 * 1024"

definition sizeof_ptr :: nat where
  "sizeof_ptr = 8"

text \<open>\<open>fgets\<close>: at most \<open>n - 1\<close> characters, up to and including the first newline; what is left.\<close>

definition fgets :: "nat \<Rightarrow> string \<Rightarrow> (string \<times> string) option" where
  "fgets n inp =
     (if inp = [] then None
      else
        (let line = takeWhile (\<lambda>c. c \<noteq> CHR 0x0A) inp;
             k = min (n - 1) (if length line < length inp then Suc (length line) else length line)
         in Some (take k inp, drop k inp)))"

section \<open>sw_parse.c\<close>

text \<open>\<open>realloc(p, sz)\<close> of an array of pointers, which moves it.\<close>

definition resize :: "nat \<Rightarrow> addr option list \<Rightarrow> addr option list" where
  "resize k xs = take k xs @ replicate (k - length xs) None"

definition realloc_ptrs :: "addr option \<Rightarrow> nat \<Rightarrow> cell heap \<Rightarrow> c_error + addr \<times> cell heap" where
  "realloc_ptrs p sz h =
     (case p of None \<Rightarrow> Inr (halloc (Ptrs (resize (sz div sizeof_ptr) [])) h)
      | Some a \<Rightarrow>
         (case hread (Some a) h of
            Inr (Ptrs xs) \<Rightarrow>
              (let (b, h1) = halloc (Ptrs (resize (sz div sizeof_ptr) xs)) h in
               case hfree (Some a) h1 of Inl e \<Rightarrow> Inl e | Inr h2 \<Rightarrow> Inr (b, h2))
          | Inr _ \<Rightarrow> Inl OutOfBounds
          | Inl e \<Rightarrow> Inl e))"

text \<open>\<open>p[j] = v\<close>\<close>

definition store_ptr :: "addr option \<Rightarrow> nat \<Rightarrow> addr option \<Rightarrow> cell heap \<Rightarrow> c_error + cell heap" where
  "store_ptr p j v h =
     (case hread p h of
        Inr (Ptrs xs) \<Rightarrow> if j < length xs then hwrite p (Ptrs (xs[j := v])) h else Inl OutOfBounds
      | Inr _ \<Rightarrow> Inl OutOfBounds
      | Inl e \<Rightarrow> Inl e)"

text \<open>\<open>p[j]\<close>\<close>

definition load_ptr :: "addr option \<Rightarrow> nat \<Rightarrow> cell heap \<Rightarrow> c_error + addr option" where
  "load_ptr p j h =
     (case hread p h of
        Inr (Ptrs xs) \<Rightarrow> if j < length xs then Inr (xs ! j) else Inl OutOfBounds
      | Inr _ \<Rightarrow> Inl OutOfBounds
      | Inl e \<Rightarrow> Inl e)"

text \<open>
  The body both loops share: \<open>sz += sizeof(char *); p = realloc(p, sz); p[j] = strdup(tok); j++\<close>
  for every token.
\<close>

fun push_tokens :: "string list \<Rightarrow> nat \<Rightarrow> nat \<Rightarrow> addr option \<Rightarrow> cell heap
    \<Rightarrow> c_error + nat \<times> nat \<times> addr option \<times> cell heap" where
  "push_tokens [] sz j p h = Inr (sz, j, p, h)"
| "push_tokens (t # ts) sz j p h =
     (let sz = sz + sizeof_ptr in
      case realloc_ptrs p sz h of Inl e \<Rightarrow> Inl e | Inr (b, h) \<Rightarrow>
      (let (d, h) = halloc (Text t) h in
       case store_ptr (Some b) j (Some d) h of Inl e \<Rightarrow> Inl e | Inr h \<Rightarrow>
         push_tokens ts sz (j + 1) (Some b) h))"

definition scan_CmdLine :: "int \<Rightarrow> string \<Rightarrow> cell heap \<Rightarrow> c_error + addr option \<times> nat \<times> string \<times> cell heap" where
  "scan_CmdLine errno inp h =
     (let (buf, h) = halloc (Text []) h in
      case fgets BUFFER_SIZE inp of None \<Rightarrow> Inl (Exit errno) | Some (line, rest) \<Rightarrow>
      (case hwrite (Some buf) (Text line) h of Inl e \<Rightarrow> Inl e | Inr h \<Rightarrow>
      (case push_tokens (strtok_all {CHR ''|''} line) 0 0 None h of Inl e \<Rightarrow> Inl e
       | Inr (sz, i, res, h) \<Rightarrow>
         (case hfree (Some buf) h of Inl e \<Rightarrow> Inl e | Inr h \<Rightarrow> Inr (res, i, rest, h)))))"

text \<open>One turn of the loop of \<open>scan_cmds\<close>: split \<open>buf[i]\<close> into \<open>cmds[i].argv\<close>.\<close>

definition store_cmd :: "addr option \<Rightarrow> nat \<Rightarrow> Command \<Rightarrow> cell heap \<Rightarrow> c_error + cell heap" where
  "store_cmd p i c h =
     (case hread p h of
        Inr (Cmds cs) \<Rightarrow> if i < length cs then hwrite p (Cmds (cs[i := c])) h else Inl OutOfBounds
      | Inr _ \<Rightarrow> Inl OutOfBounds
      | Inl e \<Rightarrow> Inl e)"

definition scan_cmd :: "addr option \<Rightarrow> addr option \<Rightarrow> nat \<Rightarrow> cell heap \<Rightarrow> c_error + cell heap" where
  "scan_cmd buf cs i h =
     (case load_ptr buf i h of Inl e \<Rightarrow> Inl e | Inr p \<Rightarrow>
     (case hread p h of
        Inr (Text s) \<Rightarrow>
          (case push_tokens (strtok_all {CHR '' '', CHR 0x0A} s) 1 0 None h of Inl e \<Rightarrow> Inl e
           | Inr (sz, j, av, h) \<Rightarrow>
          (case realloc_ptrs av (sz + sizeof_ptr) h of Inl e \<Rightarrow> Inl e | Inr (b, h) \<Rightarrow>
          (case store_ptr (Some b) j None h of Inl e \<Rightarrow> Inl e | Inr h \<Rightarrow>
             store_cmd cs i \<lparr>argv = Some b, argc = j\<rparr> h)))
      | Inr _ \<Rightarrow> Inl OutOfBounds
      | Inl e \<Rightarrow> Inl e))"

fun scan_each :: "nat list \<Rightarrow> addr option \<Rightarrow> addr option \<Rightarrow> cell heap \<Rightarrow> c_error + cell heap" where
  "scan_each [] buf cs h = Inr h"
| "scan_each (i # is) buf cs h =
     (case scan_cmd buf cs i h of Inl e \<Rightarrow> Inl e | Inr h \<Rightarrow> scan_each is buf cs h)"

text \<open>\<open>for (i = 0; i < n; i++) free(p[i]);\<close>\<close>

fun free_slots :: "nat list \<Rightarrow> addr option \<Rightarrow> cell heap \<Rightarrow> c_error + cell heap" where
  "free_slots [] p h = Inr h"
| "free_slots (i # is) p h =
     (case load_ptr p i h of Inl e \<Rightarrow> Inl e | Inr q \<Rightarrow>
     (case hfree q h of Inl e \<Rightarrow> Inl e | Inr h \<Rightarrow> free_slots is p h))"

definition scan_cmds :: "int \<Rightarrow> string \<Rightarrow> cell heap \<Rightarrow> c_error + CommandLine \<times> string \<times> cell heap" where
  "scan_cmds errno inp h =
     (case scan_CmdLine errno inp h of Inl e \<Rightarrow> Inl e | Inr (buf, max_elem, rest, h) \<Rightarrow>
      (let (cs, h) = halloc (Cmds (replicate max_elem \<lparr>argv = None, argc = 0\<rparr>)) h in
       case scan_each [0..<max_elem] buf (Some cs) h of Inl e \<Rightarrow> Inl e | Inr h \<Rightarrow>
       (case free_slots [0..<max_elem] buf h of Inl e \<Rightarrow> Inl e | Inr h \<Rightarrow>
       (case hfree buf h of Inl e \<Rightarrow> Inl e | Inr h \<Rightarrow>
          Inr (\<lparr>cmds = Some cs, cmds_size = max_elem\<rparr>, rest, h)))))"

definition load_cmd :: "addr option \<Rightarrow> nat \<Rightarrow> cell heap \<Rightarrow> c_error + Command" where
  "load_cmd p i h =
     (case hread p h of
        Inr (Cmds cs) \<Rightarrow> if i < length cs then Inr (cs ! i) else Inl OutOfBounds
      | Inr _ \<Rightarrow> Inl OutOfBounds
      | Inl e \<Rightarrow> Inl e)"

fun free_cmds :: "nat list \<Rightarrow> addr option \<Rightarrow> cell heap \<Rightarrow> c_error + cell heap" where
  "free_cmds [] p h = Inr h"
| "free_cmds (i # is) p h =
     (case load_cmd p i h of Inl e \<Rightarrow> Inl e | Inr c \<Rightarrow>
     (case free_slots [0..<argc c] (argv c) h of Inl e \<Rightarrow> Inl e | Inr h \<Rightarrow>
     (case hfree (argv c) h of Inl e \<Rightarrow> Inl e | Inr h \<Rightarrow> free_cmds is p h)))"

definition free_cmds_mem :: "CommandLine \<Rightarrow> cell heap \<Rightarrow> c_error + cell heap" where
  "free_cmds_mem commands h =
     (case free_cmds [0..<cmds_size commands] (cmds commands) h of Inl e \<Rightarrow> Inl e
      | Inr h \<Rightarrow> hfree (cmds commands) h)"


section \<open>The parser on the heap\<close>

text \<open>A pointer to an array of strings under construction: \<open>NULL\<close> while it is empty.\<close>

definition array_at :: "cell heap \<Rightarrow> addr option \<Rightarrow> addr list \<Rightarrow> bool" where
  "array_at h p xs \<longleftrightarrow>
     (case p of None \<Rightarrow> xs = [] | Some a \<Rightarrow> hcell h a = Some (Ptrs (map Some xs)))"

lemma resize_grow: "length xs = n \<Longrightarrow> resize (Suc n) xs = xs @ [None]"
  by (simp add: resize_def)

lemma realloc_ptrs_ok:
  assumes "heap_ok h" and "array_at h p xs" and "sz div 8 = Suc (length xs)"
  shows "\<exists>h'. realloc_ptrs p sz h = Inr (hnext h, h') \<and> heap_ok h' \<and> hnext h' = Suc (hnext h) \<and>
    hcell h' = (drop_block (hcell h) p)(hnext h \<mapsto> Ptrs (map Some xs @ [None]))"
proof (cases p)
  case None
  let ?h = "h\<lparr>hnext := Suc (hnext h), hcell := (hcell h)(hnext h \<mapsto> Ptrs [None])\<rparr>"
  from None assms have "xs = []" by (simp add: array_at_def)
  moreover from this None assms(3) have "realloc_ptrs p sz h = Inr (hnext h, ?h)"
    by (simp add: realloc_ptrs_def sizeof_ptr_def halloc_def resize_grow)
  moreover have "heap_ok ?h" using assms(1) by (auto simp: heap_ok_def less_Suc_eq split: if_splits)
  ultimately show ?thesis using None by simp
next
  case (Some a)
  with assms have a: "hcell h a = Some (Ptrs (map Some xs))" and lt: "a < hnext h"
    by (auto simp: array_at_def heap_ok_def)
  let ?v = "Ptrs (map Some xs @ [None])"
  let ?h = "h\<lparr>hnext := Suc (hnext h), hcell := (hcell h)(hnext h \<mapsto> ?v)\<rparr>"
  have "hcell ?h a = Some (Ptrs (map Some xs))" using a lt by simp
  then have "realloc_ptrs p sz h = Inr (hnext h, ?h\<lparr>hcell := (hcell ?h)(a := None)\<rparr>)"
    using Some a assms(3) by (simp add: realloc_ptrs_def sizeof_ptr_def halloc_def resize_grow)
  moreover have "heap_ok (?h\<lparr>hcell := (hcell ?h)(a := None)\<rparr>)"
    using assms(1) by (auto simp: heap_ok_def less_Suc_eq split: if_splits)
  ultimately show ?thesis using Some lt by (auto simp: fun_upd_twist)
qed

lemma store_ptr_ok:
  assumes "hcell h b = Some (Ptrs (map Some xs @ [None]))" and "j = length xs"
  shows "store_ptr (Some b) j v h = Inr (h\<lparr>hcell := (hcell h)(b \<mapsto> Ptrs (map Some xs @ [v]))\<rparr>)"
  using assms by (simp add: store_ptr_def list_update_append)

text \<open>
  The loop over the tokens: it never stores outside the array, and leaves one new string per
  token and an array of exactly these, the array of before being gone.
\<close>

lemma push_tokens_ok:
  "heap_ok h \<Longrightarrow> array_at h p xs \<Longrightarrow> sz div 8 = length xs \<Longrightarrow>
   \<exists>as p' h'. push_tokens ts sz (length xs) p h = Inr (sz + 8 * length ts, length xs + length ts, p', h') \<and>
     heap_ok h' \<and> hnext h \<le> hnext h' \<and> length as = length ts \<and> distinct as \<and>
     set as \<subseteq> {hnext h..<hnext h'} \<and> (p' = None \<longleftrightarrow> p = None \<and> ts = []) \<and>
     (\<forall>b. p' = Some b \<longrightarrow> (p = Some b \<or> hnext h \<le> b) \<and> b < hnext h' \<and> b \<notin> set as) \<and>
     hcell h' = put_block ((drop_block (hcell h) p)(as [\<mapsto>] map Text ts)) p' (Ptrs (map Some (xs @ as)))"
proof (induction ts arbitrary: xs sz p h)
  case Nil
  then have "put_block (drop_block (hcell h) p) p (Ptrs (map Some xs)) = hcell h"
    by (auto simp: array_at_def split: option.splits)
  with Nil show ?case by (auto simp: heap_ok_def array_at_def intro!: exI [of _ "[]"])
next
  case (Cons t ts)
  let ?b = "hnext h"
  have sz: "(sz + 8) div 8 = Suc (length xs)" using Cons.prems(3) by simp
  obtain h1 where h1: "realloc_ptrs p (sz + 8) h = Inr (?b, h1)" "heap_ok h1" "hnext h1 = Suc ?b"
    "hcell h1 = (drop_block (hcell h) p)(?b \<mapsto> Ptrs (map Some xs @ [None]))"
    using realloc_ptrs_ok [OF Cons.prems(1,2) sz] by blast
  let ?d = "Suc ?b"
  let ?h2 = "h1\<lparr>hnext := Suc ?d, hcell := (hcell h1)(?d \<mapsto> Text t)\<rparr>"
  have alloc: "halloc (Text t) h1 = (?d, ?h2)" using h1(3) by (simp add: halloc_def)
  have "hcell ?h2 ?b = Some (Ptrs (map Some xs @ [None]))" using h1(4) by simp
  let ?h3 = "?h2\<lparr>hcell := (hcell ?h2)(?b \<mapsto> Ptrs (map Some xs @ [Some ?d]))\<rparr>"
  have st: "store_ptr (Some ?b) (length xs) (Some ?d) ?h2 = Inr ?h3"
    by (rule store_ptr_ok) (use h1(4) in simp_all)
  have ok: "heap_ok ?h3"
    using h1(2,3) by (auto simp: heap_ok_def less_Suc_eq split: if_splits)
  have arr: "array_at ?h3 (Some ?b) (xs @ [?d])" by (simp add: array_at_def)
  have len: "(sz + 8) div 8 = length (xs @ [?d])" using Cons.prems(3) by simp
  obtain as p' h' where ih: "push_tokens ts (sz + 8) (length (xs @ [?d])) (Some ?b) ?h3 =
        Inr (sz + 8 + 8 * length ts, length (xs @ [?d]) + length ts, p', h')"
      "heap_ok h'" "hnext ?h3 \<le> hnext h'" "length as = length ts" "distinct as"
      "set as \<subseteq> {hnext ?h3..<hnext h'}" "p' \<noteq> None"
      "\<forall>b. p' = Some b \<longrightarrow> (Some ?b = Some b \<or> hnext ?h3 \<le> b) \<and> b < hnext h' \<and> b \<notin> set as"
      "hcell h' = put_block ((drop_block (hcell ?h3) (Some ?b))(as [\<mapsto>] map Text ts)) p'
        (Ptrs (map Some ((xs @ [?d]) @ as)))"
    using Cons.IH [OF ok arr len] by blast
  have fresh: "hcell h ?b = None" using Cons.prems(1) by (simp add: heap_ok_fresh)
  have "(drop_block (hcell ?h3) (Some ?b)) = (drop_block (hcell h) p)(?d \<mapsto> Text t)"
    using h1(4) fresh by (cases p) (auto simp: fun_eq_iff)
  with ih(9) have "hcell h' = put_block ((drop_block (hcell h) p)(?d # as [\<mapsto>] map Text (t # ts))) p'
      (Ptrs (map Some (xs @ ?d # as)))" by simp
  moreover have "push_tokens (t # ts) sz (length xs) p h =
      Inr (sz + 8 * length (t # ts), length xs + length (t # ts), p', h')"
    using h1(1) alloc st ih(1) by (simp add: sizeof_ptr_def)
  moreover have "distinct (?d # as)" and "set (?d # as) \<subseteq> {hnext h..<hnext h'}"
    using ih(3,5,6) by auto
  moreover have "\<forall>b. p' = Some b \<longrightarrow> (p = Some b \<or> hnext h \<le> b) \<and> b < hnext h' \<and> b \<notin> set (?d # as)"
    using ih(8) by auto
  ultimately show ?case using ih(2,3,4,7)
    by (intro exI [of _ "?d # as"] exI [of _ p'] exI [of _ h']) (simp add: fun_upd_def)
qed


text \<open>What one command owns: its array, its strings, and the words these are.\<close>

type_synonym owned = "addr \<times> addr list \<times> string list"

definition own_one :: "owned \<Rightarrow> (addr \<rightharpoonup> cell) \<Rightarrow> addr \<rightharpoonup> cell" where
  "own_one = (\<lambda>(b, as, ws) m. (m(as [\<mapsto>] map Text ws))(b \<mapsto> Ptrs (map Some as @ [None])))"

definition own_map :: "owned list \<Rightarrow> (addr \<rightharpoonup> cell) \<Rightarrow> addr \<rightharpoonup> cell" where
  "own_map os m = fold own_one os m"

definition own_addrs :: "owned list \<Rightarrow> addr list" where
  "own_addrs os = concat (map (\<lambda>(b, as, ws). as @ [b]) os)"

definition own_cmd :: "owned \<Rightarrow> Command" where
  "own_cmd = (\<lambda>(b, as, ws). \<lparr>argv = Some b, argc = length ws\<rparr>)"

definition own_words :: "owned \<Rightarrow> string list" where
  "own_words = (\<lambda>(b, as, ws). ws)"

definition own_fits :: "owned list \<Rightarrow> bool" where
  "own_fits os \<longleftrightarrow> (\<forall>(b, as, ws) \<in> set os. length as = length ws) \<and> distinct (own_addrs os)"

lemma own_map_snoc: "own_map (os @ [x]) m = own_one x (own_map os m)"
  by (simp add: own_map_def)

lemma own_addrs_snoc: "own_addrs (os @ [(b, as, ws)]) = own_addrs os @ as @ [b]"
  by (simp add: own_addrs_def)

lemma own_one_other: "a \<noteq> b \<Longrightarrow> a \<notin> set as \<Longrightarrow> own_one (b, as, ws) m a = m a"
  by (simp add: own_one_def)

lemma own_map_other: "a \<notin> set (own_addrs os) \<Longrightarrow> own_map os m a = m a"
proof (induction os rule: rev_induct)
  case Nil
  then show ?case by (simp add: own_map_def)
next
  case (snoc x os)
  then show ?case
    by (cases x) (auto simp: own_map_snoc own_addrs_snoc own_one_other)
qed

text \<open>Every owned block holds what the command says.\<close>

lemma own_map_here:
  "own_fits os \<Longrightarrow> (b, as, ws) \<in> set os \<Longrightarrow>
   own_map os m b = Some (Ptrs (map Some as @ [None])) \<and> map (own_map os m) as = map (Some \<circ> Text) ws"
proof (induction os rule: rev_induct)
  case Nil
  then show ?case by simp
next
  case (snoc x os)
  obtain b' as' ws' where x: "x = (b', as', ws')" by (cases x)
  have fits: "own_fits os" and disj: "set (own_addrs os) \<inter> set (as' @ [b']) = {}"
    and as': "distinct as'" "b' \<notin> set as'" "length as' = length ws'"
    using snoc.prems(1) x by (auto simp: own_fits_def own_addrs_snoc)
  show ?case
  proof (cases "(b, as, ws) = x")
    case True
    let ?m = "(own_map os m)(as' [\<mapsto>] map Text ws')"
    have "map ?m as' = map Some (map Text ws')"
      by (rule map_upds_values) (use as' in simp_all)
    moreover have "map (?m(b' \<mapsto> v)) as' = map ?m as'" for v using as' by auto
    ultimately have "map (?m(b' \<mapsto> v)) as' = map Some (map Text ws')" for v by metis
    then show ?thesis using True x
      unfolding own_map_snoc own_one_def by (simp only: prod.case prod.inject fun_upd_same list.map_comp)
  next
    case False
    with snoc.prems(2) have mem: "(b, as, ws) \<in> set os" by auto
    then have "set (as @ [b]) \<subseteq> set (own_addrs os)" by (force simp: own_addrs_def)
    then have same: "own_one x (own_map os m) a = own_map os m a" if "a \<in> set (as @ [b])" for a
      using that disj x by (auto intro!: own_one_other)
    then have "map (own_one x (own_map os m)) as = map (own_map os m) as" by simp
    then show ?thesis using snoc.IH [OF fits mem] same [of b] by (simp add: own_map_snoc)
  qed
qed


lemma own_map_indep:
  assumes "own_fits os" and "a \<in> set (own_addrs os)"
  shows "own_map os m a = own_map os m' a"
proof -
  from assms(2) obtain b as ws where mem: "(b, as, ws) \<in> set os" and a: "a = b \<or> a \<in> set as"
    by (auto simp: own_addrs_def)
  from own_map_here [OF assms(1) mem] have "own_map os m b = own_map os m' b"
    and "map (own_map os m) as = map (own_map os m') as" by simp_all
  with a show ?thesis by auto
qed

lemma scan_cmd_ok:
  assumes ok: "heap_ok h" and buf: "hcell h ba = Some (Ptrs slots)" and i: "i < length slots"
    and slot: "slots ! i = Some p" "hcell h p = Some (Text s)"
    and ca: "hcell h ca = Some (Cmds cs)" "i < length cs"
    and ws: "ws = strtok_all {CHR '' '', CHR 0x0A} s"
  shows "\<exists>b as h'. scan_cmd (Some ba) (Some ca) i h = Inr h' \<and> heap_ok h' \<and> hnext h \<le> hnext h' \<and>
    length as = length ws \<and> distinct (as @ [b]) \<and> set (as @ [b]) \<subseteq> {hnext h..<hnext h'} \<and>
    hcell h' = (own_one (b, as, ws) (hcell h))(ca \<mapsto> Cmds (cs[i := own_cmd (b, as, ws)]))"
proof -
  obtain as p1 h1 where h1: "push_tokens ws 1 (length ([] :: addr list)) None h = Inr (1 + 8 * length ws, length ([] :: addr list) + length ws, p1, h1)"
      "heap_ok h1" "hnext h \<le> hnext h1" "length as = length ws" "distinct as"
      "set as \<subseteq> {hnext h..<hnext h1}"
      "\<forall>b. p1 = Some b \<longrightarrow> (None = Some b \<or> hnext h \<le> b) \<and> b < hnext h1 \<and> b \<notin> set as"
      "hcell h1 = put_block ((drop_block (hcell h) None)(as [\<mapsto>] map Text ws)) p1 (Ptrs (map Some ([] @ as)))"
      "(p1 = None) = (None = (None :: addr option) \<and> ws = [])"
    using push_tokens_ok [OF ok, of None "[]" 1 ws] by (auto simp: array_at_def)
  have arr: "array_at h1 p1 as"
    using h1(4,8,9) by (cases p1) (auto simp: array_at_def)
  have "(1 + 8 * length ws + 8) div 8 = Suc (length as)" using h1(4) by simp
  then obtain h2 where h2: "realloc_ptrs p1 (1 + 8 * length ws + 8) h1 = Inr (hnext h1, h2)" "heap_ok h2"
      "hnext h2 = Suc (hnext h1)"
      "hcell h2 = (drop_block (hcell h1) p1)(hnext h1 \<mapsto> Ptrs (map Some as @ [None]))"
    using realloc_ptrs_ok [OF h1(2) arr] by blast
  let ?b = "hnext h1"
  let ?h3 = "h2\<lparr>hcell := (hcell h2)(?b \<mapsto> Ptrs (map Some as @ [None]))\<rparr>"
  have h3: "store_ptr (Some ?b) (length ws) None h2 = Inr ?h3"
    using store_ptr_ok [of h2 ?b as "length ws" None] h2(4) h1(4) by simp
  have low: "\<And>a. hcell h a \<noteq> None \<Longrightarrow> a < hnext h" using ok by (auto simp: heap_ok_def)
  have own: "hcell ?h3 = own_one (?b, as, ws) (hcell h)"
  proof
    fix a
    show "hcell ?h3 a = own_one (?b, as, ws) (hcell h) a"
    proof (cases p1)
      case None
      then show ?thesis using h1(8) h2(4) by (simp add: own_one_def)
    next
      case (Some q)
      with h1(7) have q: "hnext h \<le> q" "q < ?b" "q \<notin> set as" by auto
      then have "hcell h q = None" using low by fastforce
      then show ?thesis using Some h1(8) h2(4) q by (auto simp: own_one_def)
    qed
  qed
  have "ca < hnext h" using low [of ca] ca(1) by simp
  then have "ca \<notin> set (as @ [?b])" using h1(3,6) by auto
  then have ca3: "hcell ?h3 ca = Some (Cmds cs)" using own ca(1) by (simp add: own_one_other del: fun_upd_apply)
  let ?h4 = "?h3\<lparr>hcell := (hcell ?h3)(ca \<mapsto> Cmds (cs[i := own_cmd (?b, as, ws)]))\<rparr>"
  have st: "store_cmd (Some ca) i \<lparr>argv = Some ?b, argc = length ws\<rparr> ?h3 = Inr ?h4"
    using ca3 ca(2) by (simp add: store_cmd_def own_cmd_def del: heap.simps fun_upd_apply)
  have "scan_cmd (Some ba) (Some ca) i h = Inr ?h4"
    using buf i slot h1(1) h2(1) h3 st ws
    by (simp add: scan_cmd_def load_ptr_def sizeof_ptr_def)
  moreover have "heap_ok ?h4"
    using h2(2,3) \<open>ca < hnext h\<close> h1(3) by (auto simp: heap_ok_def split: if_splits)
  ultimately show ?thesis using own h1(3-6) h2(3)
    by (intro exI [of _ ?b] exI [of _ as] exI [of _ ?h4]) auto
qed


lemma scan_each_snoc:
  "scan_each (is @ [i]) buf cs h =
   (case scan_each is buf cs h of Inl e \<Rightarrow> Inl e | Inr h \<Rightarrow> scan_cmd buf cs i h)"
  by (induction "is" arbitrary: h) (auto split: sum.splits)

text \<open>The words of the command lines between the bars.\<close>

definition words_of :: "string \<Rightarrow> string list" where
  "words_of s = strtok_all {CHR '' '', CHR 0x0A} s"

definition commands_of :: "string \<Rightarrow> string list list" where
  "commands_of line = map words_of (strtok_all {CHR ''|''} line)"

text \<open>The array \<open>buf\<close> of the strings \<open>ls\<close>, as \<open>scan_CmdLine\<close> returns it.\<close>

definition lines_at :: "cell heap \<Rightarrow> addr option \<Rightarrow> addr list \<Rightarrow> string list \<Rightarrow> bool" where
  "lines_at h p ps ls \<longleftrightarrow>
     array_at h p ps \<and> length ps = length ls \<and> map (hcell h) ps = map (Some \<circ> Text) ls"

lemma lines_at_nth:
  "lines_at h p ps ls \<Longrightarrow> i < length ls \<Longrightarrow> hcell h (ps ! i) = Some (Text (ls ! i))"
  unfolding lines_at_def by (metis comp_apply length_map nth_map)

lemma lines_at_frame:
  assumes "lines_at h p ps ls" and "\<And>a. a \<in> set ps \<or> p = Some a \<Longrightarrow> hcell h' a = hcell h a"
  shows "lines_at h' p ps ls"
proof -
  have "map (hcell h') ps = map (hcell h) ps" using assms(2) by simp
  moreover have "array_at h' p ps = array_at h p ps"
    using assms(2) by (simp add: array_at_def split: option.splits)
  ultimately show ?thesis using assms(1) by (simp only: lines_at_def)
qed

lemma scan_each_ok:
  assumes "heap_ok h" and "lines_at h p ps ls" and "hcell h ca = Some (Cmds cs)"
    and "length cs = length ls" and "ca \<notin> set ps" and "p \<noteq> Some ca" and "k \<le> length ls"
  shows "\<exists>os h'. scan_each [0..<k] p (Some ca) h = Inr h' \<and> heap_ok h' \<and> hnext h \<le> hnext h' \<and>
    map own_words os = map words_of (take k ls) \<and> own_fits os \<and>
    set (own_addrs os) \<subseteq> {hnext h..<hnext h'} \<and>
    hcell h' = (own_map os (hcell h))(ca \<mapsto> Cmds (map own_cmd os @ drop k cs))"
  using assms(7)
proof (induction k)
  case 0
  have "hcell h = (own_map [] (hcell h))(ca \<mapsto> Cmds (map own_cmd [] @ drop 0 cs))"
    using assms(3) by (auto simp: own_map_def)
  then show ?case using assms(1)
    by (intro exI [of _ "[]"] exI [of _ h]) (simp add: own_fits_def own_addrs_def)
next
  case (Suc k)
  then obtain os h1 where h1: "scan_each [0..<k] p (Some ca) h = Inr h1" "heap_ok h1" "hnext h \<le> hnext h1"
      "map own_words os = map words_of (take k ls)" "own_fits os" "set (own_addrs os) \<subseteq> {hnext h..<hnext h1}"
      "hcell h1 = (own_map os (hcell h))(ca \<mapsto> Cmds (map own_cmd os @ drop k cs))"
    using Suc_leD by blast
  have k: "k < length ls" using Suc.prems by simp
  have los: "length os = k"
    using arg_cong [OF h1(4), of length] k by simp
  have low: "a < hnext h" if "hcell h a \<noteq> None" for a
    using assms(1) that by (auto simp: heap_ok_def)
  have same: "hcell h1 a = hcell h a" if "hcell h a \<noteq> None" "a \<noteq> ca" for a
    using that low [of a] h1(6,7) by (auto intro!: own_map_other)
  have lines: "lines_at h1 p ps ls"
  proof (rule lines_at_frame [OF assms(2)])
    fix a
    assume a: "a \<in> set ps \<or> p = Some a"
    have "map (hcell h) ps = map (Some \<circ> Text) ls" using assms(2) by (simp add: lines_at_def)
    then have "\<forall>q \<in> set ps. hcell h q \<noteq> None" by (metis (no_types, lifting) comp_apply in_set_conv_nth length_map nth_map option.distinct(1))
    moreover have "p = Some a \<Longrightarrow> hcell h a \<noteq> None" using assms(2) by (simp add: lines_at_def array_at_def)
    ultimately show "hcell h1 a = hcell h a" using a assms(5,6) by (intro same) auto
  qed
  obtain ba where p: "p = Some ba" and ba: "hcell h1 ba = Some (Ptrs (map Some ps))"
    using lines k by (auto simp: lines_at_def array_at_def split: option.splits)
  have kp: "k < length (map Some ps)" using lines k by (simp add: lines_at_def)
  have sl: "map Some ps ! k = Some (ps ! k)" using kp by simp
  have tx: "hcell h1 (ps ! k) = Some (Text (ls ! k))" using lines k by (rule lines_at_nth)
  have ca: "hcell h1 ca = Some (Cmds (map own_cmd os @ drop k cs))" using h1(7) by simp
  have kc: "k < length (map own_cmd os @ drop k cs)" using k los assms(4) by simp
  obtain b as h2 where h2: "scan_cmd (Some ba) (Some ca) k h1 = Inr h2" "heap_ok h2" "hnext h1 \<le> hnext h2"
      "length as = length (words_of (ls ! k))" "distinct (as @ [b])" "set (as @ [b]) \<subseteq> {hnext h1..<hnext h2}"
      "hcell h2 = (own_one (b, as, words_of (ls ! k)) (hcell h1))
        (ca \<mapsto> Cmds ((map own_cmd os @ drop k cs)[k := own_cmd (b, as, words_of (ls ! k))]))"
    using scan_cmd_ok [OF h1(2) ba kp sl tx ca kc refl] unfolding words_of_def by blast
  let ?x = "(b, as, words_of (ls ! k))"
  have ca_low: "ca < hnext h1" using h1(2) ca by (rule heap_ok_less)
  have "(map own_cmd os @ drop k cs)[k := own_cmd ?x] = map own_cmd (os @ [?x]) @ drop (Suc k) cs"
    using los k assms(4) by (simp add: list_update_append Cons_nth_drop_Suc [symmetric])
  moreover have "(own_one ?x (hcell h1))(ca \<mapsto> v) = (own_map (os @ [?x]) (hcell h))(ca \<mapsto> v)" for v
  proof
    fix a
    show "((own_one ?x (hcell h1))(ca \<mapsto> v)) a = ((own_map (os @ [?x]) (hcell h))(ca \<mapsto> v)) a"
    proof (cases "a = ca")
      case False
      have same_as: "((m(ca \<mapsto> u))(as [\<mapsto>] vs)) a = (m(as [\<mapsto>] vs)) a" for m :: "addr \<rightharpoonup> cell" and u vs
        using False by (auto simp: map_upds_def map_add_def split: option.splits)
      show ?thesis using False same_as by (simp add: own_map_snoc h1(7) own_one_def)
    qed simp
  qed
  ultimately have "hcell h2 = (own_map (os @ [?x]) (hcell h))(ca \<mapsto> Cmds (map own_cmd (os @ [?x]) @ drop (Suc k) cs))"
    using h2(7) by simp
  moreover have "own_fits (os @ [?x])"
  proof -
    have "x < hnext h1" if "x \<in> set (own_addrs os)" for x using that h1(6) by auto
    moreover have "hnext h1 \<le> x" if "x \<in> set (as @ [b])" for x using that h2(6) by auto
    ultimately have "set (own_addrs os) \<inter> set (as @ [b]) = {}" by fastforce
    then show ?thesis using h1(5) h2(4,5) by (auto simp: own_fits_def own_addrs_snoc)
  qed
  moreover have "map own_words (os @ [?x]) = map words_of (take (Suc k) ls)"
    using h1(4) k by (simp add: take_Suc_conv_app_nth own_words_def)
  moreover have "set (own_addrs (os @ [?x])) \<subseteq> {hnext h..<hnext h2}"
    using h1(3,6) h2(3,6) by (auto simp: own_addrs_snoc)
  moreover have "scan_each [0..<Suc k] p (Some ca) h = Inr h2"
    using h1(1) h2(1) p by (simp add: scan_each_snoc)
  ultimately show ?case using h2(2,3) h1(3)
    by (intro exI [of _ "os @ [?x]"] exI [of _ h2]) simp
qed

text \<open>Freeing the strings of an array, slot by slot, is freeing a list of blocks.\<close>

lemma free_slots_each:
  "hcell h p = Some (Ptrs slots) \<Longrightarrow> (\<And>i. i \<in> set js \<Longrightarrow> i < length slots \<and> slots ! i = Some (xs ! i)) \<Longrightarrow>
   (\<And>i. i \<in> set js \<Longrightarrow> xs ! i \<noteq> p) \<Longrightarrow>
   free_slots js (Some p) h = free_each hfree (map (\<lambda>i. xs ! i) js) h"
proof (induction js arbitrary: h)
  case Nil
  then show ?case by simp
next
  case (Cons i js)
  from Cons.prems(2) [of i] have "i < length slots" and "slots ! i = Some (xs ! i)" by auto
  then have l: "load_ptr (Some p) i h = Inr (Some (xs ! i))"
    using Cons.prems(1) by (simp add: load_ptr_def)
  show ?case
  proof (cases "hfree (Some (xs ! i)) h")
    case (Inl e)
    then show ?thesis using l by simp
  next
    case (Inr h1)
    then have "hcell h1 p = hcell h p" using Cons.prems(3) [of i]
      by (auto simp: hfree_def split: option.splits)
    then have "free_slots js (Some p) h1 = free_each hfree (map (\<lambda>i. xs ! i) js) h1"
      using Cons.prems by (intro Cons.IH) auto
    then show ?thesis using l Inr by simp
  qed
qed

lemma free_slots_ok:
  assumes "heap_ok h" and "hcell h p = Some (Ptrs (map Some xs @ rest))" and "distinct xs"
    and "p \<notin> set xs" and "\<And>a. a \<in> set xs \<Longrightarrow> hcell h a \<noteq> None"
  shows "\<exists>h'. free_slots [0..<length xs] (Some p) h = Inr h' \<and> heap_ok h' \<and>
    hcell h' = (\<lambda>a. if a \<in> set xs then None else hcell h a)"
proof -
  have "free_slots [0..<length xs] (Some p) h = free_each hfree (map (\<lambda>i. xs ! i) [0..<length xs]) h"
    using assms(2,4) by (intro free_slots_each) (auto simp: nth_append)
  also have "map (\<lambda>i. xs ! i) [0..<length xs] = xs" by (rule map_nth)
  finally show ?thesis using cheap.free_each_ok [OF assms(1,3,5)] by auto
qed


text \<open>\<open>scan_CmdLine\<close>: the strings between the bars; the read buffer is gone.\<close>

lemma scan_CmdLine_ok:
  assumes ok: "heap_ok h" and line: "fgets BUFFER_SIZE inp = Some (line, rest)"
    and ls: "ls = strtok_all {CHR ''|''} line"
  shows "\<exists>p ps h'. scan_CmdLine errno inp h = Inr (p, length ls, rest, h') \<and> heap_ok h' \<and> hnext h \<le> hnext h' \<and>
    lines_at h' p ps ls \<and> distinct ps \<and> set ps \<subseteq> {hnext h..<hnext h'} \<and>
    (\<forall>a. p = Some a \<longrightarrow> hnext h \<le> a \<and> a < hnext h' \<and> a \<notin> set ps) \<and>
    (\<forall>a. a \<notin> set ps \<and> p \<noteq> Some a \<longrightarrow> hcell h' a = hcell h a)"
proof -
  let ?buf = "hnext h"
  let ?h1 = "h\<lparr>hnext := Suc ?buf, hcell := (hcell h)(?buf \<mapsto> Text [])\<rparr>"
  let ?h2 = "?h1\<lparr>hcell := (hcell ?h1)(?buf \<mapsto> Text line)\<rparr>"
  have a: "halloc (Text []) h = (?buf, ?h1)" by (simp add: halloc_def)
  have w: "hwrite (Some ?buf) (Text line) ?h1 = Inr ?h2" by (rule hwrite_Some) simp
  have ok2: "heap_ok ?h2" using ok by (auto simp: heap_ok_def less_Suc_eq split: if_splits)
  obtain ps p h3 where h3: "push_tokens ls 0 (length ([] :: addr list)) None ?h2 =
        Inr (0 + 8 * length ls, length ([] :: addr list) + length ls, p, h3)"
      "heap_ok h3" "hnext ?h2 \<le> hnext h3" "length ps = length ls" "distinct ps"
      "set ps \<subseteq> {hnext ?h2..<hnext h3}" "(p = None) = (None = (None :: addr option) \<and> ls = [])"
      "\<forall>b. p = Some b \<longrightarrow> (None = Some b \<or> hnext ?h2 \<le> b) \<and> b < hnext h3 \<and> b \<notin> set ps"
      "hcell h3 = put_block ((drop_block (hcell ?h2) None)(ps [\<mapsto>] map Text ls)) p (Ptrs (map Some ([] @ ps)))"
    using push_tokens_ok [OF ok2, of None "[]" 0 ls] by (auto simp: array_at_def)
  let ?m = "(hcell ?h2)(ps [\<mapsto>] map Text ls)"
  have buf: "?buf \<notin> set ps" "p \<noteq> Some ?buf" using h3(6,8) by auto
  then have "?m ?buf = Some (Text line)" by (simp add: map_upds_apply_nontin)
  then have buf3: "hcell h3 ?buf = Some (Text line)" using h3(9) buf(2) by (cases p) auto
  let ?h4 = "h3\<lparr>hcell := (hcell h3)(?buf := None)\<rparr>"
  have fr: "hfree (Some ?buf) h3 = Inr ?h4" using buf3 by simp
  have "scan_CmdLine errno inp h = Inr (p, length ls, rest, ?h4)"
    unfolding scan_CmdLine_def using a line w h3(1) fr ls by simp
  moreover have "heap_ok ?h4" using h3(2) by (simp add: heap_ok_def)
  moreover have "lines_at ?h4 p ps ls"
  proof -
    have "map ?m ps = map Some (map Text ls)" using h3(4,5) by (intro map_upds_values) simp_all
    moreover have "map (hcell ?h4) ps = map ?m ps" using h3(8,9) buf by (cases p) auto
    moreover have "array_at ?h4 p ps" using h3(4,7,8,9) buf by (cases p) (auto simp: array_at_def)
    ultimately show ?thesis using h3(4) by (simp add: lines_at_def comp_def)
  qed
  moreover have "hcell ?h4 a = hcell h a" if "a \<notin> set ps" "p \<noteq> Some a" for a
  proof (cases "a = ?buf")
    case True
    then show ?thesis using ok by (simp add: heap_ok_fresh)
  next
    case False
    then show ?thesis using that h3(9) by (cases p) (auto simp: map_upds_apply_nontin)
  qed
  ultimately show ?thesis using h3(3,5,6,8)
    by (intro exI [of _ p] exI [of _ ps] exI [of _ ?h4]) auto
qed


text \<open>
  \<open>scan_cmds\<close>: the array of commands and what they own is all that is new on the heap.
\<close>

definition owns :: "cell heap \<Rightarrow> CommandLine \<Rightarrow> cell heap \<Rightarrow> owned list \<Rightarrow> bool" where
  "owns h0 cl h os \<longleftrightarrow>
     (\<exists>ca. cmds cl = Some ca \<and> cmds_size cl = length os \<and> own_fits os \<and> ca \<notin> set (own_addrs os) \<and>
        (\<forall>a \<in> set (ca # own_addrs os). hcell h0 a = None) \<and> heap_ok h \<and>
        hcell h = (own_map os (hcell h0))(ca \<mapsto> Cmds (map own_cmd os)))"

lemma scan_cmds_ok:
  assumes ok: "heap_ok h" and line: "fgets BUFFER_SIZE inp = Some (line, rest)"
  shows "\<exists>cl os h'. scan_cmds errno inp h = Inr (cl, rest, h') \<and> owns h cl h' os \<and>
    map own_words os = commands_of line"
proof -
  let ?ls = "strtok_all {CHR ''|''} line"
  let ?n = "length ?ls"
  obtain p ps h1 where h1: "scan_CmdLine errno inp h = Inr (p, ?n, rest, h1)" "heap_ok h1" "hnext h \<le> hnext h1"
      "lines_at h1 p ps ?ls" "distinct ps" "set ps \<subseteq> {hnext h..<hnext h1}"
      "\<forall>a. p = Some a \<longrightarrow> hnext h \<le> a \<and> a < hnext h1 \<and> a \<notin> set ps"
      "\<forall>a. a \<notin> set ps \<and> p \<noteq> Some a \<longrightarrow> hcell h1 a = hcell h a"
    using scan_CmdLine_ok [OF ok line refl] by blast
  let ?ca = "hnext h1" and ?cs = "replicate ?n \<lparr>argv = None, argc = 0\<rparr>"
  let ?h2 = "h1\<lparr>hnext := Suc ?ca, hcell := (hcell h1)(?ca \<mapsto> Cmds ?cs)\<rparr>"
  have a: "halloc (Cmds ?cs) h1 = (?ca, ?h2)" by (simp add: halloc_def)
  have ok2: "heap_ok ?h2" using h1(2) by (auto simp: heap_ok_def less_Suc_eq split: if_splits)
  have ca: "?ca \<notin> set ps" "p \<noteq> Some ?ca" using h1(6,7) by auto
  then have l2: "lines_at ?h2 p ps ?ls" by (intro lines_at_frame [OF h1(4)]) auto
  obtain os h3 where h3: "scan_each [0..<?n] p (Some ?ca) ?h2 = Inr h3" "heap_ok h3" "hnext ?h2 \<le> hnext h3"
      "map own_words os = map words_of (take ?n ?ls)" "own_fits os" "set (own_addrs os) \<subseteq> {hnext ?h2..<hnext h3}"
      "hcell h3 = (own_map os (hcell ?h2))(?ca \<mapsto> Cmds (map own_cmd os @ drop ?n ?cs))"
    using scan_each_ok [OF ok2 l2 _ _ ca order_refl, of ?cs] by auto
  have fresh: "a < hnext ?h2 \<Longrightarrow> a \<notin> set (own_addrs os)" for a using h3(6) by auto
  have keep: "hcell h3 a = hcell h1 a" if "a < ?ca" for a
    using that h3(7) fresh [of a] by (simp add: own_map_other)
  have low: "\<forall>a. a \<in> set ps \<or> p = Some a \<longrightarrow> a < ?ca" using h1(6,7) by auto
  have l3: "lines_at h3 p ps ?ls" by (rule lines_at_frame [OF h1(4)]) (use keep low in auto)
  have len: "length ps = ?n" using l3 by (simp add: lines_at_def)
  have "\<exists>h5. (case free_slots [0..<?n] p h3 of Inl e \<Rightarrow> Inl e | Inr h \<Rightarrow> hfree p h) = Inr h5 \<and> heap_ok h5 \<and>
      hcell h5 = (\<lambda>a. if a \<in> set ps \<or> p = Some a then None else hcell h3 a)"
  proof (cases p)
    case None
    then have "ps = []" using l3 by (simp add: lines_at_def array_at_def)
    then show ?thesis using None len h3(2) by simp
  next
    case (Some ba)
    then have "hcell h3 ba = Some (Ptrs (map Some ps @ []))" using l3 by (simp add: lines_at_def array_at_def)
    moreover have "ba \<notin> set ps" using Some h1(7) by simp
    moreover have "hcell h3 a \<noteq> None" if "a \<in> set ps" for a
      using that l3 len lines_at_nth [OF l3] by (auto simp: in_set_conv_nth)
    ultimately obtain h4 where "free_slots [0..<length ps] (Some ba) h3 = Inr h4" "heap_ok h4"
        "hcell h4 = (\<lambda>a. if a \<in> set ps then None else hcell h3 a)" "hcell h4 ba = Some (Ptrs (map Some ps))"
      using free_slots_ok [OF h3(2) _ h1(5), of ba "[]"] by auto
    then show ?thesis using Some len by (auto simp: heap_ok_def)
  qed
  then obtain h5 where h5: "(case free_slots [0..<?n] p h3 of Inl e \<Rightarrow> Inl e | Inr h \<Rightarrow> hfree p h) = Inr h5"
      "heap_ok h5" "hcell h5 = (\<lambda>a. if a \<in> set ps \<or> p = Some a then None else hcell h3 a)" by blast
  let ?cl = "\<lparr>cmds = Some ?ca, cmds_size = ?n\<rparr>"
  have "scan_cmds errno inp h = Inr (?cl, rest, h5)"
    using h1(1) a h3(1) h5(1) by (auto simp: scan_cmds_def Let_def split: sum.splits)
  moreover have los: "length os = ?n" using arg_cong [OF h3(4), of length] by simp
  moreover have "hcell h5 = (own_map os (hcell h))(?ca \<mapsto> Cmds (map own_cmd os))"
  proof
    fix a
    have gone: "hcell h a = None" if "a \<in> set ps \<or> p = Some a"
      using that h1(6,7) ok by (auto intro!: heap_ok_fresh)
    have old: "hcell h1 a = hcell h a" if "\<not> (a \<in> set ps \<or> p = Some a)" using that h1(8) by blast
    consider "a = ?ca" | "a \<noteq> ?ca" "a \<in> set (own_addrs os)" | "a \<noteq> ?ca" "a \<notin> set (own_addrs os)" by blast
    then show "hcell h5 a = ((own_map os (hcell h))(?ca \<mapsto> Cmds (map own_cmd os))) a"
    proof cases
      case 1
      then show ?thesis using h5(3) h3(7) ca by simp
    next
      case 2
      then have "\<not> (a \<in> set ps \<or> p = Some a)" using fresh [of a] low by auto
      then have "hcell h5 a = own_map os (hcell ?h2) a" using 2 h5(3) h3(7) by simp
      also have "\<dots> = own_map os (hcell h) a" by (rule own_map_indep [OF h3(5) 2(2)])
      finally show ?thesis using 2 by simp
    next
      case 3
      then show ?thesis using gone old h5(3) h3(7) by (auto simp: own_map_other)
    qed
  qed
  moreover have "\<forall>a \<in> set (?ca # own_addrs os). hcell h a = None"
    using h3(6) h1(3) ok by (auto intro!: heap_ok_fresh)
  moreover have "?ca \<notin> set (own_addrs os)" using fresh by simp
  ultimately show ?thesis using h5(2) h3(4,5)
    by (intro exI [of _ ?cl] exI [of _ os] exI [of _ h5]) (simp add: owns_def commands_of_def)
qed


lemma free_cmds_snoc:
  "free_cmds (is @ [i]) p h =
   (case free_cmds is p h of Inl e \<Rightarrow> Inl e | Inr h \<Rightarrow>
   (case load_cmd p i h of Inl e \<Rightarrow> Inl e | Inr c \<Rightarrow>
   (case free_slots [0..<argc c] (argv c) h of Inl e \<Rightarrow> Inl e | Inr h \<Rightarrow> hfree (argv c) h)))"
  by (induction "is" arbitrary: h) (auto split: sum.splits)

lemma own_addrs_nth:
  assumes "own_fits os" and "i < length os" and "os ! i = (b, as, ws)"
  shows "set (as @ [b]) \<subseteq> set (own_addrs os)" and "distinct (as @ [b])"
    and "set (own_addrs (take i os)) \<inter> set (as @ [b]) = {}"
    and "own_addrs (take (Suc i) os) = own_addrs (take i os) @ as @ [b]"
proof -
  have os: "os = take i os @ (b, as, ws) # drop (Suc i) os"
    using assms(2,3) by (metis id_take_nth_drop)
  have "own_addrs os = own_addrs (take i os) @ as @ [b] @ own_addrs (drop (Suc i) os)"
    by (subst os) (simp add: own_addrs_def)
  then show "set (as @ [b]) \<subseteq> set (own_addrs os)" "distinct (as @ [b])"
    "set (own_addrs (take i os)) \<inter> set (as @ [b]) = {}"
    using assms(1) by (auto simp: own_fits_def)
  show "own_addrs (take (Suc i) os) = own_addrs (take i os) @ as @ [b]"
    using assms(2,3) by (simp add: take_Suc_conv_app_nth own_addrs_def)
qed

lemma free_cmds_ok:
  assumes "heap_ok h" and "own_fits os" and "ca \<notin> set (own_addrs os)"
    and cell: "hcell h = (own_map os m)(ca \<mapsto> Cmds (map own_cmd os))"
    and "k \<le> length os"
  shows "\<exists>h'. free_cmds [0..<k] (Some ca) h = Inr h' \<and> heap_ok h' \<and>
    hcell h' = (\<lambda>a. if a \<in> set (own_addrs (take k os)) then None else hcell h a)"
  using assms(5)
proof (induction k)
  case 0
  then show ?case using assms(1) by (simp add: own_addrs_def)
next
  case (Suc k)
  then obtain h1 where h1: "free_cmds [0..<k] (Some ca) h = Inr h1" "heap_ok h1"
      "hcell h1 = (\<lambda>a. if a \<in> set (own_addrs (take k os)) then None else hcell h a)"
    using Suc_leD by blast
  obtain b as ws where x: "os ! k = (b, as, ws)" by (cases "os ! k")
  have k: "k < length os" using Suc.prems by simp
  note own = own_addrs_nth [OF assms(2) k x]
  have mem: "(b, as, ws) \<in> set os" using k x by (metis nth_mem)
  then have len: "length as = length ws" using assms(2) by (auto simp: own_fits_def)
  have same: "hcell h1 a = own_map os m a" if "a \<in> set (as @ [b])" for a
  proof -
    have "a \<noteq> ca" using that own(1) assms(3) by auto
    moreover have "a \<notin> set (own_addrs (take k os))" using that own(3) by blast
    ultimately show ?thesis using h1(3) cell by simp
  qed
  have "set (own_addrs (take k os)) \<subseteq> set (own_addrs os)"
    by (auto simp: own_addrs_def dest: in_set_takeD)
  then have "hcell h1 ca = Some (Cmds (map own_cmd os))" using h1(3) cell assms(3) by auto
  then have ld: "load_cmd (Some ca) k h1 = Inr \<lparr>argv = Some b, argc = length as\<rparr>"
    using k x len by (simp add: load_cmd_def own_cmd_def)
  have here: "hcell h1 b = Some (Ptrs (map Some as @ [None]))" "map (hcell h1) as = map (Some \<circ> Text) ws"
    using own_map_here [OF assms(2) mem, of m] same map_cong [OF refl, of as "hcell h1" "own_map os m"]
    by auto
  then have "hcell h1 a \<noteq> None" if "a \<in> set as" for a
    using that len by (metis (no_types, lifting) comp_apply in_set_conv_nth length_map nth_map option.distinct(1))
  moreover have "distinct as" "b \<notin> set as" using own(2) by auto
  ultimately obtain h2 where h2: "free_slots [0..<length as] (Some b) h1 = Inr h2" "heap_ok h2"
      "hcell h2 = (\<lambda>a. if a \<in> set as then None else hcell h1 a)"
    using free_slots_ok [OF h1(2) here(1)] by blast
  then have fr: "hfree (Some b) h2 = Inr (h2\<lparr>hcell := (hcell h2)(b := None)\<rparr>)"
    using here(1) \<open>b \<notin> set as\<close> by simp
  let ?h3 = "h2\<lparr>hcell := (hcell h2)(b := None)\<rparr>"
  have "free_cmds [0..<Suc k] (Some ca) h = Inr ?h3"
    using h1(1) ld h2(1) fr by (simp add: free_cmds_snoc)
  moreover have "heap_ok ?h3" using h2(2) by (simp add: heap_ok_def)
  moreover have "hcell ?h3 = (\<lambda>a. if a \<in> set (own_addrs (take (Suc k) os)) then None else hcell h a)"
    using h1(3) h2(3) own(4) by (auto simp: fun_eq_iff)
  ultimately show ?case by blast
qed

lemma free_cmds_mem_ok:
  assumes "owns h0 cl h os"
  shows "\<exists>h'. free_cmds_mem cl h = Inr h' \<and> heap_ok h' \<and> hcell h' = hcell h0"
proof -
  from assms obtain ca where ca: "cmds cl = Some ca" "cmds_size cl = length os" "own_fits os"
      "ca \<notin> set (own_addrs os)" "\<forall>a \<in> set (ca # own_addrs os). hcell h0 a = None" "heap_ok h"
      "hcell h = (own_map os (hcell h0))(ca \<mapsto> Cmds (map own_cmd os))"
    by (auto simp: owns_def)
  obtain h1 where h1: "free_cmds [0..<length os] (Some ca) h = Inr h1" "heap_ok h1"
      "hcell h1 = (\<lambda>a. if a \<in> set (own_addrs os) then None else hcell h a)"
    using free_cmds_ok [OF ca(6,3,4,7) order_refl] by auto
  then have "hfree (Some ca) h1 = Inr (h1\<lparr>hcell := (hcell h1)(ca := None)\<rparr>)" using ca(4,7) by simp
  moreover have "(hcell h1)(ca := None) = hcell h0"
    using h1(3) ca(5,7) by (auto simp: fun_eq_iff own_map_other)
  moreover have "heap_ok (h1\<lparr>hcell := (hcell h1)(ca := None)\<rparr>)" using h1(2) by (simp add: heap_ok_def)
  ultimately show ?thesis using h1(1) ca(1,2) by (simp add: free_cmds_mem_def)
qed

end
