(* ===== verification/ShellProps.thy ===== *)
theory ShellProps
  imports Shell
begin

text \<open>
  The properties of the parser modelled in Shell: what it builds, that freeing restores the heap, and
  the round trip from commands to a line and back.
\<close>

section \<open>Properties of the parser\<close>

text \<open>What \<open>execvp\<close> reads through \<open>argv\<close>: the strings up to the first \<open>NULL\<close>.\<close>

fun exec_args :: "addr option list \<Rightarrow> cell heap \<Rightarrow> c_error + string list" where
  "exec_args [] h = Inl OutOfBounds"
| "exec_args (None # ps) h = Inr []"
| "exec_args (Some a # ps) h =
     (case hread (Some a) h of
        Inr (Text w) \<Rightarrow> (case exec_args ps h of Inl e \<Rightarrow> Inl e | Inr ws \<Rightarrow> Inr (w # ws))
      | Inr _ \<Rightarrow> Inl OutOfBounds
      | Inl e \<Rightarrow> Inl e)"

definition command_args :: "cell heap \<Rightarrow> CommandLine \<Rightarrow> nat \<Rightarrow> c_error + string list" where
  "command_args h cl i =
     (case load_cmd (cmds cl) i h of Inl e \<Rightarrow> Inl e | Inr c \<Rightarrow>
     (case hread (argv c) h of
        Inr (Ptrs ps) \<Rightarrow> exec_args ps h
      | Inr _ \<Rightarrow> Inl OutOfBounds
      | Inl e \<Rightarrow> Inl e))"

lemma exec_args_texts:
  "map (hcell h) as = map (Some \<circ> Text) ws \<Longrightarrow> exec_args (map Some as @ [None]) h = Inr ws"
  by (induction as arbitrary: ws) (auto simp: Cons_eq_map_conv)

lemma owns_command:
  assumes "owns h0 cl h os" and "i < length os"
  shows "command_args h cl i = Inr (own_words (os ! i)) \<and>
    (\<exists>b. load_cmd (cmds cl) i h = Inr \<lparr>argv = Some b, argc = length (own_words (os ! i))\<rparr>)"
proof -
  from assms(1) obtain ca where ca: "cmds cl = Some ca" "own_fits os" "ca \<notin> set (own_addrs os)"
      "hcell h = (own_map os (hcell h0))(ca \<mapsto> Cmds (map own_cmd os))" by (auto simp: owns_def)
  obtain b as ws where x: "os ! i = (b, as, ws)" by (cases "os ! i")
  have mem: "(b, as, ws) \<in> set os" using assms(2) x by (metis nth_mem)
  note sub = own_addrs_nth(1) [OF ca(2) assms(2) x]
  have same: "hcell h a = own_map os (hcell h0) a" if "a \<in> set (as @ [b])" for a
    using that sub ca(3,4) by auto
  have "hcell h b = Some (Ptrs (map Some as @ [None]))" "map (hcell h) as = map (Some \<circ> Text) ws"
    using own_map_here [OF ca(2) mem, of "hcell h0"] same
      map_cong [OF refl, of as "hcell h" "own_map os (hcell h0)"] by auto
  then show ?thesis using ca(1,4) assms(2) x
    by (simp add: command_args_def load_cmd_def own_cmd_def own_words_def exec_args_texts)
qed

text \<open>C20. Reading a command line builds, for every stretch of text between bars, an \<open>argv\<close> of exactly
  its words in order, ended by \<open>NULL\<close>, with \<open>argc\<close> their number; no store leaves its array,
  although \<open>argv_sz\<close> counts from 1.\<close>

theorem shell_parse_correct:
  assumes "heap_ok h" and "fgets BUFFER_SIZE inp = Some (line, rest)"
  shows "\<exists>cl h'. scan_cmds errno inp h = Inr (cl, rest, h') \<and> cmds_size cl = length (commands_of line) \<and>
    (\<forall>i < cmds_size cl. command_args h' cl i = Inr (commands_of line ! i) \<and>
       (\<exists>b. load_cmd (cmds cl) i h' = Inr \<lparr>argv = Some b, argc = length (commands_of line ! i)\<rparr>))"
proof -
  obtain cl os h' where s: "scan_cmds errno inp h = Inr (cl, rest, h')" and o: "owns h cl h' os"
      and w: "map own_words os = commands_of line"
    using scan_cmds_ok [OF assms] by blast
  from o have "cmds_size cl = length os" by (auto simp: owns_def)
  moreover have "commands_of line ! i = own_words (os ! i)" if "i < length os" for i
    using that w by (metis nth_map)
  moreover have "length (commands_of line) = length os" using w by (metis length_map)
  ultimately show ?thesis using s owns_command [OF o] by (intro exI [of _ cl] exI [of _ h']) simp
qed

definition shell_heap :: "cell heap" where
  "shell_heap = \<lparr>hnext = 0, hcell = (\<lambda>_. None)\<rparr>"

definition shell_line :: string where
  "shell_line = ''ls -l | wc'' @ [CHR 0x0A]"

lemma shell_heap_ok: "heap_ok shell_heap"
  by (simp add: shell_heap_def heap_ok_def)

lemma shell_line_read: "fgets BUFFER_SIZE shell_line = Some (shell_line, [])"
  by (simp add: shell_line_def fgets_def BUFFER_SIZE_def)

lemma shell_line_commands: "commands_of shell_line = [[''ls'', ''-l''], [''wc'']]"
  by (simp add: commands_of_def words_of_def shell_line_def strtok_all.simps strtok_def)

theorem shell_parse_correct_witness:
  "\<exists>cl h'. scan_cmds 0 shell_line shell_heap = Inr (cl, [], h') \<and> cmds_size cl = 2 \<and>
     command_args h' cl 0 = Inr [''ls'', ''-l''] \<and> command_args h' cl 1 = Inr [''wc'']"
  using shell_parse_correct [OF shell_heap_ok shell_line_read, of 0]
  by (auto simp: shell_line_commands less_Suc_eq)

text \<open>C21. \<open>free_cmds_mem\<close> after \<open>scan_cmds\<close> frees every block the parser has allocated, none of them
  twice, and touches nothing else: the heap holds again exactly what it held before the line.\<close>

theorem shell_parse_frees_all:
  assumes "heap_ok h" and "fgets BUFFER_SIZE inp = Some (line, rest)"
    and "scan_cmds errno inp h = Inr (cl, rest', h')"
  shows "\<exists>h''. free_cmds_mem cl h' = Inr h'' \<and> hcell h'' = hcell h"
  using scan_cmds_ok [OF assms(1,2), of errno] assms(3) free_cmds_mem_ok by fastforce

theorem shell_parse_frees_all_witness:
  "\<exists>cl h' h''. scan_cmds 0 shell_line shell_heap = Inr (cl, [], h') \<and>
     free_cmds_mem cl h' = Inr h'' \<and> hcell h'' = hcell shell_heap"
proof -
  obtain cl h' where s: "scan_cmds 0 shell_line shell_heap = Inr (cl, [], h')"
    using scan_cmds_ok [OF shell_heap_ok shell_line_read, of 0] by blast
  with shell_parse_frees_all [OF shell_heap_ok shell_line_read s] show ?thesis by blast
qed











end
