(* ===== verification/Pipeline.thy ===== *)
theory Pipeline
  imports ShellProps Descriptors
begin

text \<open>
  \<open>run_cmd\<close> of \<open>task1/shell-wrapper\<close> (\<open>sw_run.c\<close>) and the main loop (\<open>sw_main.c\<close>): pipes, forks and
  descriptor tables. A child is what the shell starts: its descriptor table at \<open>execvp\<close> and the
  arguments it hands over.
\<close>

section \<open>Descriptor tables\<close>

datatype endpoint = Stdin | Stdout | Stderr | PipeR nat | PipeW nat

type_synonym fdtab = "nat \<rightharpoonup> endpoint"

text \<open>A new descriptor is the lowest free one below the limit \<open>L\<close>.\<close>

definition lowest_fd :: "nat \<Rightarrow> fdtab \<Rightarrow> nat option" where
  "lowest_fd L T = find (\<lambda>k. T k = None) [0..<L]"

definition new_fd :: "nat \<Rightarrow> endpoint \<Rightarrow> fdtab \<Rightarrow> (nat \<times> fdtab) option" where
  "new_fd L x T = (case lowest_fd L T of None \<Rightarrow> None | Some k \<Rightarrow> Some (k, T(k \<mapsto> x)))"

text \<open>\<open>pipe\<close>: the read end and the write end of pipe number \<open>p\<close>, or failure.\<close>

definition sys_pipe :: "nat \<Rightarrow> nat \<Rightarrow> fdtab \<Rightarrow> (nat \<times> nat \<times> fdtab) option" where
  "sys_pipe L p T =
     (case new_fd L (PipeR p) T of None \<Rightarrow> None | Some (r, T) \<Rightarrow>
     (case new_fd L (PipeW p) T of None \<Rightarrow> None | Some (w, T) \<Rightarrow> Some (r, w, T)))"

definition sys_dup2 :: "nat \<Rightarrow> nat \<Rightarrow> fdtab \<Rightarrow> fdtab" where
  "sys_dup2 old new T = T(new := T old)"

definition sys_close :: "nat \<Rightarrow> fdtab \<Rightarrow> fdtab" where
  "sys_close fd T = T(fd := None)"

definition EMFILE :: int where
  "EMFILE = 24"

definition EAGAIN :: int where
  "EAGAIN = 11"

section \<open>sw_run.c\<close>

record child =
  ch_fds :: fdtab
  ch_args :: "c_error + string list"

text \<open>The child's branch up to \<open>execvp\<close>; \<open>n\<close> is \<open>commands.size\<close>.\<close>

definition child_fds :: "nat \<Rightarrow> nat \<Rightarrow> nat \<Rightarrow> nat \<Rightarrow> nat \<Rightarrow> fdtab \<Rightarrow> fdtab" where
  "child_fds n i fd_in r w T =
     (let T = (if i > 0 then sys_dup2 fd_in 0 T else T);
          T = (if i \<noteq> n - 1 then sys_dup2 w 1 T else T)
      in sys_close r T)"

text \<open>The parent's branch.\<close>

definition parent_fds :: "nat \<Rightarrow> nat \<Rightarrow> nat \<Rightarrow> fdtab \<Rightarrow> fdtab" where
  "parent_fds i fd_in w T =
     (let T = sys_close w T in if i > 0 then sys_close fd_in T else T)"

text \<open>The loop over the commands; \<open>p\<close> numbers the pipes, \<open>fork_ok\<close> tells which forks succeed.\<close>

fun run_loop :: "nat \<Rightarrow> (nat \<Rightarrow> bool) \<Rightarrow> (nat \<Rightarrow> c_error + string list) \<Rightarrow> nat \<Rightarrow> nat list
    \<Rightarrow> nat \<Rightarrow> nat \<Rightarrow> fdtab \<Rightarrow> c_error + fdtab \<times> nat \<times> child list" where
  "run_loop L fork_ok args n [] fd_in p T = Inr (T, p, [])"
| "run_loop L fork_ok args n (i # is) fd_in p T =
     (case sys_pipe L p T of None \<Rightarrow> Inl (Exit EMFILE) | Some (r, w, T) \<Rightarrow>
      if \<not> fork_ok i then Inl (Exit EAGAIN)
      else
        (let c = \<lparr>ch_fds = child_fds n i fd_in r w T, ch_args = args i\<rparr>;
             T = parent_fds i fd_in w T
         in case run_loop L fork_ok args n is r (Suc p) T of Inl e \<Rightarrow> Inl e
            | Inr (T, p, cs) \<Rightarrow> Inr (T, p, c # cs)))"

definition run_cmd :: "nat \<Rightarrow> (nat \<Rightarrow> bool) \<Rightarrow> CommandLine \<Rightarrow> nat \<Rightarrow> fdtab \<Rightarrow> cell heap
    \<Rightarrow> c_error + fdtab \<times> nat \<times> child list \<times> cell heap" where
  "run_cmd L fork_ok commands p T h =
     (let n = cmds_size commands in
      case run_loop L fork_ok (command_args h commands) n [0..<n] 0 p T of Inl e \<Rightarrow> Inl e
      | Inr (T, p, cs) \<Rightarrow>
        (case free_cmds_mem commands h of Inl e \<Rightarrow> Inl e | Inr h \<Rightarrow> Inr (T, p, cs, h)))"

section \<open>sw_main.c\<close>

record shell =
  sh_in :: string
  sh_heap :: "cell heap"
  sh_fds :: fdtab
  sh_pipes :: nat
  sh_started :: "child list list"

text \<open>One turn of \<open>while (1)\<close>, then \<open>k\<close> of them.\<close>

definition shell_turn :: "nat \<Rightarrow> (nat \<Rightarrow> bool) \<Rightarrow> int \<Rightarrow> shell \<Rightarrow> c_error + shell" where
  "shell_turn L fork_ok errno s =
     (case scan_cmds errno (sh_in s) (sh_heap s) of Inl e \<Rightarrow> Inl e | Inr (cl, rest, h) \<Rightarrow>
     (case run_cmd L fork_ok cl (sh_pipes s) (sh_fds s) h of Inl e \<Rightarrow> Inl e | Inr (T, p, cs, h) \<Rightarrow>
        Inr \<lparr>sh_in = rest, sh_heap = h, sh_fds = T, sh_pipes = p, sh_started = sh_started s @ [cs]\<rparr>))"

fun shell_turns :: "nat \<Rightarrow> nat \<Rightarrow> (nat \<Rightarrow> bool) \<Rightarrow> int \<Rightarrow> shell \<Rightarrow> c_error + shell" where
  "shell_turns 0 L fork_ok errno s = Inr s"
| "shell_turns (Suc k) L fork_ok errno s =
     (case shell_turn L fork_ok errno s of Inl e \<Rightarrow> Inl e | Inr s \<Rightarrow> shell_turns k L fork_ok errno s)"

section \<open>The wiring\<close>

lemma find_Some_lowest: "find P [0..<n] = Some k \<longleftrightarrow> k < n \<and> P k \<and> (\<forall>j < k. \<not> P j)"
proof
  assume "find P [0..<n] = Some k"
  then obtain i where i: "i < n" "P ([0..<n] ! i)" "k = [0..<n] ! i" "\<forall>j < i. \<not> P ([0..<n] ! j)"
    by (auto simp: find_Some_iff)
  then show "k < n \<and> P k \<and> (\<forall>j < k. \<not> P j)" by simp
next
  assume "k < n \<and> P k \<and> (\<forall>j < k. \<not> P j)"
  then show "find P [0..<n] = Some k" by (auto simp: find_Some_iff intro!: exI [of _ k])
qed

interpretation pfd: descriptors "\<lambda>T. T" new_fd "\<lambda>_ _. True"
proof unfold_locales
  fix L d t k t' assume "new_fd L d t = Some (k, t')"
  then show "k \<in> free_fds L t \<and> (\<forall>j < k. t j \<noteq> None) \<and> t' = t(k \<mapsto> d) \<and> True"
    by (auto simp: new_fd_def lowest_fd_def free_fds_def find_Some_lowest split: option.splits)
next
  fix L d and t :: fdtab assume "new_fd L d t = None"
  then show "free_fds L t = {}"
    by (auto simp: new_fd_def lowest_fd_def free_fds_def find_None_iff split: option.splits)
qed

lemma sys_pipe_facts:
  assumes "sys_pipe L p T = Some (r, w, T')"
  shows "T r = None" "T w = None" "r \<noteq> w" "r < L" "w < L" "T' = T(r \<mapsto> PipeR p, w \<mapsto> PipeW p)"
proof -
  obtain T1 where T1: "new_fd L (PipeR p) T = Some (r, T1)" and T': "new_fd L (PipeW p) T1 = Some (w, T')"
    using assms by (auto simp: sys_pipe_def split: option.splits)
  from pfd.new_some [OF TrueI T1] pfd.new_some [OF TrueI T']
  show "T r = None" "T w = None" "r \<noteq> w" "r < L" "w < L" "T' = T(r \<mapsto> PipeR p, w \<mapsto> PipeW p)"
    by (auto simp: free_fds_def split: if_splits)
qed

text \<open>\<open>pipe\<close> succeeds as long as two descriptors are free, and takes them.\<close>

lemma sys_pipe_ok:
  assumes "2 \<le> card (free_fds L T)"
  shows "\<exists>r w T'. sys_pipe L p T = Some (r, w, T') \<and> card (free_fds L T) = card (free_fds L T') + 2"
proof -
  obtain r T1 where r: "new_fd L (PipeR p) T = Some (r, T1)"
    using pfd.new_succeeds [OF TrueI, of L T] assms by force
  note one = pfd.new_takes_one [OF TrueI r]
  obtain w T' where w: "new_fd L (PipeW p) T1 = Some (w, T')"
    using pfd.new_succeeds [OF TrueI, of L T1] assms one by force
  from r w one pfd.new_takes_one [OF TrueI w] show ?thesis by (simp add: sys_pipe_def)
qed

text \<open>The shell's own table: the three standard streams and no write end of a pipe.\<close>

definition std_table :: "nat \<Rightarrow> fdtab \<Rightarrow> bool" where
  "std_table p T \<longleftrightarrow>
     T 0 = Some Stdin \<and> T 1 = Some Stdout \<and> T 2 = Some Stderr \<and>
     (\<forall>q. PipeW q \<notin> ran T) \<and> (\<forall>q. PipeR q \<in> ran T \<longrightarrow> q < p)"

text \<open>At the top of turn \<open>i\<close>: the read end of the pipe of the turn before is open as \<open>fd_in\<close>.\<close>

definition at_turn :: "nat \<Rightarrow> nat \<Rightarrow> nat \<Rightarrow> fdtab \<Rightarrow> fdtab \<Rightarrow> bool" where
  "at_turn i fd_in p T0 T \<longleftrightarrow>
     (if i = 0 then T = T0 else T0 fd_in = None \<and> 0 < p \<and> T = T0(fd_in \<mapsto> PipeR (p - 1)))"

text \<open>
  What child \<open>i\<close> of \<open>n\<close> has open when it executes its program, \<open>p\<close> being the number of its own
  pipe: the only write end is that of its own pipe, the only read end beyond those the shell
  has kept from earlier lines is that of the pipe of the child before.
\<close>

definition wired :: "fdtab \<Rightarrow> nat \<Rightarrow> nat \<Rightarrow> nat \<Rightarrow> child \<Rightarrow> bool" where
  "wired T0 n i p c \<longleftrightarrow>
     ch_fds c 0 = Some (if i = 0 then Stdin else PipeR (p - 1)) \<and>
     ch_fds c 1 = Some (if i = n - 1 then Stdout else PipeW p) \<and>
     ch_fds c 2 = Some Stderr \<and>
     (\<forall>q. PipeW q \<in> ran (ch_fds c) \<longleftrightarrow> q = p) \<and>
     (\<forall>q. PipeR q \<in> ran (ch_fds c) \<longleftrightarrow> (i > 0 \<and> q = p - 1) \<or> PipeR q \<in> ran T0)"

lemma ran_ex: "x \<in> ran T \<longleftrightarrow> (\<exists>k. T k = Some x)"
  by (simp add: ran_def)

lemma child_wired:
  assumes std: "T0 0 = Some Stdin" "T0 1 = Some Stdout" "T0 2 = Some Stderr" "\<forall>q. PipeW q \<notin> ran T0"
    and turn: "at_turn i fd_in p T0 T" and pipe: "sys_pipe L p T = Some (r, w, T')"
  shows "wired T0 n i p \<lparr>ch_fds = child_fds n i fd_in r w T', ch_args = a\<rparr>"
proof -
  note f = sys_pipe_facts [OF pipe]
  let ?C = "child_fds n i fd_in r w T'"
  have "i > 0 \<Longrightarrow> fd_in \<noteq> 0 \<and> fd_in \<noteq> 1 \<and> fd_in \<noteq> 2"
    using std turn by (cases "fd_in = 0"; cases "fd_in = 1"; cases "fd_in = 2") (auto simp: at_turn_def)
  then have low: "T 0 = Some Stdin" "T 1 = Some Stdout" "T 2 = Some Stderr"
    using std turn by (auto simp: at_turn_def split: if_splits)
  then have rw: "r \<noteq> 0" "r \<noteq> 1" "r \<noteq> 2" "w \<noteq> 0" "w \<noteq> 1" "w \<noteq> 2"
    using f(1,2) by (metis option.distinct(1))+
  have fd: "i > 0 \<Longrightarrow> T fd_in = Some (PipeR (p - 1)) \<and> fd_in \<noteq> r \<and> fd_in \<noteq> w"
    using turn f(1,2) by (auto simp: at_turn_def)
  have C: "?C k = (if k = r then None else if k = w then Some (PipeW p)
      else if k = 0 \<and> i > 0 then Some (PipeR (p - 1))
      else if k = 1 \<and> i \<noteq> n - 1 then Some (PipeW p) else T k)" for k
    using f(3,6) fd rw by (auto simp: child_fds_def sys_dup2_def sys_close_def)
  have T: "T k = (if i > 0 \<and> k = fd_in then Some (PipeR (p - 1)) else T0 k)" for k
    using turn by (cases "i = 0") (auto simp: at_turn_def)
  have W: "PipeW q \<in> ran ?C \<longleftrightarrow> q = p" for q
  proof
    assume "PipeW q \<in> ran ?C"
    then obtain k where "?C k = Some (PipeW q)" by (auto simp: ran_ex)
    moreover have "T k \<noteq> Some (PipeW q)" using std(4) T by (auto simp: ran_ex split: if_splits)
    ultimately show "q = p" using C [of k] by (auto split: if_splits)
  next
    assume "q = p"
    then show "PipeW q \<in> ran ?C" using C [of w] f(3) by (auto simp: ran_ex)
  qed
  have R: "PipeR q \<in> ran ?C \<longleftrightarrow> (i > 0 \<and> q = p - 1) \<or> PipeR q \<in> ran T0" for q
  proof
    assume "PipeR q \<in> ran ?C"
    then obtain k where "?C k = Some (PipeR q)" by (auto simp: ran_ex)
    then show "(i > 0 \<and> q = p - 1) \<or> PipeR q \<in> ran T0"
      using C [of k] T [of k] by (auto simp: ran_ex split: if_splits)
  next
    assume "(i > 0 \<and> q = p - 1) \<or> PipeR q \<in> ran T0"
    then show "PipeR q \<in> ran ?C"
    proof
      assume "i > 0 \<and> q = p - 1"
      then show ?thesis using C [of 0] rw by (auto simp: ran_ex)
    next
      assume "PipeR q \<in> ran T0"
      then obtain k where k: "T0 k = Some (PipeR q)" by (auto simp: ran_ex)
      then have "k \<noteq> 0" "k \<noteq> 1" using std(1,2) by (metis endpoint.distinct option.inject)+
      moreover have "T k = Some (PipeR q)" using k turn by (auto simp: at_turn_def split: if_splits)
      moreover from this have "k \<noteq> r" "k \<noteq> w" using f(1,2) by auto
      ultimately show ?thesis using C [of k] by (auto simp: ran_ex)
    qed
  qed
  show ?thesis using C [of 0] C [of 1] C [of 2] low rw W R by (auto simp: wired_def)
qed

lemma next_turn:
  assumes turn: "at_turn i fd_in p T0 T" and pipe: "sys_pipe L p T = Some (r, w, T')"
  shows "at_turn (Suc i) r (Suc p) T0 (parent_fds i fd_in w T')"
proof -
  note f = sys_pipe_facts [OF pipe]
  have "i > 0 \<Longrightarrow> fd_in \<noteq> r" using turn f(1) by (auto simp: at_turn_def)
  moreover have "T0 r = None" using turn f(1) by (auto simp: at_turn_def split: if_splits)
  ultimately show ?thesis
    using turn f(2,3,6)
    by (auto simp: at_turn_def parent_fds_def sys_close_def fun_eq_iff Let_def split: if_splits)
qed

lemma run_loop_wired:
  assumes std: "T0 0 = Some Stdin" "T0 1 = Some Stdout" "T0 2 = Some Stderr" "\<forall>q. PipeW q \<notin> ran T0"
  shows "at_turn i fd_in p T0 T \<Longrightarrow> i + m = n \<Longrightarrow>
    run_loop L fork_ok args n [i..<n] fd_in p T = Inr (T', p', cs) \<Longrightarrow>
    p' = p + m \<and> length cs = m \<and> (\<exists>fd. at_turn n fd p' T0 T') \<and>
    (\<forall>j < m. wired T0 n (i + j) (p + j) (cs ! j) \<and> ch_args (cs ! j) = args (i + j))"
proof (induction m arbitrary: i fd_in p T cs)
  case 0
  then show ?case by auto
next
  case (Suc m)
  then have range: "[i..<n] = i # [Suc i..<n]" by (simp add: upt_conv_Cons)
  from Suc.prems(3) obtain r w T1 cs' where pipe: "sys_pipe L p T = Some (r, w, T1)"
      and rest: "run_loop L fork_ok args n [Suc i..<n] r (Suc p) (parent_fds i fd_in w T1) = Inr (T', p', cs')"
      and cs: "cs = \<lparr>ch_fds = child_fds n i fd_in r w T1, ch_args = args i\<rparr> # cs'"
    by (auto simp: range Let_def split: option.splits sum.splits if_splits)
  have ih: "p' = Suc p + m \<and> length cs' = m \<and> (\<exists>fd. at_turn n fd p' T0 T') \<and>
    (\<forall>j < m. wired T0 n (Suc i + j) (Suc p + j) (cs' ! j) \<and> ch_args (cs' ! j) = args (Suc i + j))"
    by (rule Suc.IH [OF next_turn [OF Suc.prems(1) pipe] _ rest]) (use Suc.prems(2) in simp)
  have "wired T0 n i p (cs ! 0)" using child_wired [OF std Suc.prems(1) pipe] cs by simp
  with ih cs show ?case by (auto simp: less_Suc_eq_0_disj)
qed


lemma run_loop_dom:
  "run_loop L fork_ok args n is fd_in p T = Inr (T', p', cs) \<Longrightarrow> dom T \<subseteq> {..<L} \<Longrightarrow> dom T' \<subseteq> {..<L}"
proof (induction "is" arbitrary: fd_in p T cs)
  case Nil
  then show ?case by simp
next
  case (Cons i js)
  then obtain r w T1 cs' where pipe: "sys_pipe L p T = Some (r, w, T1)"
      and rest: "run_loop L fork_ok args n js r (Suc p) (parent_fds i fd_in w T1) = Inr (T', p', cs')"
    by (auto simp: Let_def split: option.splits sum.splits if_splits)
  have "dom (parent_fds i fd_in w T1) \<subseteq> {..<L}"
    using sys_pipe_facts [OF pipe] Cons.prems(2)
    by (auto simp: parent_fds_def sys_close_def Let_def split: if_splits)
  with rest show ?case by (rule Cons.IH)
qed

section \<open>Properties of the shell\<close>

text \<open>One turn in terms of its line.\<close>

lemma shell_turn_line:
  "shell_turn L fork_ok errno s = Inr s' \<Longrightarrow> \<exists>line rest. fgets BUFFER_SIZE (sh_in s) = Some (line, rest)"
  by (auto simp: shell_turn_def scan_cmds_def scan_CmdLine_def Let_def halloc_def
      split: option.splits sum.splits prod.splits)

lemma shell_turn_ok:
  assumes "heap_ok (sh_heap s)" and "std_table (sh_pipes s) (sh_fds s)"
    and line: "fgets BUFFER_SIZE (sh_in s) = Some (line, rest)"
    and turn: "shell_turn L fork_ok errno s = Inr s'"
  shows "\<exists>cs. sh_started s' = sh_started s @ [cs] \<and> length cs = length (commands_of line) \<and>
    sh_pipes s' = sh_pipes s + length cs \<and>
    (\<exists>fd. at_turn (length cs) fd (sh_pipes s') (sh_fds s) (sh_fds s')) \<and>
    (\<forall>j < length cs. wired (sh_fds s) (length cs) j (sh_pipes s + j) (cs ! j) \<and>
       ch_args (cs ! j) = Inr (commands_of line ! j)) \<and>
    heap_ok (sh_heap s') \<and> hcell (sh_heap s') = hcell (sh_heap s) \<and>
    (cs \<noteq> [] \<longrightarrow> sys_pipe L (sh_pipes s) (sh_fds s) \<noteq> None) \<and>
    (dom (sh_fds s) \<subseteq> {..<L} \<longrightarrow> dom (sh_fds s') \<subseteq> {..<L})"
proof -
  obtain cl os h where scan: "scan_cmds errno (sh_in s) (sh_heap s) = Inr (cl, rest, h)"
      and o: "owns (sh_heap s) cl h os" and w: "map own_words os = commands_of line"
    using scan_cmds_ok [OF assms(1) line] by blast
  let ?n = "length os"
  have n: "cmds_size cl = ?n" using o by (auto simp: owns_def)
  obtain h1 where h1: "free_cmds_mem cl h = Inr h1" "heap_ok h1" "hcell h1 = hcell (sh_heap s)"
    using free_cmds_mem_ok [OF o] by blast
  obtain T p cs where run: "run_loop L fork_ok (command_args h cl) ?n [0..<?n] 0 (sh_pipes s) (sh_fds s) = Inr (T, p, cs)"
      and s': "s' = \<lparr>sh_in = rest, sh_heap = h1, sh_fds = T, sh_pipes = p, sh_started = sh_started s @ [cs]\<rparr>"
    using turn scan n h1(1)
    by (auto simp: shell_turn_def run_cmd_def Let_def split: sum.splits)
  have "at_turn 0 0 (sh_pipes s) (sh_fds s) (sh_fds s)" by (simp add: at_turn_def)
  then have "p = sh_pipes s + ?n \<and> length cs = ?n \<and> (\<exists>fd. at_turn ?n fd p (sh_fds s) T) \<and>
      (\<forall>j < ?n. wired (sh_fds s) ?n (0 + j) (sh_pipes s + j) (cs ! j) \<and> ch_args (cs ! j) = command_args h cl (0 + j))"
    using assms(2) by (intro run_loop_wired [OF _ _ _ _ _ _ run]) (simp_all add: std_table_def)
  then have r: "p = sh_pipes s + ?n" "length cs = ?n" "\<exists>fd. at_turn ?n fd p (sh_fds s) T"
      "\<forall>j < ?n. wired (sh_fds s) ?n (0 + j) (sh_pipes s + j) (cs ! j) \<and> ch_args (cs ! j) = command_args h cl (0 + j)"
    by blast+
  have len: "length (commands_of line) = ?n" using w by (metis length_map)
  have "command_args h cl j = Inr (commands_of line ! j)" if "j < ?n" for j
    using owns_command [OF o that] w that by (metis nth_map)
  moreover have "cs \<noteq> [] \<Longrightarrow> sys_pipe L (sh_pipes s) (sh_fds s) \<noteq> None"
  proof -
    assume "cs \<noteq> []"
    then have "0 < ?n" using r(2) by auto
    then have "[0..<?n] = 0 # [Suc 0..<?n]" by (rule upt_conv_Cons)
    with run show ?thesis by (auto split: option.splits)
  qed
  moreover have "dom (sh_fds s) \<subseteq> {..<L} \<Longrightarrow> dom T \<subseteq> {..<L}" using run_loop_dom [OF run] .
  ultimately show ?thesis using s' r len h1 by (intro exI [of _ cs]) simp
qed

text \<open>C23. The pipeline is wired as the command line says: child \<open>j\<close> executes the words of command
  \<open>j\<close>, the first reads the shell's standard input and the last writes its standard output, every
  other one reads the pipe of its predecessor and writes its own pipe; and the write end of a
  pipe is open in no child but the one that writes it, so every reader sees the end of its input
  when its predecessor ends.\<close>

theorem shell_pipeline_wired:
  assumes "heap_ok (sh_heap s)" and "std_table (sh_pipes s) (sh_fds s)"
    and "fgets BUFFER_SIZE (sh_in s) = Some (line, rest)" and "shell_turn L fork_ok errno s = Inr s'"
  shows "\<exists>cs. sh_started s' = sh_started s @ [cs] \<and> length cs = length (commands_of line) \<and>
    (\<forall>j < length cs. ch_args (cs ! j) = Inr (commands_of line ! j) \<and>
       ch_fds (cs ! j) 0 = Some (if j = 0 then Stdin else PipeR (sh_pipes s + j - 1)) \<and>
       ch_fds (cs ! j) 1 = Some (if j = length cs - 1 then Stdout else PipeW (sh_pipes s + j)) \<and>
       (\<forall>i < length cs. PipeW (sh_pipes s + j) \<in> ran (ch_fds (cs ! i)) \<longleftrightarrow> i = j) \<and>
       PipeW (sh_pipes s + j) \<notin> ran (sh_fds s'))"
proof -
  obtain cs where cs: "sh_started s' = sh_started s @ [cs]" "length cs = length (commands_of line)"
      and turn: "\<exists>fd. at_turn (length cs) fd (sh_pipes s') (sh_fds s) (sh_fds s')"
      and w: "\<forall>j < length cs. wired (sh_fds s) (length cs) j (sh_pipes s + j) (cs ! j) \<and>
         ch_args (cs ! j) = Inr (commands_of line ! j)"
    using shell_turn_ok [OF assms(1-4)] by blast
  have "PipeW q \<notin> ran (sh_fds s)" for q using assms(2) by (simp add: std_table_def)
  then have "PipeW q \<notin> ran (sh_fds s')" for q
    using turn by (auto simp: at_turn_def ran_ex split: if_splits)
  then show ?thesis using cs w by (intro exI [of _ cs]) (auto simp: wired_def)
qed

text \<open>After every command line the shell's table holds one read end more than before, that of the
  pipe made for the last command, which nothing uses; its heap is as before.\<close>

theorem shell_leaks_one_descriptor:
  assumes "heap_ok (sh_heap s)" and "std_table (sh_pipes s) (sh_fds s)"
    and "fgets BUFFER_SIZE (sh_in s) = Some (line, rest)" and "commands_of line \<noteq> []"
    and "shell_turn L fork_ok errno s = Inr s'"
  shows "\<exists>r. sh_fds s r = None \<and> sh_fds s' = (sh_fds s)(r \<mapsto> PipeR (sh_pipes s + length (commands_of line) - 1)) \<and>
    hcell (sh_heap s') = hcell (sh_heap s)"
proof -
  obtain cs :: "child list" and fd where cs: "length cs = length (commands_of line)" "sh_pipes s' = sh_pipes s + length cs"
      "at_turn (length cs) fd (sh_pipes s') (sh_fds s) (sh_fds s')" "hcell (sh_heap s') = hcell (sh_heap s)"
    using shell_turn_ok [OF assms(1,2,3,5)] by blast
  then show ?thesis using assms(4) by (intro exI [of _ fd]) (simp add: at_turn_def)
qed

text \<open>The invariant of the shell over its turns.\<close>

definition served :: "shell \<Rightarrow> nat" where
  "served s = length (filter (\<lambda>cs. cs \<noteq> []) (sh_started s))"

definition shell_inv :: "nat \<Rightarrow> shell \<Rightarrow> bool" where
  "shell_inv L s \<longleftrightarrow>
     heap_ok (sh_heap s) \<and> std_table (sh_pipes s) (sh_fds s) \<and> dom (sh_fds s) \<subseteq> {..<L} \<and>
     card (dom (sh_fds s)) = 3 + served s \<and> (0 < served s \<longrightarrow> served s + 4 \<le> L)"

lemma pipe_room:
  assumes "sys_pipe L p T \<noteq> None" and "dom T \<subseteq> {..<L}"
  shows "card (dom T) + 2 \<le> L"
proof -
  obtain r w T' where "sys_pipe L p T = Some (r, w, T')" using assms(1) by (cases "sys_pipe L p T") auto
  note f = sys_pipe_facts [OF this]
  have fin: "finite (dom T)" using assms(2) finite_subset by blast
  have "insert r (insert w (dom T)) \<subseteq> {..<L}" using f assms(2) by auto
  then have "card (insert r (insert w (dom T))) \<le> L" by (metis card_lessThan card_mono finite_lessThan)
  moreover have "card (insert r (insert w (dom T))) = card (dom T) + 2"
    using f(1-3) fin by (simp add: domIff)
  ultimately show ?thesis by simp
qed

lemma shell_turn_inv:
  assumes "shell_inv L s" and "shell_turn L fork_ok errno s = Inr s'"
  shows "shell_inv L s'"
proof -
  have inv: "heap_ok (sh_heap s)" "std_table (sh_pipes s) (sh_fds s)" "dom (sh_fds s) \<subseteq> {..<L}"
      "card (dom (sh_fds s)) = 3 + served s" "0 < served s \<longrightarrow> served s + 4 \<le> L"
    using assms(1) by (simp_all add: shell_inv_def)
  obtain cs fd where cs: "sh_started s' = sh_started s @ [cs]" "sh_pipes s' = sh_pipes s + length cs"
      "at_turn (length cs) fd (sh_pipes s') (sh_fds s) (sh_fds s')" "heap_ok (sh_heap s')"
      "cs \<noteq> [] \<longrightarrow> sys_pipe L (sh_pipes s) (sh_fds s) \<noteq> None" "dom (sh_fds s') \<subseteq> {..<L}"
    using inv(3) shell_turn_line [OF assms(2)] shell_turn_ok [OF inv(1,2) _ assms(2)] by blast
  show ?thesis
  proof (cases "cs = []")
    case True
    then show ?thesis using inv cs by (simp add: shell_inv_def served_def at_turn_def)
  next
    case False
    then have T: "sh_fds s fd = None" "sh_fds s' = (sh_fds s)(fd \<mapsto> PipeR (sh_pipes s' - 1))" "0 < sh_pipes s'"
      using cs(3) by (auto simp: at_turn_def)
    have room: "card (dom (sh_fds s)) + 2 \<le> L" using pipe_room [OF _ inv(3)] cs(5) False by blast
    have fin: "finite (dom (sh_fds s))" using inv(3) finite_subset by blast
    then have "card (dom (sh_fds s')) = Suc (card (dom (sh_fds s)))" using T by (simp add: domIff)
    moreover have "served s' = Suc (served s)" using cs(1) False by (simp add: served_def)
    moreover have "std_table (sh_pipes s') (sh_fds s')"
    proof -
      have "fd \<noteq> 0 \<and> fd \<noteq> 1 \<and> fd \<noteq> 2" using inv(2) T(1)
        by (cases "fd = 0"; cases "fd = 1"; cases "fd = 2") (auto simp: std_table_def)
      moreover have "x \<in> ran (sh_fds s') \<longleftrightarrow> x = PipeR (sh_pipes s' - 1) \<or> x \<in> ran (sh_fds s)" for x
        using T(1,2) by (auto simp: ran_ex)
      ultimately show ?thesis using inv(2) T(2,3) cs(2) by (fastforce simp: std_table_def)
    qed
    ultimately show ?thesis using inv(4) cs(4,6) room by (simp add: shell_inv_def)
  qed
qed

lemma shell_turns_inv:
  "shell_inv L s \<Longrightarrow> shell_turns k L fork_ok errno s = Inr s' \<Longrightarrow> shell_inv L s'"
  by (induction k arbitrary: s) (auto split: sum.splits intro: shell_turn_inv)

text \<open>C24. The descriptors the shell leaks bound its life: with room for \<open>L\<close> descriptors it serves at
  most \<open>L - 4\<close> command lines, whatever they are, before \<open>pipe\<close> fails and it exits; and after
  any number of turns it holds one descriptor for each line served beside the three streams.\<close>

theorem shell_runs_out_of_descriptors:
  assumes "heap_ok (sh_heap s)" and "sh_fds s = [0 \<mapsto> Stdin, 1 \<mapsto> Stdout, 2 \<mapsto> Stderr]"
    and "sh_started s = []" and "4 \<le> L" and "shell_turns k L fork_ok errno s = Inr s'"
  shows "served s' + 4 \<le> L \<and> card (dom (sh_fds s')) = 3 + served s'"
proof -
  have "shell_inv L s"
    using assms(1-4) by (auto simp: shell_inv_def std_table_def served_def ran_ex)
  then have "shell_inv L s'" using assms(5) by (rule shell_turns_inv)
  then show ?thesis using assms(4) by (cases "served s'") (auto simp: shell_inv_def)
qed

definition shell_demo :: shell where
  "shell_demo = \<lparr>sh_in = shell_line, sh_heap = shell_heap, sh_fds = [0 \<mapsto> Stdin, 1 \<mapsto> Stdout, 2 \<mapsto> Stderr],
     sh_pipes = 0, sh_started = []\<rparr>"


lemma shell_demo_ok:
  "heap_ok (sh_heap shell_demo)" "std_table (sh_pipes shell_demo) (sh_fds shell_demo)"
  "sh_fds shell_demo = [0 \<mapsto> Stdin, 1 \<mapsto> Stdout, 2 \<mapsto> Stderr]" "sh_started shell_demo = []"
  "fgets BUFFER_SIZE (sh_in shell_demo) = Some (shell_line, [])"
  using shell_heap_ok shell_line_read
  by (auto simp: shell_demo_def std_table_def ran_ex split: if_splits)

lemma demo_pipes:
  "sys_pipe 16 0 [0 \<mapsto> Stdin, 1 \<mapsto> Stdout, 2 \<mapsto> Stderr] =
     Some (3, 4, [0 \<mapsto> Stdin, 1 \<mapsto> Stdout, 2 \<mapsto> Stderr, 3 \<mapsto> PipeR 0, 4 \<mapsto> PipeW 0])"
  "sys_pipe 16 1 ([0 \<mapsto> Stdin, 1 \<mapsto> Stdout, 2 \<mapsto> Stderr, 3 \<mapsto> PipeR 0, 4 \<mapsto> PipeW 0](4 := None)) =
     Some (4, 5, [0 \<mapsto> Stdin, 1 \<mapsto> Stdout, 2 \<mapsto> Stderr, 3 \<mapsto> PipeR 0, 4 \<mapsto> PipeR 1, 5 \<mapsto> PipeW 1])"
  by (simp_all add: sys_pipe_def new_fd_def lowest_fd_def upt_rec fun_eq_iff)

lemma demo_loop:
  "\<exists>r. run_loop 16 (\<lambda>_. True) args 2 [0..<2] 0 0 [0 \<mapsto> Stdin, 1 \<mapsto> Stdout, 2 \<mapsto> Stderr] = Inr r"
proof -
  let ?T = "[0 \<mapsto> Stdin, 1 \<mapsto> Stdout, 2 \<mapsto> Stderr, 3 \<mapsto> PipeR 0, 4 \<mapsto> PipeW 0] :: fdtab"
  have r: "[0..<2] = [0, Suc 0]" by (simp add: upt_rec)
  have p: "parent_fds 0 0 4 ?T = ?T(4 := None)" by (simp add: parent_fds_def sys_close_def)
  have "\<exists>T p cs. run_loop 16 (\<lambda>_. True) args 2 [Suc 0] 3 1 (?T(4 := None)) = Inr (T, p, cs)"
    using demo_pipes(2) by (simp del: fun_upd_apply fun_upd_upd add: Let_def)
  then obtain T p' cs where "run_loop 16 (\<lambda>_. True) args 2 [Suc 0] 3 1 (parent_fds 0 0 4 ?T) = Inr (T, p', cs)"
    using p by auto
  then show ?thesis using r demo_pipes(1) by (simp del: fun_upd_apply fun_upd_upd add: Let_def)
qed

lemma shell_demo_turn: "\<exists>s'. shell_turn 16 (\<lambda>_. True) 0 shell_demo = Inr s'"
proof -
  have h: "heap_ok (sh_heap shell_demo)" by (rule shell_demo_ok)
  obtain cl os h' where scan: "scan_cmds 0 (sh_in shell_demo) (sh_heap shell_demo) = Inr (cl, [], h')"
      and o: "owns (sh_heap shell_demo) cl h' os" and w: "map own_words os = commands_of shell_line"
    using scan_cmds_ok [OF h shell_demo_ok(5), of 0] by blast
  have "length os = 2" using arg_cong [OF w, of length] by (simp add: shell_line_commands)
  then have n: "cmds_size cl = 2" using o by (auto simp: owns_def)
  obtain h1 where "free_cmds_mem cl h' = Inr h1" using free_cmds_mem_ok [OF o] by blast
  moreover obtain r where "run_loop 16 (\<lambda>_. True) (command_args h' cl) 2 [0..<2] 0 0 (sh_fds shell_demo) = Inr r"
    using demo_loop shell_demo_ok(3) by metis
  moreover have "sh_pipes shell_demo = 0" by (simp add: shell_demo_def)
  ultimately show ?thesis using scan n
    by (cases r) (simp add: shell_turn_def run_cmd_def Let_def)
qed

theorem shell_pipeline_wired_witness:
  "\<exists>s' cs. shell_turn 16 (\<lambda>_. True) 0 shell_demo = Inr s' \<and> sh_started s' = [cs] \<and> length cs = 2 \<and>
     ch_args (cs ! 1) = Inr [''wc''] \<and> ch_fds (cs ! 1) 0 = Some (PipeR (sh_pipes shell_demo))"
proof -
  obtain s' where s': "shell_turn 16 (\<lambda>_. True) 0 shell_demo = Inr s'" using shell_demo_turn by blast
  from shell_pipeline_wired [OF shell_demo_ok(1,2,5) s'] show ?thesis
    using s' by (auto simp: shell_line_commands shell_demo_ok(4))
qed

theorem shell_leaks_one_descriptor_witness:
  "\<exists>s' r. shell_turn 16 (\<lambda>_. True) 0 shell_demo = Inr s' \<and> sh_fds shell_demo r = None \<and>
     sh_fds s' r = Some (PipeR (sh_pipes shell_demo + 1))"
proof -
  obtain s' where s': "shell_turn 16 (\<lambda>_. True) 0 shell_demo = Inr s'" using shell_demo_turn by blast
  from shell_leaks_one_descriptor [OF shell_demo_ok(1,2,5) _ s'] show ?thesis
    using s' by (auto simp: shell_line_commands)
qed

theorem shell_runs_out_of_descriptors_witness:
  "\<exists>s'. shell_turns 1 16 (\<lambda>_. True) 0 shell_demo = Inr s' \<and> served s' + 4 \<le> 16 \<and>
     card (dom (sh_fds s')) = 3 + served s'"
proof -
  obtain s' where "shell_turn 16 (\<lambda>_. True) 0 shell_demo = Inr s'" using shell_demo_turn by blast
  then have s': "shell_turns 1 16 (\<lambda>_. True) 0 shell_demo = Inr s'" by simp
  from shell_runs_out_of_descriptors [OF shell_demo_ok(1,3,4) _ s'] show ?thesis using s' by simp
qed

end
