(* ===== verification/SysService.thy ===== *)
theory SysService
  imports CString CHeap
begin

text \<open>
  The memory map monitor (\<open>task6/sys-service\<close>): \<open>ss_log.c\<close>, \<open>ss_error.c\<close>, \<open>ss_start.c\<close>,
  \<open>ss_config.c\<close>. The service parses \<open>/proc/PID/maps\<close> every ten seconds, logs the lines that
  differ from those of the round before, and keeps only the newest parse. Its log, its heap
  and its descriptors are one state; what the kernel shows in the maps file is the input.
\<close>

section \<open>The state\<close>

record MapsLine =
  address :: "addr option"
  perms :: "addr option"
  offset :: "addr option"
  device :: "addr option"
  inode :: "addr option"
  path :: "addr option"

datatype mcell = Str string | Lines "MapsLine list"

definition empty_line :: MapsLine where
  "empty_line = \<lparr>address = None, perms = None, offset = None, device = None, inode = None, path = None\<rparr>"

definition sizeof_MapsLine :: nat where
  "sizeof_MapsLine = 48"

definition PATH_LEN :: nat where
  "PATH_LEN = 256"

definition TIME_MARK_LEN :: nat where
  "TIME_MARK_LEN = 24"

definition MSG_LEN :: nat where
  "MSG_LEN = PATH_LEN - TIME_MARK_LEN"

lemmas log_consts = PATH_LEN_def TIME_MARK_LEN_def MSG_LEN_def

text \<open>
  \<open>log_fd\<close> is a \<open>static\<close> variable declared in the header \<open>ss_log.h\<close>: every source file has its
  own, initially 0. \<open>log_fd\<close> is that of \<open>ss_log.c\<close>, \<open>config_log_fd\<close> that of \<open>ss_config.c\<close>.
  \<open>written\<close> lists the calls of \<open>write\<close>; \<open>maps\<close> is what the successive openings of the maps file
  give, \<open>None\<close> for an opening that fails; \<open>clock\<close> is what \<open>ctime\<close> prints, without its newline.
\<close>

record service =
  mem :: "mcell heap"
  written :: "(int \<times> string) list"
  log_fd :: int
  config_log_fd :: int
  clock :: string
  maps :: "string list option list"
  maps_file :: "string list"

section \<open>ss_log.c\<close>

text \<open>
  \<open>create_log\<close> with the formatted message: \<open>vsprintf\<close> into \<open>msg[MSG_LEN]\<close>, then three \<open>strcat\<close>
  into a block of \<open>PATH_LEN\<close> bytes.
\<close>

definition log_line :: "string \<Rightarrow> string \<Rightarrow> c_error + string" where
  "log_line tm msg =
     (case strcat_into PATH_LEN [] tm of Inl e \<Rightarrow> Inl e | Inr buf \<Rightarrow>
     (case strcat_into PATH_LEN buf [CHR 0x09] of Inl e \<Rightarrow> Inl e | Inr buf \<Rightarrow>
     (case strcat_into MSG_LEN [] msg of Inl e \<Rightarrow> Inl e | Inr msg \<Rightarrow>
     (case strcat_into PATH_LEN buf msg of Inl e \<Rightarrow> Inl e | Inr buf \<Rightarrow>
        strcat_into PATH_LEN buf [CHR 0x0A]))))"

definition create_log :: "string \<Rightarrow> service \<Rightarrow> c_error + service" where
  "create_log msg s =
     (case log_line (clock s) msg of Inl e \<Rightarrow> Inl e
      | Inr text \<Rightarrow> Inr (s\<lparr>written := written s @ [(log_fd s, text)]\<rparr>))"

text \<open>
  A message used as the format itself, without arguments: \<open>%%\<close> prints \<open>%\<close>; any other conversion
  takes an argument that is not there.
\<close>

fun format_plain :: "string \<Rightarrow> c_error + string" where
  "format_plain [] = Inr []"
| "format_plain [c] = (if c = CHR 0x25 then Inl OutOfBounds else Inr [c])"
| "format_plain (c # d # cs) =
     (if c = CHR 0x25 then
        (if d = CHR 0x25 then (case format_plain cs of Inl e \<Rightarrow> Inl e | Inr t \<Rightarrow> Inr (c # t))
         else Inl OutOfBounds)
      else (case format_plain (d # cs) of Inl e \<Rightarrow> Inl e | Inr t \<Rightarrow> Inr (c # t)))"

definition cat_field :: "addr option \<Rightarrow> string \<Rightarrow> mcell heap \<Rightarrow> string \<Rightarrow> c_error + string" where
  "cat_field p sep h msg =
     (case p of None \<Rightarrow> Inr msg
      | Some a \<Rightarrow>
         (case hread (Some a) h of
            Inr (Str w) \<Rightarrow>
              (case strcat_into MSG_LEN msg w of Inl e \<Rightarrow> Inl e
               | Inr msg \<Rightarrow> (if sep = [] then Inr msg else strcat_into MSG_LEN msg sep))
          | Inr _ \<Rightarrow> Inl OutOfBounds
          | Inl e \<Rightarrow> Inl e))"

definition print_parsed_maps_line :: "MapsLine \<Rightarrow> service \<Rightarrow> c_error + service" where
  "print_parsed_maps_line PML s =
     (case cat_field (address PML) '' '' (mem s) [] of Inl e \<Rightarrow> Inl e | Inr msg \<Rightarrow>
     (case cat_field (perms PML) '' '' (mem s) msg of Inl e \<Rightarrow> Inl e | Inr msg \<Rightarrow>
     (case cat_field (offset PML) '' '' (mem s) msg of Inl e \<Rightarrow> Inl e | Inr msg \<Rightarrow>
     (case cat_field (device PML) '' '' (mem s) msg of Inl e \<Rightarrow> Inl e | Inr msg \<Rightarrow>
     (case cat_field (inode PML) '' '' (mem s) msg of Inl e \<Rightarrow> Inl e | Inr msg \<Rightarrow>
     (case cat_field (path PML) [] (mem s) msg of Inl e \<Rightarrow> Inl e | Inr msg \<Rightarrow>
     (case format_plain msg of Inl e \<Rightarrow> Inl e | Inr text \<Rightarrow> create_log text s)))))))"

definition print_diff_PML :: "MapsLine \<Rightarrow> MapsLine \<Rightarrow> service \<Rightarrow> c_error + service" where
  "print_diff_PML Cur Next s =
     (case create_log ''<<<<<<<'' s of Inl e \<Rightarrow> Inl e | Inr s \<Rightarrow>
     (case print_parsed_maps_line Cur s of Inl e \<Rightarrow> Inl e | Inr s \<Rightarrow>
     (case create_log ''======='' s of Inl e \<Rightarrow> Inl e | Inr s \<Rightarrow>
     (case print_parsed_maps_line Next s of Inl e \<Rightarrow> Inl e | Inr s \<Rightarrow>
        create_log ''>>>>>>>'' s))))"

text \<open>\<open>start_log\<close>: the descriptor \<open>open\<close> returned goes into the \<open>log_fd\<close> of \<open>ss_log.c\<close>.\<close>

definition start_log :: "int \<Rightarrow> service \<Rightarrow> int \<times> service" where
  "start_log fd s = (if fd = -1 then (-1, s\<lparr>log_fd := fd\<rparr>) else (0, s\<lparr>log_fd := fd\<rparr>))"

section \<open>ss_error.c\<close>

definition check_parse_maps_err :: "int \<Rightarrow> service \<Rightarrow> c_error + int \<times> service" where
  "check_parse_maps_err cnt s =
     (if cnt = -1 then
        (case create_log ''Parsing maps file: FAIL'' s of Inl e \<Rightarrow> Inl e | Inr s \<Rightarrow> Inr (-1, s))
      else
        (case create_log (''Parsing maps file is completed. There are '' @ dec_int cnt @ '' lines'' @ [CHR 0x0A]) s
         of Inl e \<Rightarrow> Inl e | Inr s \<Rightarrow> Inr (0, s)))"

definition check_parse_maps_line_err :: "MapsLine \<Rightarrow> int" where
  "check_parse_maps_line_err PML = 0"

section \<open>ss_start.c: parsing\<close>

text \<open>The \<open>switch\<close> of \<open>parse_maps_line\<close>; tokens after the sixth are only logged.\<close>

definition set_field :: "nat \<Rightarrow> addr \<Rightarrow> MapsLine \<Rightarrow> MapsLine" where
  "set_field i a PML =
     (if i = 1 then PML\<lparr>address := Some a\<rparr>
      else if i = 2 then PML\<lparr>perms := Some a\<rparr>
      else if i = 3 then PML\<lparr>offset := Some a\<rparr>
      else if i = 4 then PML\<lparr>device := Some a\<rparr>
      else if i = 5 then PML\<lparr>inode := Some a\<rparr>
      else PML\<lparr>path := Some a\<rparr>)"

fun parse_tokens :: "string list \<Rightarrow> nat \<Rightarrow> MapsLine \<Rightarrow> service \<Rightarrow> c_error + MapsLine \<times> service" where
  "parse_tokens [] i PML s = Inr (PML, s)"
| "parse_tokens (p # ps) i PML s =
     (if 1 \<le> i \<and> i \<le> 6 then
        (let (a, h) = halloc (Str p) (mem s) in parse_tokens ps (i + 1) (set_field i a PML) (s\<lparr>mem := h\<rparr>))
      else
        (case create_log ''Parsing maps line: FAIL'' s of Inl e \<Rightarrow> Inl e
         | Inr s \<Rightarrow> parse_tokens ps (i + 1) PML s))"

definition parse_maps_line :: "string \<Rightarrow> service \<Rightarrow> c_error + MapsLine \<times> service" where
  "parse_maps_line line s = parse_tokens (strtok_all {CHR '' '', CHR 0x0A} line) 1 empty_line s"

definition resize_lines :: "nat \<Rightarrow> MapsLine list \<Rightarrow> MapsLine list" where
  "resize_lines k xs = take k xs @ replicate (k - length xs) empty_line"

definition realloc_lines :: "addr option \<Rightarrow> nat \<Rightarrow> mcell heap \<Rightarrow> c_error + addr \<times> mcell heap" where
  "realloc_lines p sz h =
     (case p of None \<Rightarrow> Inr (halloc (Lines (resize_lines (sz div sizeof_MapsLine) [])) h)
      | Some a \<Rightarrow>
         (case hread (Some a) h of
            Inr (Lines xs) \<Rightarrow>
              (let (b, h1) = halloc (Lines (resize_lines (sz div sizeof_MapsLine) xs)) h in
               case hfree (Some a) h1 of Inl e \<Rightarrow> Inl e | Inr h2 \<Rightarrow> Inr (b, h2))
          | Inr _ \<Rightarrow> Inl OutOfBounds
          | Inl e \<Rightarrow> Inl e))"

definition store_line :: "addr \<Rightarrow> nat \<Rightarrow> MapsLine \<Rightarrow> mcell heap \<Rightarrow> c_error + mcell heap" where
  "store_line b i PML h =
     (case hread (Some b) h of
        Inr (Lines xs) \<Rightarrow> if i < length xs then hwrite (Some b) (Lines (xs[i := PML])) h else Inl OutOfBounds
      | Inr _ \<Rightarrow> Inl OutOfBounds
      | Inl e \<Rightarrow> Inl e)"

definition load_line :: "addr option \<Rightarrow> nat \<Rightarrow> mcell heap \<Rightarrow> c_error + MapsLine" where
  "load_line p i h =
     (case hread p h of
        Inr (Lines xs) \<Rightarrow> if i < length xs then Inr (xs ! i) else Inl OutOfBounds
      | Inr _ \<Rightarrow> Inl OutOfBounds
      | Inl e \<Rightarrow> Inl e)"

text \<open>The loop of \<open>parse_maps\<close> over the lines \<open>getline\<close> returns.\<close>

fun parse_lines :: "string list \<Rightarrow> nat \<Rightarrow> nat \<Rightarrow> addr option \<Rightarrow> service
    \<Rightarrow> c_error + int \<times> addr option \<times> service" where
  "parse_lines [] PML_sz cnt p s = Inr (int cnt, p, s\<lparr>maps_file := []\<rparr>)"
| "parse_lines (buf # rest) PML_sz cnt p s =
     (let PML_sz = PML_sz + sizeof_MapsLine in
      case realloc_lines p PML_sz (mem s) of Inl e \<Rightarrow> Inl e | Inr (b, h) \<Rightarrow>
      (case parse_maps_line buf (s\<lparr>mem := h\<rparr>) of Inl e \<Rightarrow> Inl e | Inr (PML, s) \<Rightarrow>
      (case store_line b cnt PML (mem s) of Inl e \<Rightarrow> Inl e | Inr h \<Rightarrow>
      (let s = s\<lparr>mem := h\<rparr> in
       case load_line (Some b) cnt (mem s) of Inl e \<Rightarrow> Inl e | Inr PML \<Rightarrow>
       (if check_parse_maps_line_err PML = -1 then
          (case create_log (''Parsing of line #'' @ dec_int (int cnt + 1) @ '': FAIL'') s of Inl e \<Rightarrow> Inl e
           | Inr s \<Rightarrow> Inr (-1, Some b, s))
        else
          (case print_parsed_maps_line PML s of Inl e \<Rightarrow> Inl e | Inr s \<Rightarrow>
             parse_lines rest PML_sz (cnt + 1) (Some b) s))))))"

definition parse_maps :: "addr option \<Rightarrow> service \<Rightarrow> c_error + int \<times> addr option \<times> service" where
  "parse_maps p s =
     (case create_log ''Parsing maps file started'' s of Inl e \<Rightarrow> Inl e
      | Inr s \<Rightarrow> parse_lines (maps_file s) 0 0 p s)"

section \<open>ss_start.c: comparing, swapping, freeing\<close>

text \<open>\<open>a != NULL && b != NULL && strcmp(a, b) != 0\<close>, and the six tests of \<open>PML_diff\<close> in order.\<close>

definition field_differs :: "addr option \<Rightarrow> addr option \<Rightarrow> mcell heap \<Rightarrow> c_error + bool" where
  "field_differs p q h =
     (case (p, q) of
        (Some a, Some b) \<Rightarrow>
          (case (hread (Some a) h, hread (Some b) h) of
             (Inr (Str v), Inr (Str w)) \<Rightarrow> Inr (v \<noteq> w)
           | (Inl e, _) \<Rightarrow> Inl e
           | (_, Inl e) \<Rightarrow> Inl e
           | _ \<Rightarrow> Inl OutOfBounds)
      | _ \<Rightarrow> Inr False)"

fun any_differs :: "(addr option \<times> addr option) list \<Rightarrow> mcell heap \<Rightarrow> c_error + bool" where
  "any_differs [] h = Inr False"
| "any_differs ((p, q) # ps) h =
     (case field_differs p q h of Inl e \<Rightarrow> Inl e
      | Inr d \<Rightarrow> (if d then Inr True else any_differs ps h))"

definition line_fields :: "MapsLine \<Rightarrow> addr option list" where
  "line_fields PML = [address PML, perms PML, offset PML, device PML, inode PML, path PML]"

fun diff_lines :: "nat list \<Rightarrow> addr option \<Rightarrow> addr option \<Rightarrow> service \<Rightarrow> c_error + service" where
  "diff_lines [] pCur pNext s = Inr s"
| "diff_lines (i # is) pCur pNext s =
     (case load_line pCur i (mem s) of Inl e \<Rightarrow> Inl e | Inr C \<Rightarrow>
     (case load_line pNext i (mem s) of Inl e \<Rightarrow> Inl e | Inr N \<Rightarrow>
     (case any_differs (zip (line_fields C) (line_fields N)) (mem s) of Inl e \<Rightarrow> Inl e | Inr d \<Rightarrow>
     (if d then
        (case print_diff_PML C N s of Inl e \<Rightarrow> Inl e | Inr s \<Rightarrow> diff_lines is pCur pNext s)
      else diff_lines is pCur pNext s))))"

definition PML_diff :: "addr option \<Rightarrow> nat \<Rightarrow> addr option \<Rightarrow> nat \<Rightarrow> service \<Rightarrow> c_error + service" where
  "PML_diff pCur cnt_cur pNext cnt_next s =
     (case create_log ''Diff is started..'' s of Inl e \<Rightarrow> Inl e | Inr s \<Rightarrow>
     (case diff_lines [0..<min cnt_next cnt_cur] pCur pNext s of Inl e \<Rightarrow> Inl e | Inr s \<Rightarrow>
        create_log (''Diff was completed SUCCESSFULLY'' @ [CHR 0x0A]) s))"

fun free_fields :: "addr option list \<Rightarrow> mcell heap \<Rightarrow> c_error + mcell heap" where
  "free_fields [] h = Inr h"
| "free_fields (p # ps) h =
     (if p \<noteq> None then (case hfree p h of Inl e \<Rightarrow> Inl e | Inr h \<Rightarrow> free_fields ps h)
      else free_fields ps h)"

fun free_lines :: "nat list \<Rightarrow> addr option \<Rightarrow> mcell heap \<Rightarrow> c_error + mcell heap" where
  "free_lines [] p h = Inr h"
| "free_lines (i # is) p h =
     (case load_line p i h of Inl e \<Rightarrow> Inl e | Inr PML \<Rightarrow>
     (case free_fields (line_fields PML) h of Inl e \<Rightarrow> Inl e | Inr h \<Rightarrow> free_lines is p h))"

definition free_PML :: "addr option \<Rightarrow> nat \<Rightarrow> service \<Rightarrow> c_error + int \<times> service" where
  "free_PML p num_lines s =
     (case create_log ''free(PML) is working..'' s of Inl e \<Rightarrow> Inl e | Inr s \<Rightarrow>
     (case free_lines [0..<num_lines] p (mem s) of Inl e \<Rightarrow> Inl e | Inr h \<Rightarrow>
     (case hfree p h of Inl e \<Rightarrow> Inl e | Inr h \<Rightarrow>
     (case create_log ''SUCCEED'' (s\<lparr>mem := h\<rparr>) of Inl e \<Rightarrow> Inl e | Inr s \<Rightarrow> Inr (0, s)))))"

text \<open>\<open>PML_swap\<close>: the new values of \<open>*Cur\<close>, \<open>*cnt_cur\<close>, \<open>*Next\<close>, \<open>*cnt_next\<close>.\<close>

definition PML_swap :: "addr option \<Rightarrow> nat \<Rightarrow> addr option \<Rightarrow> nat \<Rightarrow> service
    \<Rightarrow> c_error + (addr option \<times> nat \<times> addr option \<times> nat) \<times> service" where
  "PML_swap Cur cnt_cur Next cnt_next s =
     (case create_log ''Swapping is started..'' s of Inl e \<Rightarrow> Inl e | Inr s \<Rightarrow>
     (let tmp = Cur; Cur = Next; Next = tmp in
      case free_PML Next cnt_cur s of Inl e \<Rightarrow> Inl e | Inr (r, s) \<Rightarrow>
      (if r = -1 then
         (case create_log ''FAIL: free ended with error'' s of Inl e \<Rightarrow> Inl e
          | Inr s \<Rightarrow> Inr ((Cur, cnt_cur, Next, cnt_next), s))
       else
         (case create_log (''Swap: SUCCEED'' @ [CHR 0x0A]) s of Inl e \<Rightarrow> Inl e
          | Inr s \<Rightarrow> Inr ((Cur, cnt_next, None, 0), s)))))"

section \<open>ss_start.c: the service\<close>

text \<open>\<open>open_maps_file\<close>: takes the next observation of the maps file.\<close>

definition open_maps_file :: "int \<Rightarrow> string \<Rightarrow> service \<Rightarrow> c_error + int \<times> service" where
  "open_maps_file tr_pid err s =
     (let maps_path = ''/proc/'' @ dec_int tr_pid @ ''/maps'' in
      case create_log (''Opening '' @ [CHR 0x22] @ maps_path @ [CHR 0x22] @ ''..'') s of Inl e \<Rightarrow> Inl e | Inr s \<Rightarrow>
      (case maps s of
         Some lines # rest \<Rightarrow>
           (case create_log ''SUCCEED'' (s\<lparr>maps := rest, maps_file := lines\<rparr>) of Inl e \<Rightarrow> Inl e
            | Inr s \<Rightarrow> Inr (0, s))
       | _ \<Rightarrow>
           (case create_log (''FAIL: Can'' @ [CHR 0x27] @ ''t open '' @ maps_path @ '': '' @ err @ [CHR 0x0A]) (s\<lparr>maps := tl (maps s)\<rparr>)
            of Inl e \<Rightarrow> Inl e | Inr s \<Rightarrow> Inr (-1, s))))"


text \<open>
  One turn of \<open>while (1)\<close> on \<open>PML_Cur\<close>, \<open>num_lns_cur\<close>, \<open>PML_Next\<close>; \<open>Inl -1\<close> in the inner sum is
  \<open>return -1\<close>.
\<close>

type_synonym rounds = "addr option \<times> nat \<times> addr option"

definition service_turn :: "int \<Rightarrow> string \<Rightarrow> rounds \<Rightarrow> service \<Rightarrow> c_error + (int + rounds) \<times> service" where
  "service_turn tr_pid err = (\<lambda>(Cur, cnt_cur, Next) s.
     (case open_maps_file tr_pid err s of Inl e \<Rightarrow> Inl e | Inr (r, s) \<Rightarrow>
      if r = -1 then Inr (Inl (-1), s)
      else
     (case parse_maps Next s of Inl e \<Rightarrow> Inl e | Inr (cnt_next, Next, s) \<Rightarrow>
      if cnt_next = -1 then Inr (Inl (-1), s)
      else
     (case check_parse_maps_err cnt_next s of Inl e \<Rightarrow> Inl e | Inr (r, s) \<Rightarrow>
      if r = -1 then Inr (Inl (-1), s)
      else
     (case PML_diff Cur cnt_cur Next (nat cnt_next) s of Inl e \<Rightarrow> Inl e | Inr s \<Rightarrow>
     (case PML_swap Cur cnt_cur Next (nat cnt_next) s of Inl e \<Rightarrow> Inl e
      | Inr ((Cur, cnt_cur, Next, cnt_next), s) \<Rightarrow> Inr (Inr (Cur, cnt_cur, Next), s)))))))"

fun service_turns :: "nat \<Rightarrow> int \<Rightarrow> string \<Rightarrow> rounds \<Rightarrow> service \<Rightarrow> c_error + (int + rounds) \<times> service" where
  "service_turns 0 tr_pid err r s = Inr (Inr r, s)"
| "service_turns (Suc k) tr_pid err r s =
     (case service_turn tr_pid err r s of Inl e \<Rightarrow> Inl e
      | Inr (Inl v, s) \<Rightarrow> Inr (Inl v, s)
      | Inr (Inr r, s) \<Rightarrow> service_turns k tr_pid err r s)"

text \<open>\<open>start_service\<close> up to its loop, and with \<open>k\<close> turns of it.\<close>

definition start_service :: "nat \<Rightarrow> int \<Rightarrow> string \<Rightarrow> service \<Rightarrow> c_error + (int + rounds) \<times> service" where
  "start_service k tr_pid err s =
     (case create_log (''Starting service...'' @ [CHR 0x0A]) s of Inl e \<Rightarrow> Inl e | Inr s \<Rightarrow>
     (case create_log (''Tracking pid: '' @ dec_int tr_pid) s of Inl e \<Rightarrow> Inl e | Inr s \<Rightarrow>
     (case open_maps_file tr_pid err s of Inl e \<Rightarrow> Inl e | Inr (r, s) \<Rightarrow>
      if r = -1 then Inr (Inl (-1), s)
      else
     (case create_log (''Parsing maps file...'' @ [CHR 0x0A]) s of Inl e \<Rightarrow> Inl e | Inr s \<Rightarrow>
     (case parse_maps None s of Inl e \<Rightarrow> Inl e | Inr (cnt, Cur, s) \<Rightarrow>
      if cnt = -1 then Inr (Inl (-1), s)
      else
     (case check_parse_maps_err cnt s of Inl e \<Rightarrow> Inl e | Inr (r, s) \<Rightarrow>
      if r = -1 then Inr (Inl (-1), s)
      else
     (case create_log (''SUCCEED: Service started!'' @ [CHR 0x0A]) s of Inl e \<Rightarrow> Inl e | Inr s \<Rightarrow>
        service_turns k tr_pid err (Cur, nat cnt, None) s)))))))"

section \<open>ss_config.c\<close>

record Config =
  options :: nat
  conf_pid :: int

text \<open>\<open>parse_console_args\<close>: \<open>flags\<close> are the values \<open>getopt_long\<close> returns, in order.\<close>

fun parse_flags :: "string \<Rightarrow> nat \<Rightarrow> c_error + nat" where
  "parse_flags [] opts = Inr opts"
| "parse_flags (f # fs) opts =
     (if f = CHR ''d'' then parse_flags fs (if opts mod 2 = 1 then opts else opts + 1)
      else if f = CHR ''h'' then Inl (Exit 0)
      else Inl (Exit 1))"

definition parse_console_args :: "nat \<Rightarrow> string \<Rightarrow> int \<Rightarrow> c_error + Config" where
  "parse_console_args argc flags pid0 =
     (if argc = 1 then Inr \<lparr>options = 0, conf_pid = pid0\<rparr>
      else (case parse_flags flags 0 of Inl e \<Rightarrow> Inl e | Inr opts \<Rightarrow> Inr \<lparr>options = opts, conf_pid = pid0\<rparr>))"

text \<open>\<open>oct_to_rwx\<close>: nine bytes are allocated, \<open>strcpy\<close> writes nine dashes and a NUL.\<close>

definition rwx_bits :: "nat \<Rightarrow> string" where
  "rwx_bits n =
     fold (\<lambda>shift buf. if (n div 2 ^ shift) mod 2 = 1
           then buf[8 - shift := ''xwr'' ! (shift mod 3)] else buf)
       [0..<9] (replicate 9 (CHR ''-''))"

definition oct_to_rwx :: "nat \<Rightarrow> c_error + string" where
  "oct_to_rwx n =
     (case strcat_into (3 * 3) [] (replicate 9 (CHR ''-'')) of Inl e \<Rightarrow> Inl e | Inr buf \<Rightarrow> Inr (rwx_bits n))"

text \<open>
  \<open>preparing\<close>: the results of the system calls it makes, \<open>None\<close> for a failure with the error text.
\<close>

record prep_calls =
  log_open :: int
  std_close :: bool
  new_session :: "int option"
  root_dir :: bool
  fill_mask :: bool
  set_mask :: bool

definition log_all :: "string list \<Rightarrow> service \<Rightarrow> c_error + service" where
  "log_all msgs s = fold (\<lambda>m r. case r of Inl e \<Rightarrow> Inl e | Inr s \<Rightarrow> create_log m s) msgs (Inr s)"

definition preparing :: "prep_calls \<Rightarrow> string \<Rightarrow> service \<Rightarrow> c_error + int \<times> service" where
  "preparing c err s =
     (let s = snd (start_log (log_open c) s);
          fail = (\<lambda>s. case create_log (''FAIL: '' @ err) s of Inl e \<Rightarrow> Inl e | Inr s \<Rightarrow> Inr (-1, s)) in
      case log_all [''Configuration has begun.'', ''Preparation has begun.'', ''Closing file descriptors...''] s
      of Inl e \<Rightarrow> Inl e | Inr s \<Rightarrow>
      if \<not> std_close c then fail s
      else
     (case log_all [''SUCCEED'', ''Creating new session...''] s of Inl e \<Rightarrow> Inl e | Inr s \<Rightarrow>
      case new_session c of None \<Rightarrow> fail s | Some sid \<Rightarrow>
     (case log_all [''SUCCEED: Session id is '' @ dec_int sid, ''Setting file creation permissions...'',
         ''SUCCEED: Permissions are 0777'', ''Changing current directory...''] s of Inl e \<Rightarrow> Inl e | Inr s \<Rightarrow>
      if \<not> root_dir c then fail s
      else
     (case log_all [''SUCCEED: Current directory is '' @ [CHR 0x22, CHR 0x2F, CHR 0x22],
         ''Starting block all signals...'', ''Creating mask...''] s of Inl e \<Rightarrow> Inl e | Inr s \<Rightarrow>
      if \<not> fill_mask c then fail s
      else
     (case create_log ''SUCCEED'' s of Inl e \<Rightarrow> Inl e | Inr s \<Rightarrow>
      if \<not> set_mask c then fail s
      else
     (case log_all [''SUCCEED: All signals are blocked.'', ''Preparation completed successfully.''] s
      of Inl e \<Rightarrow> Inl e | Inr s \<Rightarrow> Inr (0, s)))))))"

definition configure_service :: "prep_calls \<Rightarrow> string \<Rightarrow> Config \<Rightarrow> service \<Rightarrow> c_error + service" where
  "configure_service c err Conf s =
     (let s = s\<lparr>config_log_fd := 1\<rparr> in
      case (if options Conf mod 2 = 0 then create_log ''Configuration has begun.'' s
            else (case preparing c err s of Inl e \<Rightarrow> Inl e
                  | Inr (r, s) \<Rightarrow> if r = -1 then Inl (Exit 1) else Inr s))
      of Inl e \<Rightarrow> Inl e | Inr s \<Rightarrow> create_log (''Configuration completed successfully.'' @ [CHR 0x0A]) s)"

section \<open>ss_main.c\<close>

text \<open>
  The process that runs the service: the parent in interactive mode, the child as a daemon.
  \<open>None\<close> means that after \<open>k\<close> turns of the loop it is still running.
\<close>

definition service_main :: "nat \<Rightarrow> prep_calls \<Rightarrow> string \<Rightarrow> Config \<Rightarrow> service \<Rightarrow> c_error + int option \<times> service" where
  "service_main k c err Conf s =
     (case configure_service c err Conf s of Inl e \<Rightarrow> Inl e | Inr s \<Rightarrow>
     (case start_service k (conf_pid Conf) err s of Inl e \<Rightarrow> Inl e
      | Inr (Inr r, s) \<Rightarrow> Inr (None, s)
      | Inr (Inl v, s) \<Rightarrow>
        (if options Conf mod 2 = 0 \<and> v = -1 then
           (case create_log ''Starting service failed.'' s of Inl e \<Rightarrow> Inl e | Inr s \<Rightarrow> Inr (Some 1, s))
         else Inr (Some 0, s))))"

text \<open>
  \<open>main\<close>: the arguments, the pid read from standard input, and in daemon mode the fork, whose result
  is \<open>pid\<close>. The final service is that of the process described by it.
\<close>

definition ss_main :: "nat \<Rightarrow> string \<Rightarrow> int \<Rightarrow> int \<Rightarrow> nat \<Rightarrow> prep_calls \<Rightarrow> string \<Rightarrow> service
    \<Rightarrow> c_error + int option \<times> service" where
  "ss_main argc flags tr_pid pid k c err s =
     (case parse_console_args argc flags tr_pid of Inl e \<Rightarrow> Inl e
      | Inr Conf \<Rightarrow>
          if options Conf mod 2 = 0 then service_main k c err Conf s
          else if pid = -1 then Inr (Some 1, s)
          else if pid = 0 then service_main k c err Conf s
          else Inr (Some 0, s))"

end
