(* ===== verification/ServiceHeap.thy ===== *)
theory ServiceHeap
  imports SysService
begin

text \<open>
  What \<open>parse_maps\<close> leaves on the heap. A parsed file is a snapshot: an array of \<open>MapsLine\<close>
  whose fields own the tokens of each line. The lemmas follow \<open>parse_maps_line\<close>,
  \<open>print_parsed_maps_line\<close> and the loop of \<open>parse_maps\<close> and say which snapshot a list of lines
  gives and which records it logs.
\<close>

section \<open>The log\<close>

lemma strcat_into_ok: "length dst + length src < cap \<Longrightarrow> strcat_into cap dst src = Inr (dst @ src)"
  by (simp add: strcat_into_def)

text \<open>The text of one record, and the condition under which it fits.\<close>

definition log_text :: "service \<Rightarrow> string \<Rightarrow> string" where
  "log_text s msg = clock s @ [CHR 0x09] @ msg @ [CHR 0x0A]"

lemma log_line_iff:
  "length tm = TIME_MARK_LEN \<Longrightarrow>
   log_line tm msg =
     (if length msg < 230 then Inr (tm @ [CHR 0x09] @ msg @ [CHR 0x0A]) else Inl OutOfBounds)"
  by (auto simp: log_line_def strcat_into_def log_consts)

definition logged :: "string list \<Rightarrow> service \<Rightarrow> service" where
  "logged msgs s = s\<lparr>written := written s @ map (\<lambda>m. (log_fd s, log_text s m)) msgs\<rparr>"

lemma create_log_ok:
  "length (clock s) = TIME_MARK_LEN \<Longrightarrow> length msg < 230 \<Longrightarrow> create_log msg s = Inr (logged [msg] s)"
  by (simp add: create_log_def log_line_iff logged_def log_text_def)

lemma logged_simps [simp]:
  "mem (logged ms s) = mem s" "log_fd (logged ms s) = log_fd s" "clock (logged ms s) = clock s"
  "maps (logged ms s) = maps s" "maps_file (logged ms s) = maps_file s"
  "config_log_fd (logged ms s) = config_log_fd s"
  "logged ms (s\<lparr>mem := h\<rparr>) = (logged ms s)\<lparr>mem := h\<rparr>"
  "logged ms (s\<lparr>maps := x\<rparr>) = (logged ms s)\<lparr>maps := x\<rparr>"
  "logged ms (s\<lparr>maps_file := y\<rparr>) = (logged ms s)\<lparr>maps_file := y\<rparr>"
  by (simp_all add: logged_def log_text_def)

lemma logged_logged [simp]: "logged ns (logged ms s) = logged (ms @ ns) s"
  by (simp add: logged_def log_text_def)

lemma logged_Nil [simp]: "logged [] s = s"
  by (simp add: logged_def)


section \<open>Lines and their words\<close>

definition line_words :: "string \<Rightarrow> string list" where
  "line_words l = take 6 (strtok_all {CHR '' '', CHR 0x0A} l)"

definition extra_words :: "string \<Rightarrow> nat" where
  "extra_words l = length (strtok_all {CHR '' '', CHR 0x0A} l) - 6"

text \<open>How a line is printed: a blank after each of the first five fields.\<close>

definition show_line :: "string list \<Rightarrow> string" where
  "show_line ws = concat (map (\<lambda>w. w @ '' '') (take 5 ws)) @ concat (drop 5 ws)"

definition words_fit :: "string list \<Rightarrow> bool" where
  "words_fit ws \<longleftrightarrow> length ws \<le> 6 \<and> length (show_line ws) < 230 \<and> CHR 0x25 \<notin> set (show_line ws)"

lemma line_words_length: "length (line_words l) \<le> 6"
  by (simp add: line_words_def)

definition nth_opt :: "addr list \<Rightarrow> nat \<Rightarrow> addr option" where
  "nth_opt as i = (if i < length as then Some (as ! i) else None)"

definition mk_line :: "addr list \<Rightarrow> MapsLine" where
  "mk_line as = \<lparr>address = nth_opt as 0, perms = nth_opt as 1, offset = nth_opt as 2,
     device = nth_opt as 3, inode = nth_opt as 4, path = nth_opt as 5\<rparr>"

lemma mk_line_Nil: "mk_line [] = empty_line"
  by (simp add: mk_line_def empty_line_def nth_opt_def)

lemma set_field_mk_line:
  assumes "length as < 6"
  shows "set_field (Suc (length as)) a (mk_line as) = mk_line (as @ [a])"
proof -
  consider "length as = 0" | "length as = 1" | "length as = 2" | "length as = 3" | "length as = 4" | "length as = 5"
    using assms by linarith
  then show ?thesis
    by cases (simp_all add: set_field_def mk_line_def nth_opt_def nth_append)
qed

lemma fields_mk_line:
  assumes "length as \<le> 6"
  shows "line_fields (mk_line as) = map Some as @ replicate (6 - length as) None"
proof (rule nth_equalityI)
  show "length (line_fields (mk_line as)) = length (map Some as @ replicate (6 - length as) None)"
    using assms by (simp add: line_fields_def)
next
  fix i
  assume "i < length (line_fields (mk_line as))"
  then have "i = 0 \<or> i = 1 \<or> i = 2 \<or> i = 3 \<or> i = 4 \<or> i = 5" by (auto simp: line_fields_def)
  then show "line_fields (mk_line as) ! i = (map Some as @ replicate (6 - length as) None) ! i"
    using assms by (elim disjE) (simp_all add: line_fields_def mk_line_def nth_opt_def nth_append)
qed

section \<open>Parsing on the heap\<close>

definition parse_fail :: string where
  "parse_fail = ''Parsing maps line: FAIL''"

lemma parse_tokens_ok:
  "heap_ok (mem s) \<Longrightarrow> length (clock s) = TIME_MARK_LEN \<Longrightarrow> length as0 \<le> 6 \<Longrightarrow>
   (length as0 < 6 \<Longrightarrow> i = Suc (length as0)) \<Longrightarrow> (length as0 = 6 \<Longrightarrow> 6 < i) \<Longrightarrow>
   \<exists>as h'. parse_tokens ps i (mk_line as0) s =
       Inr (mk_line (as0 @ as), (logged (replicate (length ps - (6 - length as0)) parse_fail) s)\<lparr>mem := h'\<rparr>) \<and>
     heap_ok h' \<and> hnext (mem s) \<le> hnext h' \<and> length as = min (length ps) (6 - length as0) \<and>
     distinct as \<and> set as \<subseteq> {hnext (mem s)..<hnext h'} \<and>
     hcell h' = (hcell (mem s))(as [\<mapsto>] map Str (take (6 - length as0) ps))"
proof (induction ps arbitrary: as0 i s)
  case Nil
  then show ?case by (intro exI [of _ "[]"] exI [of _ "mem s"]) simp
next
  case (Cons p ps)
  show ?case
  proof (cases "length as0 < 6")
    case True
    then have i: "i = Suc (length as0)" using Cons.prems by simp
    let ?a = "hnext (mem s)"
    let ?h = "(mem s)\<lparr>hnext := Suc ?a, hcell := (hcell (mem s))(?a \<mapsto> Str p)\<rparr>"
    let ?s = "s\<lparr>mem := ?h\<rparr>"
    have ok: "heap_ok (mem ?s)" using Cons.prems(1) by (auto simp: heap_ok_def less_Suc_eq split: if_splits)
    have step: "parse_tokens (p # ps) i (mk_line as0) s = parse_tokens ps (Suc i) (mk_line (as0 @ [?a])) ?s"
      using True i by (simp add: halloc_def set_field_mk_line)
    have "\<exists>as h'. parse_tokens ps (Suc i) (mk_line (as0 @ [?a])) ?s = Inr (mk_line ((as0 @ [?a]) @ as),
          (logged (replicate (length ps - (6 - length (as0 @ [?a]))) parse_fail) ?s)\<lparr>mem := h'\<rparr>) \<and>
        heap_ok h' \<and> hnext (mem ?s) \<le> hnext h' \<and> length as = min (length ps) (6 - length (as0 @ [?a])) \<and>
        distinct as \<and> set as \<subseteq> {hnext (mem ?s)..<hnext h'} \<and>
        hcell h' = (hcell (mem ?s))(as [\<mapsto>] map Str (take (6 - length (as0 @ [?a])) ps))"
      using ok Cons.prems(2) True i by (intro Cons.IH) simp_all
    then obtain as h' where ih: "parse_tokens ps (Suc i) (mk_line (as0 @ [?a])) ?s = Inr (mk_line ((as0 @ [?a]) @ as),
          (logged (replicate (length ps - (6 - length (as0 @ [?a]))) parse_fail) ?s)\<lparr>mem := h'\<rparr>)"
        "heap_ok h'" "hnext (mem ?s) \<le> hnext h'" "length as = min (length ps) (6 - length (as0 @ [?a]))"
        "distinct as" "set as \<subseteq> {hnext (mem ?s)..<hnext h'}"
        "hcell h' = (hcell (mem ?s))(as [\<mapsto>] map Str (take (6 - length (as0 @ [?a])) ps))"
      by blast
    have "length (p # ps) - (6 - length as0) = length ps - (6 - length (as0 @ [?a]))" using True by simp
    moreover have "hcell h' = (hcell (mem s))(?a # as [\<mapsto>] map Str (take (6 - length as0) (p # ps)))"
    proof -
      have "take (6 - length as0) (p # ps) = p # take (6 - length (as0 @ [?a])) ps"
        using True by (simp add: take_Cons')
      then show ?thesis using ih(7) by simp
    qed
    moreover have "length (?a # as) = min (length (p # ps)) (6 - length as0)" using ih(4) True by simp
    moreover have "distinct (?a # as)" "set (?a # as) \<subseteq> {hnext (mem s)..<hnext h'}"
      using ih(3,5,6) by auto
    ultimately show ?thesis using step ih(1,2,3)
      by (intro exI [of _ "?a # as"] exI [of _ h']) simp
  next
    case False
    then have len: "length as0 = 6" and "6 < i" using Cons.prems by auto
    let ?s = "logged [parse_fail] s"
    have step: "parse_tokens (p # ps) i (mk_line as0) s = parse_tokens ps (Suc i) (mk_line as0) ?s"
      using \<open>6 < i\<close> Cons.prems(2) create_log_ok [of s parse_fail] by (simp add: parse_fail_def)
    have "\<exists>as h'. parse_tokens ps (Suc i) (mk_line as0) ?s =
       Inr (mk_line (as0 @ as), (logged (replicate (length ps - (6 - length as0)) parse_fail) ?s)\<lparr>mem := h'\<rparr>) \<and>
     heap_ok h' \<and> hnext (mem ?s) \<le> hnext h' \<and> length as = min (length ps) (6 - length as0) \<and>
     distinct as \<and> set as \<subseteq> {hnext (mem ?s)..<hnext h'} \<and>
     hcell h' = (hcell (mem ?s))(as [\<mapsto>] map Str (take (6 - length as0) ps))"
      using Cons.prems len \<open>6 < i\<close> by (intro Cons.IH) simp_all
    then show ?thesis using step len by (simp add: replicate_app_Cons_same)
  qed
qed


text \<open>
  A snapshot: for every line its strings and their addresses. \<open>snap_cells\<close> adds them to a heap;
  \<open>holds_snapshot\<close> says that beside \<open>base\<close> the heap holds exactly the array \<open>p\<close> and its strings.
\<close>

type_synonym snap = "(addr list \<times> string list) list"

definition snap_cells :: "snap \<Rightarrow> (addr \<rightharpoonup> mcell) \<Rightarrow> addr \<rightharpoonup> mcell" where
  "snap_cells sn m = fold (\<lambda>(as, ws) m. m(as [\<mapsto>] map Str ws)) sn m"

definition snap_addrs :: "snap \<Rightarrow> addr list" where
  "snap_addrs sn = concat (map fst sn)"

definition snap_fits :: "snap \<Rightarrow> bool" where
  "snap_fits sn \<longleftrightarrow> (\<forall>(as, ws) \<in> set sn. length as = length ws \<and> length ws \<le> 6) \<and> distinct (snap_addrs sn)"

definition snap_array :: "snap \<Rightarrow> mcell" where
  "snap_array sn = Lines (map (mk_line \<circ> fst) sn)"

definition holds_snapshot :: "(addr \<rightharpoonup> mcell) \<Rightarrow> addr option \<Rightarrow> snap \<Rightarrow> mcell heap \<Rightarrow> bool" where
  "holds_snapshot base p sn h \<longleftrightarrow>
     heap_ok h \<and> snap_fits sn \<and> (\<forall>a \<in> set (snap_addrs sn). base a = None) \<and>
     (p = None \<longrightarrow> sn = []) \<and> (\<forall>b. p = Some b \<longrightarrow> base b = None \<and> b \<notin> set (snap_addrs sn)) \<and>
     hcell h = put_block (snap_cells sn base) p (snap_array sn)"

lemma snap_cells_snoc: "snap_cells (sn @ [(as, ws)]) m = (snap_cells sn m)(as [\<mapsto>] map Str ws)"
  by (simp add: snap_cells_def)

lemma snap_addrs_snoc: "snap_addrs (sn @ [(as, ws)]) = snap_addrs sn @ as"
  by (simp add: snap_addrs_def)

lemma snap_cells_other: "a \<notin> set (snap_addrs sn) \<Longrightarrow> snap_cells sn m a = m a"
proof (induction sn rule: rev_induct)
  case Nil
  then show ?case by (simp add: snap_cells_def)
next
  case (snoc x sn)
  then show ?case by (cases x) (auto simp: snap_cells_snoc snap_addrs_snoc map_upds_apply_nontin)
qed

lemma snap_cells_here:
  "snap_fits sn \<Longrightarrow> (as, ws) \<in> set sn \<Longrightarrow> map (snap_cells sn m) as = map (Some \<circ> Str) ws"
proof (induction sn rule: rev_induct)
  case Nil
  then show ?case by simp
next
  case (snoc x sn)
  obtain as' ws' where x: "x = (as', ws')" by (cases x)
  have fits: "snap_fits sn" and disj: "set (snap_addrs sn) \<inter> set as' = {}"
    and as': "distinct as'" "length as' = length ws'"
    using snoc.prems(1) x by (auto simp: snap_fits_def snap_addrs_snoc)
  show ?case
  proof (cases "(as, ws) = x")
    case True
    have "map ((snap_cells sn m)(as' [\<mapsto>] map Str ws')) as' = map Some (map Str ws')"
      by (rule map_upds_values) (use as' in simp_all)
    then show ?thesis using True x by (simp add: snap_cells_snoc)
  next
    case False
    with snoc.prems(2) have mem: "(as, ws) \<in> set sn" by auto
    then have "set as \<subseteq> set (snap_addrs sn)" by (force simp: snap_addrs_def)
    then have "snap_cells (sn @ [x]) m a = snap_cells sn m a" if "a \<in> set as" for a
    proof -
      have "a \<notin> set as'" using that \<open>set as \<subseteq> _\<close> disj by blast
      then show ?thesis using x by (simp add: snap_cells_snoc map_upds_apply_nontin)
    qed
    then have "map (snap_cells (sn @ [x]) m) as = map (snap_cells sn m) as" by simp
    then show ?thesis using snoc.IH [OF fits mem] by simp
  qed
qed

lemma snap_cells_indep:
  assumes "snap_fits sn" and "a \<in> set (snap_addrs sn)"
  shows "snap_cells sn m a = snap_cells sn m' a"
proof -
  from assms(2) obtain as ws where mem: "(as, ws) \<in> set sn" and a: "a \<in> set as"
    by (auto simp: snap_addrs_def)
  from snap_cells_here [OF assms(1) mem] have "map (snap_cells sn m) as = map (snap_cells sn m') as"
    by simp
  with a show ?thesis by auto
qed

text \<open>Reading a snapshot through the pointers in it.\<close>

definition snap_at :: "mcell heap \<Rightarrow> addr option \<Rightarrow> snap \<Rightarrow> bool" where
  "snap_at h p sn \<longleftrightarrow>
     (\<forall>(as, ws) \<in> set sn. length ws \<le> 6 \<and> map (hcell h) as = map (Some \<circ> Str) ws) \<and>
     (if sn = [] then True else \<exists>b. p = Some b \<and> hcell h b = Some (snap_array sn))"

lemma holds_snap_at: "holds_snapshot base p sn h \<Longrightarrow> snap_at h p sn"
proof -
  assume o: "holds_snapshot base p sn h"
  then have fits: "snap_fits sn" by (simp add: holds_snapshot_def)
  have "map (hcell h) as = map (Some \<circ> Str) ws" if mem: "(as, ws) \<in> set sn" for as ws
  proof -
    have "a \<in> set as \<Longrightarrow> a \<in> set (snap_addrs sn)" for a using mem by (force simp: snap_addrs_def)
    then have "map (hcell h) as = map (snap_cells sn base) as"
      using o by (cases p) (auto simp: holds_snapshot_def)
    then show ?thesis using snap_cells_here [OF fits mem] by simp
  qed
  then show ?thesis using o by (cases p) (auto simp: snap_at_def holds_snapshot_def snap_fits_def)
qed

lemma snap_at_line:
  assumes "snap_at h p sn" and "i < length sn" and "sn ! i = (as, ws)"
  shows "load_line p i h = Inr (mk_line as)" and "map (hcell h) as = map (Some \<circ> Str) ws"
    and "length as = length ws" and "length ws \<le> 6"
proof -
  have mem: "(as, ws) \<in> set sn" using assms(2,3) by (metis nth_mem)
  then show m: "map (hcell h) as = map (Some \<circ> Str) ws" and "length ws \<le> 6"
    using assms(1) by (auto simp: snap_at_def)
  from m show "length as = length ws" by (metis length_map)
  have "sn \<noteq> []" using assms(2) by auto
  then show "load_line p i h = Inr (mk_line as)"
    using assms by (auto simp: snap_at_def load_line_def snap_array_def)
qed


section \<open>Printing\<close>

fun cat_all :: "(addr option \<times> string) list \<Rightarrow> mcell heap \<Rightarrow> string \<Rightarrow> c_error + string" where
  "cat_all [] h msg = Inr msg"
| "cat_all ((p, sep) # ps) h msg =
     (case cat_field p sep h msg of Inl e \<Rightarrow> Inl e | Inr msg \<Rightarrow> cat_all ps h msg)"

definition field_seps :: "string list" where
  "field_seps = ['' '', '' '', '' '', '' '', '' '', []]"

lemma print_cat_all:
  "print_parsed_maps_line PML s =
     (case cat_all (zip (line_fields PML) field_seps) (mem s) [] of Inl e \<Rightarrow> Inl e | Inr msg \<Rightarrow>
     (case format_plain msg of Inl e \<Rightarrow> Inl e | Inr text \<Rightarrow> create_log text s))"
  by (simp add: print_parsed_maps_line_def line_fields_def field_seps_def split: sum.splits)

lemma cat_field_ok:
  "hcell h a = Some (Str w) \<Longrightarrow> length msg + length w + length sep < MSG_LEN \<Longrightarrow>
   cat_field (Some a) sep h msg = Inr (msg @ w @ sep)"
  by (simp add: cat_field_def strcat_into_def)

lemma cat_all_None: "cat_all (zip (replicate n None) seps) h msg = Inr msg"
proof (induction n arbitrary: seps)
  case 0
  then show ?case by simp
next
  case (Suc n)
  then show ?case by (cases seps) (simp_all add: cat_field_def)
qed

lemma cat_all_ok:
  "map (hcell h) as = map (Some \<circ> Str) ws \<Longrightarrow> length ws \<le> length seps \<Longrightarrow>
   length msg + length (concat (map2 (@) ws seps)) < MSG_LEN \<Longrightarrow>
   cat_all (zip (map Some as @ replicate n None) seps) h msg = Inr (msg @ concat (map2 (@) ws seps))"
proof (induction as arbitrary: ws seps msg)
  case Nil
  then show ?case by (simp add: cat_all_None)
next
  case (Cons a as)
  then obtain w ws' where ws: "ws = w # ws'" "hcell h a = Some (Str w)" by (cases ws) auto
  moreover obtain sep seps' where "seps = sep # seps'" using Cons.prems(2) ws by (cases seps) auto
  ultimately show ?case using Cons by (simp add: cat_field_ok)
qed

lemma show_line_seps: "length ws \<le> 6 \<Longrightarrow> show_line ws = concat (map2 (@) ws field_seps)"
proof -
  assume "length ws \<le> 6"
  then have "length ws = 0 \<or> length ws = 1 \<or> length ws = 2 \<or> length ws = 3 \<or> length ws = 4 \<or>
      length ws = 5 \<or> length ws = 6" by linarith
  then show ?thesis
    by (elim disjE) (auto simp: length_Suc_conv numeral_eq_Suc show_line_def field_seps_def)
qed

lemma format_plain_id: "CHR 0x25 \<notin> set t \<Longrightarrow> format_plain t = Inr t"
  by (induction t rule: format_plain.induct) auto

lemma print_line_ok:
  assumes "map (hcell (mem s)) as = map (Some \<circ> Str) ws" and "words_fit ws"
    and "length (clock s) = TIME_MARK_LEN"
  shows "print_parsed_maps_line (mk_line as) s = Inr (logged [show_line ws] s)"
proof -
  have len: "length ws \<le> 6" "length (show_line ws) < 230" "CHR 0x25 \<notin> set (show_line ws)"
    using assms(2) by (simp_all add: words_fit_def)
  have la: "length as = length ws" using assms(1) by (metis length_map)
  have "cat_all (zip (map Some as @ replicate (6 - length as) None) field_seps) (mem s) [] = Inr (show_line ws)"
    using cat_all_ok [OF assms(1), of field_seps "[]" "6 - length as"] len
    by (simp add: show_line_seps field_seps_def log_consts)
  then show ?thesis
    using len la assms(3) by (simp add: print_cat_all fields_mk_line format_plain_id create_log_ok)
qed

section \<open>Parsing a whole file\<close>

lemma resize_lines_grow: "length xs = n \<Longrightarrow> resize_lines (Suc n) xs = xs @ [empty_line]"
  by (simp add: resize_lines_def)

lemma realloc_lines_ok:
  assumes "heap_ok h" and "if p = None then xs = [] else hcell h (the p) = Some (Lines xs)"
    and "sz div 48 = Suc (length xs)"
  shows "\<exists>h'. realloc_lines p sz h = Inr (hnext h, h') \<and> heap_ok h' \<and> hnext h' = Suc (hnext h) \<and>
    hcell h' = (drop_block (hcell h) p)(hnext h \<mapsto> Lines (xs @ [empty_line]))"
proof (cases p)
  case None
  let ?h = "h\<lparr>hnext := Suc (hnext h), hcell := (hcell h)(hnext h \<mapsto> Lines [empty_line])\<rparr>"
  have "realloc_lines p sz h = Inr (hnext h, ?h)"
    using None assms(2,3) by (simp add: realloc_lines_def sizeof_MapsLine_def halloc_def resize_lines_grow)
  moreover have "heap_ok ?h" using assms(1) by (auto simp: heap_ok_def less_Suc_eq split: if_splits)
  ultimately show ?thesis using None assms(2) by simp
next
  case (Some a)
  with assms have a: "hcell h a = Some (Lines xs)" and lt: "a < hnext h" by (auto simp: heap_ok_def)
  let ?v = "Lines (xs @ [empty_line])"
  let ?h = "h\<lparr>hnext := Suc (hnext h), hcell := (hcell h)(hnext h \<mapsto> ?v)\<rparr>"
  have "realloc_lines p sz h = Inr (hnext h, ?h\<lparr>hcell := (hcell ?h)(a := None)\<rparr>)"
    using Some a lt assms(3) by (simp add: realloc_lines_def sizeof_MapsLine_def halloc_def resize_lines_grow)
  moreover have "heap_ok (?h\<lparr>hcell := (hcell ?h)(a := None)\<rparr>)"
    using assms(1) by (auto simp: heap_ok_def less_Suc_eq split: if_splits)
  ultimately show ?thesis using Some lt by (auto simp: fun_upd_twist)
qed

text \<open>What parsing one line logs.\<close>

definition line_log :: "string \<Rightarrow> string list" where
  "line_log l = replicate (extra_words l) parse_fail @ [show_line (line_words l)]"


lemma snap_cells_some:
  assumes "snap_fits sn" and "a \<in> set (snap_addrs sn)"
  shows "snap_cells sn m a \<noteq> None"
proof -
  from assms(2) obtain as ws where mem: "(as, ws) \<in> set sn" and a: "a \<in> set as"
    by (auto simp: snap_addrs_def)
  have m: "map (snap_cells sn m) as = map (Some \<circ> Str) ws" by (rule snap_cells_here [OF assms(1) mem])
  have "snap_cells sn m a \<in> set (map (snap_cells sn m) as)" using a by simp
  then show ?thesis unfolding m by auto
qed

text \<open>An address not yet handed out is in neither part of the heap.\<close>

lemma holds_fresh:
  assumes "holds_snapshot base p sn h" and "hnext h \<le> a"
  shows "base a = None" and "a \<notin> set (snap_addrs sn)" and "p \<noteq> Some a"
proof -
  have "heap_ok h" using assms(1) by (simp add: holds_snapshot_def)
  then have h: "hcell h a = None" using assms(2) by (rule heap_ok_fresh)
  have cells: "hcell h = put_block (snap_cells sn base) p (snap_array sn)" and fits: "snap_fits sn"
    using assms(1) by (simp_all add: holds_snapshot_def)
  show p: "p \<noteq> Some a" using h cells by auto
  then have s: "snap_cells sn base a = None" using h cells by (cases p) auto
  then show n: "a \<notin> set (snap_addrs sn)" using snap_cells_some [OF fits] by blast
  show "base a = None" using s n by (simp add: snap_cells_other)
qed

lemma map_upds_skip: "a \<noteq> b \<Longrightarrow> ((m(b \<mapsto> x))(as [\<mapsto>] vs)) a = (m(as [\<mapsto>] vs)) a"
  by (auto simp: map_upds_def map_add_def split: option.splits)

lemma parse_line_step:
  assumes o: "holds_snapshot base p sn (mem s)" and sz: "sz div 48 = length sn"
    and clock: "length (clock s) = TIME_MARK_LEN" and fit: "words_fit (line_words l)"
  shows "\<exists>as b h'. parse_lines (l # rest) sz (length sn) p s =
      parse_lines rest (sz + 48) (Suc (length sn)) (Some b) ((logged (line_log l) s)\<lparr>mem := h'\<rparr>) \<and>
    holds_snapshot base (Some b) (sn @ [(as, line_words l)]) h'"
proof -
  let ?xs = "map (mk_line \<circ> fst) sn" and ?b = "hnext (mem s)" and ?ws = "line_words l"
  have ok: "heap_ok (mem s)" and fits: "snap_fits sn"
    and cells: "hcell (mem s) = put_block (snap_cells sn base) p (snap_array sn)"
    and p: "\<forall>b. p = Some b \<longrightarrow> base b = None \<and> b \<notin> set (snap_addrs sn)" "p = None \<longrightarrow> sn = []"
    and base: "\<forall>a \<in> set (snap_addrs sn). base a = None"
    using o by (simp_all add: holds_snapshot_def)
  have "if p = None then ?xs = [] else hcell (mem s) (the p) = Some (Lines ?xs)"
    using cells p(2) by (auto simp: snap_array_def)
  then obtain h1 where h1: "realloc_lines p (sz + 48) (mem s) = Inr (?b, h1)" "heap_ok h1" "hnext h1 = Suc ?b"
      "hcell h1 = (drop_block (hcell (mem s)) p)(?b \<mapsto> Lines (?xs @ [empty_line]))"
    using realloc_lines_ok [OF ok, of p ?xs "sz + 48"] sz by fastforce
  have drop: "drop_block (hcell (mem s)) p = snap_cells sn base"
    using cells p(1) by (cases p) (auto simp: fun_eq_iff snap_cells_other)
  let ?s1 = "s\<lparr>mem := h1\<rparr>"
  obtain as h2 where h2: "parse_maps_line l ?s1 = Inr (mk_line as, (logged (replicate (extra_words l) parse_fail) ?s1)\<lparr>mem := h2\<rparr>)"
      "heap_ok h2" "Suc ?b \<le> hnext h2" "length as = length ?ws" "distinct as" "set as \<subseteq> {Suc ?b..<hnext h2}"
      "hcell h2 = (hcell h1)(as [\<mapsto>] map Str ?ws)"
    using parse_tokens_ok [of ?s1 "[]" 1 "strtok_all {CHR '' '', CHR 0x0A} l"] h1(2,3) clock
    by (auto simp: parse_maps_line_def mk_line_Nil extra_words_def line_words_def)
  have b: "?b \<notin> set as" using h2(6) by auto
  then have b2: "hcell h2 ?b = Some (Lines (?xs @ [empty_line]))"
    using h1(4) h2(7) by (simp add: map_upds_apply_nontin)
  let ?h3 = "h2\<lparr>hcell := (hcell h2)(?b \<mapsto> Lines (?xs @ [mk_line as]))\<rparr>"
  have st: "store_line ?b (length sn) (mk_line as) h2 = Inr ?h3"
    using b2 by (simp add: store_line_def list_update_append)
  have ld: "load_line (Some ?b) (length sn) ?h3 = Inr (mk_line as)"
    by (simp add: load_line_def nth_append)
  have "map (hcell h2) as = map (Some \<circ> Str) ?ws"
    using map_upds_values [of as "map Str ?ws" "hcell h1"] h2(4,5,7) by simp
  moreover have "map (hcell ?h3) as = map (hcell h2) as" using b by auto
  ultimately have texts: "map (hcell ?h3) as = map (Some \<circ> Str) ?ws" by simp
  let ?s3 = "(logged (replicate (extra_words l) parse_fail) s)\<lparr>mem := ?h3\<rparr>"
  have pr: "print_parsed_maps_line (mk_line as) ?s3 = Inr (logged [show_line ?ws] ?s3)"
    by (rule print_line_ok) (use texts fit clock in simp_all)
  have "parse_lines (l # rest) sz (length sn) p s =
      parse_lines rest (sz + 48) (Suc (length sn)) (Some ?b) ((logged (line_log l) s)\<lparr>mem := ?h3\<rparr>)"
    using h1(1) h2(1) st ld pr
    by (simp add: sizeof_MapsLine_def check_parse_maps_line_err_def line_log_def)
  moreover have "holds_snapshot base (Some ?b) (sn @ [(as, ?ws)]) ?h3"
    unfolding holds_snapshot_def
  proof (intro conjI)
    show "heap_ok ?h3" using h2(2,3) by (auto simp: heap_ok_def split: if_splits)
    have "a \<notin> set (snap_addrs sn)" if "a \<in> set as" for a
      using that h2(6) holds_fresh(2) [OF o, of a] by auto
    then show "snap_fits (sn @ [(as, ?ws)])"
      using fits h2(4,5) line_words_length [of l] by (auto simp: snap_fits_def snap_addrs_snoc)
    have "base a = None" if "a \<in> set as" for a
      using that h2(6) holds_fresh(1) [OF o, of a] by auto
    then show "\<forall>a \<in> set (snap_addrs (sn @ [(as, ?ws)])). base a = None"
      using base by (auto simp: snap_addrs_snoc)
    show "\<forall>b. Some ?b = Some b \<longrightarrow> base b = None \<and> b \<notin> set (snap_addrs (sn @ [(as, ?ws)]))"
      using holds_fresh [OF o, of ?b] b by (simp add: snap_addrs_snoc)
    show "hcell ?h3 = put_block (snap_cells (sn @ [(as, ?ws)]) base) (Some ?b) (snap_array (sn @ [(as, ?ws)]))"
    proof
      fix a
      show "hcell ?h3 a = put_block (snap_cells (sn @ [(as, ?ws)]) base) (Some ?b) (snap_array (sn @ [(as, ?ws)])) a"
      proof (cases "a = ?b")
        case True
        then show ?thesis by (simp add: snap_array_def)
      next
        case False
        then show ?thesis using h2(7) h1(4) drop by (simp add: map_upds_skip snap_cells_snoc)
      qed
    qed
  qed simp
  ultimately show ?thesis by blast
qed

lemma parse_lines_ok:
  "holds_snapshot base p sn (mem s) \<Longrightarrow> sz div 48 = length sn \<Longrightarrow> length (clock s) = TIME_MARK_LEN \<Longrightarrow>
   \<forall>l \<in> set ls. words_fit (line_words l) \<Longrightarrow>
   \<exists>p' new h'. parse_lines ls sz (length sn) p s = Inr (int (length sn + length ls), p',
       (logged (concat (map line_log ls)) s)\<lparr>mem := h', maps_file := []\<rparr>) \<and>
     holds_snapshot base p' (sn @ new) h' \<and> map snd new = map line_words ls"
proof (induction ls arbitrary: sn sz p s)
  case Nil
  then show ?case by (intro exI [of _ p] exI [of _ "[]"] exI [of _ "mem s"]) simp
next
  case (Cons l ls)
  then have "words_fit (line_words l)" by simp
  from parse_line_step [OF Cons.prems(1-3) this] obtain as b h1 where
    step: "parse_lines (l # ls) sz (length sn) p s =
      parse_lines ls (sz + 48) (Suc (length sn)) (Some b) ((logged (line_log l) s)\<lparr>mem := h1\<rparr>)"
    and o: "holds_snapshot base (Some b) (sn @ [(as, line_words l)]) h1" by blast
  let ?s = "(logged (line_log l) s)\<lparr>mem := h1\<rparr>"
  have "\<exists>p' new h'. parse_lines ls (sz + 48) (length (sn @ [(as, line_words l)])) (Some b) ?s =
      Inr (int (length (sn @ [(as, line_words l)]) + length ls), p',
        (logged (concat (map line_log ls)) ?s)\<lparr>mem := h', maps_file := []\<rparr>) \<and>
      holds_snapshot base p' ((sn @ [(as, line_words l)]) @ new) h' \<and> map snd new = map line_words ls"
    using Cons.prems o by (intro Cons.IH) simp_all
  then obtain p' new h' where ih: "parse_lines ls (sz + 48) (Suc (length sn)) (Some b) ?s =
      Inr (int (length sn + length (l # ls)), p',
        (logged (concat (map line_log ls)) ?s)\<lparr>mem := h', maps_file := []\<rparr>)"
      "holds_snapshot base p' (sn @ ((as, line_words l) # new)) h'" "map snd new = map line_words ls"
    by auto
  then show ?case using step
    by (intro exI [of _ p'] exI [of _ "(as, line_words l) # new"] exI [of _ h']) simp
qed

end
