(* ===== verification/ServiceRounds.thy ===== *)
theory ServiceRounds
  imports ServiceHeap
begin

text \<open>
  The rounds of the memory map monitor: \<open>PML_diff\<close>, \<open>free_PML\<close> and \<open>PML_swap\<close> on snapshots, one
  turn of the loop of \<open>start_service\<close>, and any number of them, with the exact log of each.
\<close>

section \<open>Comparing two snapshots\<close>

text \<open>Two lines differ if they differ in a field both have; this is what is logged then.\<close>

definition line_differs :: "string list \<Rightarrow> string list \<Rightarrow> bool" where
  "line_differs ws vs \<longleftrightarrow> (\<exists>(w, v) \<in> set (zip ws vs). w \<noteq> v)"

definition diff_log :: "string list \<times> string list \<Rightarrow> string list" where
  "diff_log = (\<lambda>(ws, vs). if line_differs ws vs
     then [''<<<<<<<'', show_line ws, ''======='', show_line vs, ''>>>>>>>''] else [])"

lemma any_differs_None:
  "any_differs (zip (replicate n None) qs) h = Inr False" "any_differs (zip ps (replicate n None)) h = Inr False"
proof -
  show "any_differs (zip (replicate n None) qs) h = Inr False"
  proof (induction n arbitrary: qs)
    case (Suc n)
    then show ?case by (cases qs) (auto simp: field_differs_def)
  qed simp
  show "any_differs (zip ps (replicate n None)) h = Inr False"
  proof (induction n arbitrary: ps)
    case (Suc n)
    then show ?case by (cases ps) (auto simp: field_differs_def split: option.splits)
  qed simp
qed

lemma any_differs_ok:
  "map (hcell h) as = map (Some \<circ> Str) ws \<Longrightarrow> map (hcell h) bs = map (Some \<circ> Str) vs \<Longrightarrow>
   any_differs (zip (map Some as @ replicate n None) (map Some bs @ replicate m None)) h = Inr (line_differs ws vs)"
proof (induction as arbitrary: ws bs vs)
  case Nil
  then show ?case by (simp add: any_differs_None line_differs_def)
next
  case (Cons a as)
  then obtain w ws' where ws: "ws = w # ws'" "hcell h a = Some (Str w)" by (cases ws) auto
  show ?case
  proof (cases bs)
    case Nil
    then show ?thesis using Cons.prems(2) any_differs_None(2) by (simp add: line_differs_def)
  next
    case (Cons b bs')
    then obtain v vs' where vs: "vs = v # vs'" "hcell h b = Some (Str v)"
      using Cons.prems(2) by (cases vs) auto
    with ws Cons Cons.prems Cons.IH [of ws' bs' vs'] show ?thesis
      by (simp add: field_differs_def line_differs_def)
  qed
qed

lemma print_diff_ok:
  assumes "map (hcell (mem s)) as = map (Some \<circ> Str) ws" and "map (hcell (mem s)) bs = map (Some \<circ> Str) vs"
    and "words_fit ws" and "words_fit vs" and clock: "length (clock s) = TIME_MARK_LEN"
  shows "print_diff_PML (mk_line as) (mk_line bs) s =
    Inr (logged [''<<<<<<<'', show_line ws, ''======='', show_line vs, ''>>>>>>>''] s)"
proof -
  have c: "create_log m (logged ms s) = Inr (logged (ms @ [m]) s)" if "length m < 230" for m ms
    using that clock create_log_ok [of "logged ms s" m] by simp
  have p: "print_parsed_maps_line (mk_line cs) (logged ms s) = Inr (logged (ms @ [show_line us]) s)"
    if "map (hcell (mem s)) cs = map (Some \<circ> Str) us" "words_fit us" for cs us ms
    using that clock print_line_ok [of "logged ms s" cs us] by simp
  show ?thesis
    using c [of "''<<<<<<<''" "[]"] c p [OF assms(1,3)] p [OF assms(2,4)] by (simp add: print_diff_PML_def)
qed

lemma diff_lines_ok:
  assumes "snap_at (mem s) pc cur" and "snap_at (mem s) pn new"
    and "\<forall>(as, ws) \<in> set cur. words_fit ws" and "\<forall>(as, ws) \<in> set new. words_fit ws"
    and clock: "length (clock s) = TIME_MARK_LEN"
    and "\<forall>i \<in> set js. i < length cur \<and> i < length new"
  shows "diff_lines js pc pn (logged ms s) =
    Inr (logged (ms @ concat (map (\<lambda>i. diff_log (snd (cur ! i), snd (new ! i))) js)) s)"
  using assms(6)
proof (induction js arbitrary: ms)
  case Nil
  then show ?case by simp
next
  case (Cons i js)
  then have i: "i < length cur" "i < length new" by auto
  obtain as ws where c: "cur ! i = (as, ws)" by (cases "cur ! i")
  obtain bs vs where n: "new ! i = (bs, vs)" by (cases "new ! i")
  note lc = snap_at_line [OF assms(1) i(1) c] and ln = snap_at_line [OF assms(2) i(2) n]
  have fit: "words_fit ws" "words_fit vs" using assms(3,4) i c n by (metis case_prodD nth_mem)+
  have ad: "any_differs (zip (line_fields (mk_line as)) (line_fields (mk_line bs))) (mem s) = Inr (line_differs ws vs)"
    using lc ln by (simp add: fields_mk_line any_differs_ok)
  have ih: "diff_lines js pc pn (logged ms' s) =
      Inr (logged (ms' @ concat (map (\<lambda>i. diff_log (snd (cur ! i), snd (new ! i))) js)) s)" for ms'
    using Cons by simp
  show ?case
  proof (cases "line_differs ws vs")
    case True
    have "print_diff_PML (mk_line as) (mk_line bs) (logged ms s) = Inr (logged (ms @ diff_log (ws, vs)) s)"
      using print_diff_ok [of "logged ms s" as ws bs vs] lc(2) ln(2) fit clock True by (simp add: diff_log_def)
    then show ?thesis using True lc(1) ln(1) ad ih c n by simp
  next
    case False
    then show ?thesis using lc(1) ln(1) ad ih c n by (simp add: diff_log_def)
  qed
qed

lemma map_index_zip:
  "map (\<lambda>i. f (snd (xs ! i), snd (ys ! i))) [0..<min (length ys) (length xs)] = map f (zip (map snd xs) (map snd ys))"
  by (rule nth_equalityI) auto

definition diff_started :: string where
  "diff_started = ''Diff is started..''"

definition diff_done :: string where
  "diff_done = ''Diff was completed SUCCESSFULLY'' @ [CHR 0x0A]"

lemma PML_diff_ok:
  assumes "snap_at (mem s) pc cur" and "snap_at (mem s) pn new"
    and "\<forall>(as, ws) \<in> set cur. words_fit ws" and "\<forall>(as, ws) \<in> set new. words_fit ws"
    and "length (clock s) = TIME_MARK_LEN"
  shows "PML_diff pc (length cur) pn (length new) s =
    Inr (logged ([diff_started] @ concat (map diff_log (zip (map snd cur) (map snd new))) @ [diff_done]) s)"
proof -
  have start: "create_log ''Diff is started..'' s = Inr (logged [diff_started] s)"
    using create_log_ok [OF assms(5), of diff_started] by (simp add: diff_started_def)
  have "diff_lines [0..<min (length new) (length cur)] pc pn (logged [diff_started] s) =
      Inr (logged ([diff_started] @ concat (map (\<lambda>i. diff_log (snd (cur ! i), snd (new ! i)))
        [0..<min (length new) (length cur)])) s)"
    by (rule diff_lines_ok [OF assms]) simp
  moreover have "create_log diff_done (logged ms s) = Inr (logged (ms @ [diff_done]) s)" for ms
    using create_log_ok [of "logged ms s" diff_done] assms(5) by (simp add: diff_done_def)
  ultimately show ?thesis using start
    by (simp add: PML_diff_def map_index_zip [of diff_log cur new] diff_done_def)
qed

section \<open>Freeing and swapping\<close>

lemma free_fields_each:
  "free_fields (map Some as @ replicate n None) h = free_each hfree as h"
proof (induction as arbitrary: h)
  case Nil
  show ?case by (induction n) simp_all
next
  case (Cons a as)
  then show ?case by (simp split: sum.splits)
qed


lemma free_lines_snoc:
  "free_lines (js @ [i]) p h =
   (case free_lines js p h of Inl e \<Rightarrow> Inl e | Inr h \<Rightarrow>
   (case load_line p i h of Inl e \<Rightarrow> Inl e | Inr PML \<Rightarrow> free_fields (line_fields PML) h))"
  by (induction js arbitrary: h) (auto split: sum.splits)

lemma snap_addrs_nth:
  assumes "snap_fits sn" and "i < length sn" and "sn ! i = (as, ws)"
  shows "distinct as" and "set (snap_addrs (take i sn)) \<inter> set as = {}"
    and "snap_addrs (take (Suc i) sn) = snap_addrs (take i sn) @ as"
proof -
  have sn: "sn = take i sn @ (as, ws) # drop (Suc i) sn"
    using assms(2,3) by (metis id_take_nth_drop)
  have "snap_addrs sn = snap_addrs (take i sn) @ as @ snap_addrs (drop (Suc i) sn)"
    by (subst sn) (simp add: snap_addrs_def)
  then show "distinct as" "set (snap_addrs (take i sn)) \<inter> set as = {}"
    using assms(1) by (auto simp: snap_fits_def)
  show "snap_addrs (take (Suc i) sn) = snap_addrs (take i sn) @ as"
    using assms(2,3) by (simp add: take_Suc_conv_app_nth snap_addrs_def)
qed

lemma free_lines_ok:
  assumes "heap_ok h" and "snap_at h p sn" and "snap_fits sn"
    and p: "\<forall>b. p = Some b \<longrightarrow> b \<notin> set (snap_addrs sn)" and "k \<le> length sn"
  shows "\<exists>h'. free_lines [0..<k] p h = Inr h' \<and> heap_ok h' \<and>
    hcell h' = (\<lambda>a. if a \<in> set (snap_addrs (take k sn)) then None else hcell h a)"
  using assms(5)
proof (induction k)
  case 0
  then show ?case using assms(1) by (simp add: snap_addrs_def)
next
  case (Suc k)
  then obtain h1 where h1: "free_lines [0..<k] p h = Inr h1" "heap_ok h1"
      "hcell h1 = (\<lambda>a. if a \<in> set (snap_addrs (take k sn)) then None else hcell h a)"
    using Suc_leD by blast
  have k: "k < length sn" using Suc.prems by simp
  obtain as ws where x: "sn ! k = (as, ws)" by (cases "sn ! k")
  note at = snap_at_line [OF assms(2) k x] and ad = snap_addrs_nth [OF assms(3) k x]
  have sub: "set (snap_addrs (take k sn)) \<subseteq> set (snap_addrs sn)"
    by (auto simp: snap_addrs_def dest: in_set_takeD)
  have "load_line p k h1 = load_line p k h"
    using at(1) p sub h1(3) by (cases p) (auto simp: load_line_def hread_def)
  then have ld: "load_line p k h1 = Inr (mk_line as)" using at(1) by simp
  have len: "length as \<le> 6" using at(3,4) by simp
  have "hcell h1 a \<noteq> None" if "a \<in> set as" for a
  proof -
    have "hcell h a \<in> set (map (hcell h) as)" using that by simp
    then have "hcell h a \<noteq> None" unfolding at(2) by auto
    moreover have "a \<notin> set (snap_addrs (take k sn))" using that ad(2) by blast
    ultimately show ?thesis using h1(3) by simp
  qed
  then obtain h2 where h2: "free_each hfree as h1 = Inr h2" "heap_ok h2"
      "hcell h2 = (\<lambda>a. if a \<in> set as then None else hcell h1 a)"
    using cheap.free_each_ok [OF h1(2) ad(1)] by blast
  have "free_lines [0..<Suc k] p h = Inr h2"
    using h1(1) ld h2(1) len by (simp add: free_lines_snoc fields_mk_line free_fields_each)
  moreover have "hcell h2 = (\<lambda>a. if a \<in> set (snap_addrs (take (Suc k) sn)) then None else hcell h a)"
    using h1(3) h2(3) ad(3) by (auto simp: fun_eq_iff)
  ultimately show ?case using h2(2) by blast
qed

definition free_log :: "string list" where
  "free_log = [''free(PML) is working..'', ''SUCCEED'']"

lemma free_PML_ok:
  assumes "heap_ok (mem s)" and "snap_at (mem s) p sn" and "snap_fits sn"
    and p: "\<forall>b. p = Some b \<longrightarrow> b \<notin> set (snap_addrs sn) \<and> hcell (mem s) b \<noteq> None"
    and clock: "length (clock s) = TIME_MARK_LEN"
  shows "\<exists>h'. free_PML p (length sn) s = Inr (0, (logged free_log s)\<lparr>mem := h'\<rparr>) \<and> heap_ok h' \<and>
    hcell h' = (\<lambda>a. if a \<in> set (snap_addrs sn) \<or> p = Some a then None else hcell (mem s) a)"
proof -
  obtain h1 where h1: "free_lines [0..<length sn] p (mem s) = Inr h1" "heap_ok h1"
      "hcell h1 = (\<lambda>a. if a \<in> set (snap_addrs sn) then None else hcell (mem s) a)"
    using free_lines_ok [OF assms(1-3) _ order_refl] p by auto
  obtain h2 where h2: "hfree p h1 = Inr h2" "heap_ok h2"
      "hcell h2 = (\<lambda>a. if a \<in> set (snap_addrs sn) \<or> p = Some a then None else hcell (mem s) a)"
  proof (cases p)
    case None
    then show thesis using that [of h1] h1 by simp
  next
    case (Some b)
    then have "hcell h1 b \<noteq> None" using p h1(3) by auto
    then obtain v where v: "hcell h1 b = Some v" by auto
    show thesis
      by (rule that [of "h1\<lparr>hcell := (hcell h1)(b := None)\<rparr>"])
         (use Some v h1 in \<open>auto simp: heap_ok_def split: if_splits\<close>)
  qed
  have c: "create_log m s' = Inr (logged [m] s')" if "length m < 230" "clock s' = clock s" for m s'
    using that clock create_log_ok [of s' m] by simp
  show ?thesis using h1(1) h2 c by (intro exI [of _ h2]) (simp add: free_PML_def free_log_def)
qed

definition swap_log :: "string list" where
  "swap_log = ''Swapping is started..'' # free_log @ [''Swap: SUCCEED'' @ [CHR 0x0A]]"

lemma PML_swap_ok:
  assumes "heap_ok (mem s)" and "snap_at (mem s) p sn" and "snap_fits sn"
    and "\<forall>b. p = Some b \<longrightarrow> b \<notin> set (snap_addrs sn) \<and> hcell (mem s) b \<noteq> None"
    and clock: "length (clock s) = TIME_MARK_LEN"
  shows "\<exists>h'. PML_swap p (length sn) q n s =
      Inr ((q, n, None, 0), (logged swap_log s)\<lparr>mem := h'\<rparr>) \<and> heap_ok h' \<and>
    hcell h' = (\<lambda>a. if a \<in> set (snap_addrs sn) \<or> p = Some a then None else hcell (mem s) a)"
proof -
  let ?s = "logged [''Swapping is started..''] s"
  have "\<exists>h'. free_PML p (length sn) ?s = Inr (0, (logged free_log ?s)\<lparr>mem := h'\<rparr>) \<and> heap_ok h' \<and>
      hcell h' = (\<lambda>a. if a \<in> set (snap_addrs sn) \<or> p = Some a then None else hcell (mem ?s) a)"
    by (rule free_PML_ok) (use assms in simp_all)
  then obtain h' where h': "free_PML p (length sn) ?s = Inr (0, (logged free_log ?s)\<lparr>mem := h'\<rparr>)" "heap_ok h'"
      "hcell h' = (\<lambda>a. if a \<in> set (snap_addrs sn) \<or> p = Some a then None else hcell (mem s) a)"
    unfolding logged_simps(1) by blast
  have c: "create_log m s' = Inr (logged [m] s')" if "length m < 230" "clock s' = clock s" for m s'
    using that clock create_log_ok [of s' m] by simp
  show ?thesis using h' c by (intro exI [of _ h']) (simp add: PML_swap_def swap_log_def Let_def)
qed


section \<open>One round, and all rounds\<close>

text \<open>
  Between two rounds: beside \<open>base\<close> the heap holds the snapshot \<open>words\<close> of the last parse and
  nothing else.
\<close>

definition service_state :: "(addr \<rightharpoonup> mcell) \<Rightarrow> service \<Rightarrow> rounds \<Rightarrow> string list list \<Rightarrow> bool" where
  "service_state base s r words \<longleftrightarrow>
     (\<exists>Cur sn. r = (Cur, length sn, None) \<and> holds_snapshot base Cur sn (mem s) \<and> map snd sn = words) \<and>
     (\<forall>ws \<in> set words. words_fit ws) \<and> length (clock s) = TIME_MARK_LEN"

definition open_log :: "int \<Rightarrow> string list" where
  "open_log pid = [''Opening '' @ [CHR 0x22] @ (''/proc/'' @ dec_int pid @ ''/maps'') @ [CHR 0x22] @ ''..'', ''SUCCEED'']"

definition completed :: "nat \<Rightarrow> string" where
  "completed n = ''Parsing maps file is completed. There are '' @ dec_int (int n) @ '' lines'' @ [CHR 0x0A]"

definition parse_log :: "string list \<Rightarrow> string list" where
  "parse_log lines = ''Parsing maps file started'' # concat (map line_log lines)"

definition turn_log :: "int \<Rightarrow> string list list \<Rightarrow> string list \<Rightarrow> string list" where
  "turn_log pid old lines =
     open_log pid @ parse_log lines @ [completed (length lines)] @
     [diff_started] @ concat (map diff_log (zip old (map line_words lines))) @ [diff_done] @ swap_log"

lemma create_log_logged:
  "length (clock s) = TIME_MARK_LEN \<Longrightarrow> length m < 230 \<Longrightarrow>
   create_log m ((logged ms s)\<lparr>mem := h\<rparr>) = Inr ((logged (ms @ [m]) s)\<lparr>mem := h\<rparr>)"
  by (simp add: create_log_ok)

lemma open_maps_file_ok:
  assumes "maps s = Some lines # rest" and "length (clock s) = TIME_MARK_LEN" and "length (dec_int pid) \<le> 100"
  shows "open_maps_file pid err s = Inr (0, (logged (open_log pid) s)\<lparr>maps := rest, maps_file := lines\<rparr>)"
  using assms create_log_ok [of s "hd (open_log pid)"]
    create_log_ok [of "(logged [hd (open_log pid)] s)\<lparr>maps := rest, maps_file := lines\<rparr>" "''SUCCEED''"]
  by (simp add: open_maps_file_def open_log_def)

lemma parse_maps_ok:
  assumes "heap_ok (mem s)" and "length (clock s) = TIME_MARK_LEN"
    and "\<forall>l \<in> set (maps_file s). words_fit (line_words l)"
  shows "\<exists>p new h'. parse_maps None s = Inr (int (length new), p,
      (logged (parse_log (maps_file s)) s)\<lparr>mem := h', maps_file := []\<rparr>) \<and>
    holds_snapshot (hcell (mem s)) p new h' \<and> map snd new = map line_words (maps_file s)"
proof -
  let ?s = "logged [''Parsing maps file started''] s"
  have "holds_snapshot (hcell (mem s)) None [] (mem ?s)"
    using assms(1) by (simp add: holds_snapshot_def snap_fits_def snap_addrs_def snap_cells_def)
  from parse_lines_ok [OF this, of 0 "maps_file s"] assms(2,3)
  obtain p new h' where *: "parse_lines (maps_file s) 0 0 None ?s = Inr (int (length (maps_file s)), p,
      (logged (concat (map line_log (maps_file s))) ?s)\<lparr>mem := h', maps_file := []\<rparr>)"
      "holds_snapshot (hcell (mem s)) p new h'" "map snd new = map line_words (maps_file s)"
    by auto
  from *(3) have "length new = length (maps_file s)" by (metis length_map)
  then show ?thesis using * create_log_ok [OF assms(2), of "''Parsing maps file started''"]
    by (intro exI [of _ p] exI [of _ new] exI [of _ h']) (simp add: parse_maps_def parse_log_def)
qed

lemma check_parse_maps_err_ok:
  assumes "length (clock s) = TIME_MARK_LEN" and "length (dec_int (int n)) \<le> 100"
  shows "check_parse_maps_err (int n) s = Inr (0, logged [completed n] s)"
  using assms create_log_ok [of s "completed n"] by (simp add: check_parse_maps_err_def completed_def)

text \<open>Freeing the old snapshot leaves the new one, over the same base.\<close>

lemma holds_after_free:
  assumes old: "holds_snapshot base pc cur h0" and new: "holds_snapshot (hcell h0) pn nw h1"
    and "heap_ok h2" and h2: "hcell h2 = (\<lambda>a. if a \<in> set (snap_addrs cur) \<or> pc = Some a then None else hcell h1 a)"
  shows "holds_snapshot base pn nw h2"
proof -
  have c0: "hcell h0 = put_block (snap_cells cur base) pc (snap_array cur)" and fits: "snap_fits cur"
    and base: "\<forall>a \<in> set (snap_addrs cur). base a = None" "\<forall>b. pc = Some b \<longrightarrow> base b = None"
    using old by (simp_all add: holds_snapshot_def)
  have c1: "hcell h1 = put_block (snap_cells nw (hcell h0)) pn (snap_array nw)" and nfits: "snap_fits nw"
    and nbase: "\<forall>a \<in> set (snap_addrs nw). hcell h0 a = None" "\<forall>b. pn = Some b \<longrightarrow> hcell h0 b = None \<and> b \<notin> set (snap_addrs nw)"
    "pn = None \<longrightarrow> nw = []"
    using new by (simp_all add: holds_snapshot_def)
  have live: "hcell h0 a \<noteq> None" if "a \<in> set (snap_addrs cur) \<or> pc = Some a" for a
    using that c0 snap_cells_some [OF fits, of a base] by (cases pc) auto
  have out: "hcell h0 a = base a" if "\<not> (a \<in> set (snap_addrs cur) \<or> pc = Some a)" for a
    using that c0 by (cases pc) (auto simp: snap_cells_other)
  have gone: "base a = None" if "hcell h0 a = None" for a
  proof -
    have "\<not> (a \<in> set (snap_addrs cur) \<or> pc = Some a)" using that live [of a] by blast
    from out [OF this] that show ?thesis by simp
  qed
  have "hcell h2 = put_block (snap_cells nw base) pn (snap_array nw)"
  proof
    fix a
    consider "a \<in> set (snap_addrs cur) \<or> pc = Some a" | "\<not> (a \<in> set (snap_addrs cur) \<or> pc = Some a)" "a \<in> set (snap_addrs nw)"
      | "\<not> (a \<in> set (snap_addrs cur) \<or> pc = Some a)" "a \<notin> set (snap_addrs nw)" by blast
    then show "hcell h2 a = put_block (snap_cells nw base) pn (snap_array nw) a"
    proof cases
      case 1
      then have "a \<notin> set (snap_addrs nw)" "pn \<noteq> Some a" using live [of a] nbase by auto
      then show ?thesis using 1 h2 base by (cases pn) (auto simp: snap_cells_other)
    next
      case 2
      then show ?thesis using h2 c1 nbase(2) snap_cells_indep [OF nfits 2(2), of "hcell h0" base]
        by (cases pn) auto
    next
      case 3
      then show ?thesis using h2 c1 out [of a] by (cases pn) (auto simp: snap_cells_other)
    qed
  qed
  then show ?thesis using assms(3) nfits nbase gone by (auto simp: holds_snapshot_def)
qed

lemma snap_at_frame:
  assumes "snap_at h p sn" and "\<And>a. hcell h a \<noteq> None \<Longrightarrow> hcell h' a = hcell h a"
  shows "snap_at h' p sn"
proof -
  have "map (hcell h') as = map (hcell h) as" if "map (hcell h) as = map (Some \<circ> Str) ws" for as ws
  proof -
    have "hcell h a \<noteq> None" if "a \<in> set as" for a
    proof -
      have "hcell h a \<in> set (map (hcell h) as)" using that by simp
      then show ?thesis unfolding \<open>map (hcell h) as = _\<close> by auto
    qed
    then show ?thesis using assms(2) by simp
  qed
  then show ?thesis using assms unfolding snap_at_def by (fastforce split: if_splits)
qed


lemma service_turn_ok:
  assumes st: "service_state base s r old" and maps: "maps s = Some lines # rest"
    and fit: "\<forall>l \<in> set lines. words_fit (line_words l)"
    and nums: "length (dec_int pid) \<le> 100" "length (dec_int (int (length lines))) \<le> 100"
  shows "\<exists>r' h'. service_turn pid err r s =
      Inr (Inr r', (logged (turn_log pid old lines) s)\<lparr>mem := h', maps := rest, maps_file := []\<rparr>) \<and>
    service_state base ((logged (turn_log pid old lines) s)\<lparr>mem := h', maps := rest, maps_file := []\<rparr>)
      r' (map line_words lines)"
proof -
  obtain pc cur where r: "r = (pc, length cur, None)" and o: "holds_snapshot base pc cur (mem s)"
      and old: "map snd cur = old" "\<forall>ws \<in> set old. words_fit ws" and clock: "length (clock s) = TIME_MARK_LEN"
    using st by (auto simp: service_state_def)
  let ?s1 = "(logged (open_log pid) s)\<lparr>maps := rest, maps_file := lines\<rparr>"
  note op = open_maps_file_ok [OF maps clock nums(1), of err]
  obtain pn nw h2 where p: "parse_maps None ?s1 = Inr (int (length nw), pn,
        (logged (parse_log lines) ?s1)\<lparr>mem := h2, maps_file := []\<rparr>)"
      "holds_snapshot (hcell (mem s)) pn nw h2" "map snd nw = map line_words lines"
    using parse_maps_ok [of ?s1] o clock fit by (auto simp: holds_snapshot_def)
  let ?s2 = "(logged (parse_log lines) ?s1)\<lparr>mem := h2, maps_file := []\<rparr>"
  have n: "length nw = length lines" using p(3) by (metis length_map)
  let ?s3 = "logged [completed (length lines)] ?s2"
  have ch: "check_parse_maps_err (int (length nw)) ?s2 = Inr (0, ?s3)"
    using check_parse_maps_err_ok [of ?s2 "length lines"] clock nums(2) n by simp
  have live: "hcell h2 a = hcell (mem s) a" if "hcell (mem s) a \<noteq> None" for a
  proof -
    have "a \<notin> set (snap_addrs nw)" and "pn \<noteq> Some a" using that p(2) by (auto simp: holds_snapshot_def)
    then show ?thesis using p(2) by (cases pn) (auto simp: holds_snapshot_def snap_cells_other)
  qed
  have sc: "snap_at (mem ?s3) pc cur"
    using snap_at_frame [OF holds_snap_at [OF o], of h2] live by simp
  have sn: "snap_at (mem ?s3) pn nw" using holds_snap_at [OF p(2)] by simp
  have fc: "\<forall>(as, ws) \<in> set cur. words_fit ws" using old by force
  have fn: "\<forall>(as, ws) \<in> set nw. words_fit ws"
  proof -
    have "\<forall>ws \<in> set (map snd nw). words_fit ws" unfolding p(3) using fit by auto
    then show ?thesis by force
  qed
  let ?d = "[diff_started] @ concat (map diff_log (zip old (map line_words lines))) @ [diff_done]"
  let ?s4 = "logged ?d ?s3"
  have df: "PML_diff pc (length cur) pn (length nw) ?s3 = Inr ?s4"
    using PML_diff_ok [OF sc sn fc fn] clock old(1) p(3) by simp
  have "\<forall>b. pc = Some b \<longrightarrow> b \<notin> set (snap_addrs cur) \<and> hcell (mem ?s4) b \<noteq> None"
    using o live by (auto simp: holds_snapshot_def)
  moreover have "heap_ok (mem ?s4)" using p(2) by (simp add: holds_snapshot_def)
  moreover have "snap_at (mem ?s4) pc cur" using sc by simp
  ultimately obtain h5 where sw: "PML_swap pc (length cur) pn (length nw) ?s4 =
        Inr ((pn, length nw, None, 0), (logged swap_log ?s4)\<lparr>mem := h5\<rparr>)" "heap_ok h5"
      "hcell h5 = (\<lambda>a. if a \<in> set (snap_addrs cur) \<or> pc = Some a then None else hcell (mem ?s4) a)"
    using PML_swap_ok [of ?s4 pc cur pn "length nw"] o clock by (auto simp: holds_snapshot_def)
  have "mem ?s4 = h2" by simp
  with sw(3) have "hcell h5 = (\<lambda>a. if a \<in> set (snap_addrs cur) \<or> pc = Some a then None else hcell h2 a)"
    by (simp only:)
  then have own: "holds_snapshot base pn nw h5" by (rule holds_after_free [OF o p(2) sw(2)])
  let ?s5 = "(logged (turn_log pid old lines) s)\<lparr>mem := h5, maps := rest, maps_file := []\<rparr>"
  have s5: "(logged swap_log ?s4)\<lparr>mem := h5\<rparr> = ?s5"
    by (simp add: turn_log_def)
  have "service_turn pid err r s = Inr (Inr (pn, length nw, None), ?s5)"
    using op p(1) ch df sw(1) s5 unfolding service_turn_def r by simp
  moreover have "service_state base ?s5 (pn, length nw, None) (map line_words lines)"
    using own p(3) fit clock by (auto simp: service_state_def)
  ultimately show ?thesis by blast
qed


fun rounds_log :: "int \<Rightarrow> string list list \<Rightarrow> string list list \<Rightarrow> string list" where
  "rounds_log pid old [] = []"
| "rounds_log pid old (lines # obs) =
     turn_log pid old lines @ rounds_log pid (map line_words lines) obs"

text \<open>What the service is assumed to see: lines that fit its buffers, and not 10 ^ 99 of them.\<close>

definition observation_fits :: "string list \<Rightarrow> bool" where
  "observation_fits lines \<longleftrightarrow> (\<forall>l \<in> set lines. words_fit (line_words l)) \<and> length lines < 10 ^ 99"

lemma dec_int_count: "n < 10 ^ 99 \<Longrightarrow> length (dec_int (int n)) \<le> 100"
  using dec_nat_length [of n 99] by (simp add: dec_int_def)

lemma service_turns_ok:
  "service_state base s r old \<Longrightarrow> maps s = map Some obs @ rest \<Longrightarrow> \<forall>lines \<in> set obs. observation_fits lines \<Longrightarrow>
   \<bar>pid\<bar> < 2 ^ 31 \<Longrightarrow>
   \<exists>r' s'. service_turns (length obs) pid err r s = Inr (Inr r', s') \<and>
     service_state base s' r' (last (old # map (map line_words) obs)) \<and>
     written s' = written (logged (rounds_log pid old obs) s)"
proof (induction obs arbitrary: s r old)
  case Nil
  then show ?case by simp
next
  case (Cons lines obs)
  have fit: "\<forall>l \<in> set lines. words_fit (line_words l)" "length (dec_int (int (length lines))) \<le> 100"
    using Cons.prems(3) by (simp_all add: observation_fits_def dec_int_count)
  have maps: "maps s = Some lines # map Some obs @ rest" using Cons.prems(2) by simp
  obtain r1 h1 where turn: "service_turn pid err r s =
      Inr (Inr r1, (logged (turn_log pid old lines) s)\<lparr>mem := h1, maps := map Some obs @ rest, maps_file := []\<rparr>)"
      "service_state base ((logged (turn_log pid old lines) s)\<lparr>mem := h1, maps := map Some obs @ rest, maps_file := []\<rparr>)
         r1 (map line_words lines)"
    using service_turn_ok [OF Cons.prems(1) maps fit(1) dec_int_pid [OF Cons.prems(4)] fit(2)] by blast
  let ?s1 = "(logged (turn_log pid old lines) s)\<lparr>mem := h1, maps := map Some obs @ rest, maps_file := []\<rparr>"
  obtain r' s' where ih: "service_turns (length obs) pid err r1 ?s1 = Inr (Inr r', s')"
      "service_state base s' r' (last (map line_words lines # map (map line_words) obs))"
      "written s' = written (logged (rounds_log pid (map line_words lines) obs) ?s1)"
    using Cons.IH [OF turn(2)] Cons.prems(3,4) by auto
  have "written (logged (rounds_log pid (map line_words lines) obs) ?s1) =
      written (logged (rounds_log pid old (lines # obs)) s)"
    by (simp add: logged_def log_text_def)
  then show ?case using turn(1) ih by (intro exI [of _ r'] exI [of _ s']) simp
qed

definition started_log :: "int \<Rightarrow> string list \<Rightarrow> string list" where
  "started_log pid lines =
     [''Starting service...'' @ [CHR 0x0A], ''Tracking pid: '' @ dec_int pid] @ open_log pid @
     [''Parsing maps file...'' @ [CHR 0x0A]] @ parse_log lines @
     [completed (length lines), ''SUCCEED: Service started!'' @ [CHR 0x0A]]"

lemma start_service_ok:
  assumes ok: "heap_ok (mem s)" and clock: "length (clock s) = TIME_MARK_LEN"
    and maps: "maps s = Some lines # map Some obs @ rest"
    and fit: "\<forall>ls \<in> set (lines # obs). observation_fits ls" and pid: "\<bar>pid\<bar> < 2 ^ 31"
  shows "\<exists>r s'. start_service (length obs) pid err s = Inr (Inr r, s') \<and>
    service_state (hcell (mem s)) s' r (map line_words (last (lines # obs))) \<and>
    written s' = written (logged (started_log pid lines @ rounds_log pid (map line_words lines) obs) s)"
proof -
  let ?l1 = "[''Starting service...'' @ [CHR 0x0A], ''Tracking pid: '' @ dec_int pid]"
  let ?s1 = "logged ?l1 s"
  have p: "length (dec_int pid) \<le> 100" by (rule dec_int_pid [OF pid])
  have c1: "create_log (''Starting service...'' @ [CHR 0x0A]) s = Inr (logged [''Starting service...'' @ [CHR 0x0A]] s)"
    by (rule create_log_ok [OF clock]) simp
  have c2: "create_log (''Tracking pid: '' @ dec_int pid) (logged [''Starting service...'' @ [CHR 0x0A]] s) = Inr ?s1"
    using create_log_ok [of "logged [''Starting service...'' @ [CHR 0x0A]] s" "''Tracking pid: '' @ dec_int pid"] clock p
    by simp
  have op: "open_maps_file pid err ?s1 = Inr (0, (logged (open_log pid) ?s1)\<lparr>maps := map Some obs @ rest, maps_file := lines\<rparr>)"
    by (rule open_maps_file_ok) (use maps clock p in simp_all)
  let ?s2 = "logged [''Parsing maps file...'' @ [CHR 0x0A]]
     ((logged (open_log pid) ?s1)\<lparr>maps := map Some obs @ rest, maps_file := lines\<rparr>)"
  have c3: "create_log (''Parsing maps file...'' @ [CHR 0x0A])
      ((logged (open_log pid) ?s1)\<lparr>maps := map Some obs @ rest, maps_file := lines\<rparr>) = Inr ?s2"
    by (rule create_log_ok) (use clock in simp_all)
  have fl: "\<forall>l \<in> set (maps_file ?s2). words_fit (line_words l)" using fit by (simp add: observation_fits_def)
  have "\<exists>q new h'. parse_maps None ?s2 = Inr (int (length new), q,
      (logged (parse_log (maps_file ?s2)) ?s2)\<lparr>mem := h', maps_file := []\<rparr>) \<and>
    holds_snapshot (hcell (mem ?s2)) q new h' \<and> map snd new = map line_words (maps_file ?s2)"
    by (rule parse_maps_ok) (use ok clock fl in simp_all)
  then obtain q new h' where pm: "parse_maps None ?s2 = Inr (int (length new), q,
      (logged (parse_log lines) ?s2)\<lparr>mem := h', maps_file := []\<rparr>)"
      "holds_snapshot (hcell (mem s)) q new h'" "map snd new = map line_words lines"
    by auto
  let ?s3 = "(logged (parse_log lines) ?s2)\<lparr>mem := h', maps_file := []\<rparr>"
  have n: "length new = length lines" using pm(3) by (metis length_map)
  have ch: "check_parse_maps_err (int (length new)) ?s3 = Inr (0, logged [completed (length lines)] ?s3)"
    unfolding n by (rule check_parse_maps_err_ok) (use clock fit in \<open>simp_all add: observation_fits_def dec_int_count\<close>)
  let ?s4 = "logged [''SUCCEED: Service started!'' @ [CHR 0x0A]] (logged [completed (length lines)] ?s3)"
  have c4: "create_log (''SUCCEED: Service started!'' @ [CHR 0x0A]) (logged [completed (length lines)] ?s3) = Inr ?s4"
    by (rule create_log_ok) (use clock in simp_all)
  have s4: "service_state (hcell (mem s)) ?s4 (q, length new, None) (map line_words lines)"
    using pm(2,3) fl clock by (auto simp: service_state_def)
  have m4: "maps ?s4 = map Some obs @ rest" by simp
  have fo: "\<forall>ls \<in> set obs. observation_fits ls" using fit by simp
  obtain r s' where t: "service_turns (length obs) pid err (q, length new, None) ?s4 = Inr (Inr r, s')"
      "service_state (hcell (mem s)) s' r (last (map line_words lines # map (map line_words) obs))"
      "written s' = written (logged (rounds_log pid (map line_words lines) obs) ?s4)"
    using service_turns_ok [OF s4 m4 fo pid] by blast
  have "last (map line_words lines # map (map line_words) obs) = map line_words (last (lines # obs))"
    by (simp add: last_map)
  moreover have "written (logged (rounds_log pid (map line_words lines) obs) ?s4) =
      written (logged (started_log pid lines @ rounds_log pid (map line_words lines) obs) s)"
    by (simp add: logged_def log_text_def started_log_def)
  moreover have "start_service (length obs) pid err s = Inr (Inr r, s')"
    using c1 c2 op c3 pm(1) ch c4 t(1) unfolding start_service_def by simp
  ultimately show ?thesis using t(2,3) by auto
qed

end
