(* ===== verification/ServiceLog.thy ===== *)
theory ServiceLog
  imports ServiceHeap
begin

text \<open>
  Where the log of the memory map monitor goes: every operation only appends records, all of
  them to the descriptor in the \<open>log_fd\<close> of \<open>ss_log.c\<close>.
\<close>

section \<open>Where the log goes\<close>

definition all_to :: "int \<Rightarrow> (int \<times> string) list \<Rightarrow> bool" where
  "all_to fd w \<longleftrightarrow> (\<forall>x \<in> set w. fst x = fd)"

lemma all_to_simps [simp]:
  "all_to fd []" "all_to fd (x # w) \<longleftrightarrow> fst x = fd \<and> all_to fd w" "all_to fd (v @ w) \<longleftrightarrow> all_to fd v \<and> all_to fd w"
  by (auto simp: all_to_def)

definition log_extends :: "service \<Rightarrow> service \<Rightarrow> bool" where
  "log_extends s t \<longleftrightarrow> log_fd t = log_fd s \<and> config_log_fd t = config_log_fd s \<and>
     (\<exists>w. written t = written s @ w \<and> all_to (log_fd s) w)"

lemma log_extends_refl [simp]: "log_extends s s"
  by (auto simp: log_extends_def)

lemma log_extends_trans: "log_extends s t \<Longrightarrow> log_extends t u \<Longrightarrow> log_extends s u"
  by (auto simp: log_extends_def)

lemma log_extends_mem [simp]:
  "log_extends (s\<lparr>mem := h\<rparr>) t = log_extends s t" "log_extends s (t\<lparr>mem := h\<rparr>) = log_extends s t"
  "log_extends (s\<lparr>maps := m\<rparr>) t = log_extends s t" "log_extends s (t\<lparr>maps := m\<rparr>) = log_extends s t"
  "log_extends (s\<lparr>maps_file := x\<rparr>) t = log_extends s t" "log_extends s (t\<lparr>maps_file := x\<rparr>) = log_extends s t"
  by (simp_all add: log_extends_def)

lemma create_log_extends: "create_log m s = Inr t \<Longrightarrow> log_extends s t"
  by (auto simp: create_log_def log_extends_def split: sum.splits)

lemma print_line_extends: "print_parsed_maps_line P s = Inr t \<Longrightarrow> log_extends s t"
  by (auto simp: print_cat_all split: sum.splits intro: create_log_extends)

lemma print_diff_extends: "print_diff_PML P Q s = Inr t \<Longrightarrow> log_extends s t"
  by (auto simp: print_diff_PML_def split: sum.splits
      dest!: create_log_extends print_line_extends simp: log_extends_def)

lemma parse_tokens_extends: "parse_tokens ps i P s = Inr (Q, t) \<Longrightarrow> log_extends s t"
  by (induction ps i P s rule: parse_tokens.induct)
     (auto simp: Let_def halloc_def split: if_splits sum.splits dest!: create_log_extends simp: log_extends_def)

lemma parse_line_extends: "parse_maps_line l s = Inr (Q, t) \<Longrightarrow> log_extends s t"
  by (simp add: parse_maps_line_def parse_tokens_extends)

lemma parse_lines_extends: "parse_lines ls sz n p s = Inr (c, q, t) \<Longrightarrow> log_extends s t"
proof (induction ls arbitrary: sz n p s)
  case Nil
  then show ?case by auto
next
  case (Cons l ls)
  then obtain b h P s1 h1 Q s2 where p: "parse_maps_line l (s\<lparr>mem := h\<rparr>) = Inr (P, s1)"
      and q: "print_parsed_maps_line Q (s1\<lparr>mem := h1\<rparr>) = Inr s2"
      and r: "parse_lines ls (sz + sizeof_MapsLine) (Suc n) (Some b) s2 = Inr (c, q, t)"
    by (auto simp: Let_def check_parse_maps_line_err_def split: sum.splits)
  have "log_extends s s1" "log_extends s1 s2" using parse_line_extends [OF p] print_line_extends [OF q] by simp_all
  then show ?case using Cons.IH [OF r] by (blast intro: log_extends_trans)
qed

lemma parse_maps_extends: "parse_maps p s = Inr (c, q, t) \<Longrightarrow> log_extends s t"
  by (auto simp: parse_maps_def split: sum.splits
      dest!: create_log_extends parse_lines_extends simp: log_extends_def)

lemma check_err_extends: "check_parse_maps_err n s = Inr (r, t) \<Longrightarrow> log_extends s t"
  by (auto simp: check_parse_maps_err_def split: if_splits sum.splits dest!: create_log_extends)

lemma diff_lines_extends: "diff_lines js p q s = Inr t \<Longrightarrow> log_extends s t"
proof (induction js arbitrary: s)
  case Nil
  then show ?case by simp
next
  case (Cons j js)
  then show ?case
    by (auto split: sum.splits if_splits dest: print_diff_extends intro: log_extends_trans [OF print_diff_extends])
qed

lemma PML_diff_extends: "PML_diff p m q n s = Inr t \<Longrightarrow> log_extends s t"
  by (auto simp: PML_diff_def split: sum.splits
      dest!: create_log_extends diff_lines_extends simp: log_extends_def)

lemma free_PML_extends: "free_PML p n s = Inr (r, t) \<Longrightarrow> log_extends s t"
  by (auto simp: free_PML_def split: sum.splits dest!: create_log_extends simp: log_extends_def)

lemma PML_swap_extends: "PML_swap p m q n s = Inr (r, t) \<Longrightarrow> log_extends s t"
  by (auto simp: PML_swap_def Let_def split: sum.splits if_splits
      dest!: create_log_extends free_PML_extends simp: log_extends_def)

lemma open_maps_extends: "open_maps_file pid err s = Inr (r, t) \<Longrightarrow> log_extends s t"
  by (auto simp: open_maps_file_def Let_def split: sum.splits list.splits option.splits
      dest!: create_log_extends simp: log_extends_def)

lemmas log_steps = create_log_extends parse_maps_extends check_err_extends PML_diff_extends
  PML_swap_extends open_maps_extends

lemma service_turn_extends: "service_turn pid err r s = Inr (v, t) \<Longrightarrow> log_extends s t"
  by (cases r) (auto simp: service_turn_def split: sum.splits if_splits
      dest!: log_steps simp: log_extends_def)

lemma service_turns_extends: "service_turns k pid err r s = Inr (v, t) \<Longrightarrow> log_extends s t"
proof (induction k arbitrary: r s)
  case 0
  then show ?case by simp
next
  case (Suc k)
  from Suc.prems consider x where "service_turn pid err r s = Inr (Inl x, t)"
    | r1 s1 where "service_turn pid err r s = Inr (Inr r1, s1)" "service_turns k pid err r1 s1 = Inr (v, t)"
    by (auto split: sum.splits)
  then show ?case by cases (blast intro: service_turn_extends Suc.IH log_extends_trans)+
qed

lemma start_service_extends: "start_service k pid err s = Inr (v, t) \<Longrightarrow> log_extends s t"
  by (auto simp: start_service_def split: sum.splits if_splits
      dest!: log_steps service_turns_extends simp: log_extends_def)

lemma log_all_Cons:
  "log_all (m # ms) s = (case create_log m s of Inl e \<Rightarrow> Inl e | Inr s \<Rightarrow> log_all ms s)"
proof -
  have "fold (\<lambda>m r. case r of Inl e \<Rightarrow> Inl e | Inr s \<Rightarrow> create_log m s) ms (Inl e) = Inl e" for e
    by (induction ms) simp_all
  then show ?thesis by (simp add: log_all_def split: sum.splits)
qed

lemma log_all_extends: "log_all ms s = Inr t \<Longrightarrow> log_extends s t"
proof (induction ms arbitrary: s)
  case Nil
  then show ?case by (simp add: log_all_def)
next
  case (Cons m ms)
  then show ?case
    by (auto simp: log_all_Cons split: sum.splits intro: log_extends_trans [OF create_log_extends])
qed

text \<open>A computation that ends normally has only added records to those of \<open>s0\<close>.\<close>

definition logs_only :: "service \<Rightarrow> c_error + 'a \<times> service \<Rightarrow> bool" where
  "logs_only s0 x \<longleftrightarrow> (case x of Inl e \<Rightarrow> True | Inr (r, t) \<Rightarrow> log_extends s0 t)"

lemma logs_only_Inl: "logs_only s0 (Inl e)"
  by (simp add: logs_only_def)

lemma logs_only_create:
  "log_extends s0 s \<Longrightarrow> (\<And>s1. log_extends s0 s1 \<Longrightarrow> logs_only s0 (g s1)) \<Longrightarrow>
   logs_only s0 (case create_log m s of Inl e \<Rightarrow> Inl e | Inr s \<Rightarrow> g s)"
  by (cases "create_log m s") (auto simp: logs_only_Inl intro: log_extends_trans create_log_extends)

lemma logs_only_all:
  "log_extends s0 s \<Longrightarrow> (\<And>s1. log_extends s0 s1 \<Longrightarrow> logs_only s0 (g s1)) \<Longrightarrow>
   logs_only s0 (case log_all ms s of Inl e \<Rightarrow> Inl e | Inr s \<Rightarrow> g s)"
  by (cases "log_all ms s") (auto simp: logs_only_Inl intro: log_extends_trans log_all_extends)

lemma logs_only_branch:
  "logs_only s0 x \<Longrightarrow> logs_only s0 y \<Longrightarrow> logs_only s0 (if b then x else y)"
  "logs_only s0 x \<Longrightarrow> (\<And>n. logs_only s0 (f n)) \<Longrightarrow> logs_only s0 (case p of None \<Rightarrow> x | Some n \<Rightarrow> f n)"
  "log_extends s0 t \<Longrightarrow> logs_only s0 (Inr (r, t))"
  by (simp_all add: logs_only_def split: option.split)

lemma preparing_extends:
  assumes "preparing c err s = Inr (r, t)"
  shows "log_extends (s\<lparr>log_fd := log_open c\<rparr>) t"
proof -
  have "logs_only (s\<lparr>log_fd := log_open c\<rparr>) (preparing c err s)"
    unfolding preparing_def start_log_def Let_def
    by (intro logs_only_create logs_only_all logs_only_branch) simp_all
  with assms show ?thesis by (simp add: logs_only_def)
qed

lemma configure_extends:
  assumes "configure_service c err Conf s = Inr t"
  shows "log_extends (s\<lparr>config_log_fd := 1, log_fd := (if options Conf mod 2 = 0 then log_fd s else log_open c)\<rparr>) t"
proof -
  let ?s = "s\<lparr>config_log_fd := 1\<rparr>"
  from assms consider s1 where "options Conf mod 2 = 0" "create_log ''Configuration has begun.'' ?s = Inr s1"
      "create_log (''Configuration completed successfully.'' @ [CHR 0x0A]) s1 = Inr t"
    | r s1 where "options Conf mod 2 \<noteq> 0" "preparing c err ?s = Inr (r, s1)"
      "create_log (''Configuration completed successfully.'' @ [CHR 0x0A]) s1 = Inr t"
    by (auto simp: configure_service_def Let_def split: sum.splits if_splits)
  then show ?thesis
  proof cases
    case 1
    then have "log_extends ?s t" by (blast intro: create_log_extends log_extends_trans)
    moreover have "?s\<lparr>log_fd := log_fd s\<rparr> = ?s" by simp
    ultimately show ?thesis using 1(1) by simp
  next
    case 2
    then have "log_extends (?s\<lparr>log_fd := log_open c\<rparr>) t"
      by (blast intro: preparing_extends create_log_extends log_extends_trans)
    with 2(1) show ?thesis by simp
  qed
qed

lemma service_main_extends:
  assumes "service_main k c err Conf s = Inr (v, t)"
  shows "log_extends (s\<lparr>config_log_fd := 1, log_fd := (if options Conf mod 2 = 0 then log_fd s else log_open c)\<rparr>) t"
proof -
  from assms obtain s1 where c: "configure_service c err Conf s = Inr s1"
    by (auto simp: service_main_def split: sum.splits)
  have "logs_only s1 (start_service k (conf_pid Conf) err s1)"
    by (auto simp: logs_only_def split: sum.split dest: start_service_extends)
  with assms c have "log_extends s1 t"
    by (auto simp: service_main_def logs_only_def split: sum.splits if_splits)
       (blast intro: log_extends_trans create_log_extends)
  with configure_extends [OF c] show ?thesis by (rule log_extends_trans)
qed

text \<open>The flags select the mode.\<close>

lemma parse_flags_mode:
  "parse_flags fs opts = Inr opts' \<Longrightarrow>
   opts' mod 2 = (if opts mod 2 = 1 \<or> CHR ''d'' \<in> set fs then 1 else 0)"
proof (induction fs arbitrary: opts)
  case Nil
  then show ?case by (simp add: mod2_eq_if)
next
  case (Cons f fs)
  then have "f = CHR ''d''" by (auto split: if_splits)
  then have "parse_flags fs (if opts mod 2 = 1 then opts else opts + 1) = Inr opts'" using Cons.prems by simp
  from Cons.IH [OF this] \<open>f = CHR ''d''\<close> show ?case by (auto simp: mod2_eq_if split: if_splits)
qed

lemma parse_console_mode:
  "parse_console_args argc flags p = Inr Conf \<Longrightarrow>
   options Conf mod 2 = (if argc \<noteq> 1 \<and> CHR ''d'' \<in> set flags then 1 else 0)"
  using parse_flags_mode [of flags 0] by (auto simp: parse_console_args_def split: sum.splits if_splits)

lemma ss_main_extends:
  assumes "ss_main argc flags tr_pid pid k c err s = Inr (v, t)"
  shows "t = s \<or> log_extends (s\<lparr>config_log_fd := 1,
    log_fd := (if argc \<noteq> 1 \<and> CHR ''d'' \<in> set flags then log_open c else log_fd s)\<rparr>) t"
proof -
  from assms obtain Conf where conf: "parse_console_args argc flags tr_pid = Inr Conf"
    by (auto simp: ss_main_def split: sum.splits)
  with assms have "t = s \<or> service_main k c err Conf s = Inr (v, t)"
    by (auto simp: ss_main_def split: if_splits)
  then show ?thesis
    using service_main_extends [of k c err Conf s v t] parse_console_mode [OF conf] by (auto split: if_splits)
qed

end
