(* ===== verification/ServiceProps.thy ===== *)
theory ServiceProps
  imports ServiceRounds ServiceLog
begin

text \<open>
  The properties of the memory map monitor (\<open>task6/sys-service\<close>): what \<open>parse_maps\<close> builds, what is
  on the heap after any number of rounds, what the log says, how long a record may be and which
  descriptor the records go to.
\<close>

section \<open>A concrete service\<close>

definition demo_clock :: string where
  "demo_clock = ''Thu Jan  1 00:00:00 1970''"

definition demo_maps :: "string list" where
  "demo_maps = [''08048000-0804c000 r-xp 00000000 08:01 12 /bin/cat'' @ [CHR 0x0A],
                ''bf000000-bf001000 rw-p 00000000 00:00 0'' @ [CHR 0x0A]]"

definition demo_next :: "string list" where
  "demo_next = [''08048000-0804d000 r-xp 00000000 08:01 12 /bin/cat'' @ [CHR 0x0A],
                ''bf000000-bf001000 rw-p 00000000 00:00 0'' @ [CHR 0x0A],
                ''c0000000-c0001000 rw-p 00000000 00:00 0'' @ [CHR 0x0A]]"

definition demo_service :: service where
  "demo_service = \<lparr>mem = \<lparr>hnext = 0, hcell = (\<lambda>_. None)\<rparr>, written = [], log_fd = 0, config_log_fd = 0,
     clock = demo_clock, maps = map Some [demo_maps, demo_next], maps_file = []\<rparr>"

lemma demo_service_simps [simp]:
  "heap_ok (mem demo_service)" "length (clock demo_service) = TIME_MARK_LEN" "log_fd demo_service = 0"
  "maps demo_service = map Some [demo_maps, demo_next]" "hcell (mem demo_service) = (\<lambda>_. None)"
  by (simp_all add: demo_service_def heap_ok_def demo_clock_def log_consts)

lemma demo_fits [simp]: "observation_fits demo_maps" "observation_fits demo_next"
proof -
  have "list_all (\<lambda>l. words_fit (line_words l)) demo_maps" "list_all (\<lambda>l. words_fit (line_words l)) demo_next"
    by code_simp+
  then show "observation_fits demo_maps" "observation_fits demo_next"
    by (simp_all add: observation_fits_def list_all_iff, simp_all add: demo_maps_def demo_next_def)
qed

section \<open>Permission strings\<close>

text \<open>The bits are rendered as \<open>ls\<close> does, but the string never fits the nine bytes allocated for it;
  \<open>oct_to_rwx\<close> is only called in a comment.\<close>

lemma rwx_bits_755: "rwx_bits 493 = ''rwxr-xr-x''"
  by code_simp

lemma oct_to_rwx_overflows: "oct_to_rwx n = Inl OutOfBounds"
  by (simp add: oct_to_rwx_def strcat_into_def)

section \<open>The properties\<close>

text \<open>C25. The heap between rounds: after any number of rounds of the service on a process whose maps
  it can read, the only blocks it holds beside those it started with are one array and the strings
  of its lines, and these are the words of the last observation. Nothing of an earlier parse is
  left, nothing was freed twice, and the array of the next parse is \<open>NULL\<close>.\<close>

theorem service_keeps_one_snapshot:
  assumes "heap_ok (mem s)" and "length (clock s) = TIME_MARK_LEN"
    and "maps s = Some lines # map Some obs @ rest"
    and "\<forall>ls \<in> set (lines # obs). observation_fits ls" and "\<bar>pid\<bar> < 2 ^ 31"
  shows "\<exists>Cur sn s'. start_service (length obs) pid err s = Inr (Inr (Cur, length sn, None), s') \<and>
    holds_snapshot (hcell (mem s)) Cur sn (mem s') \<and>
    map snd sn = map line_words (last (lines # obs))"
  using start_service_ok [OF assms, of err] unfolding service_state_def by blast

theorem service_keeps_one_snapshot_witness:
  "\<exists>Cur sn s'. start_service 1 1234 [] demo_service = Inr (Inr (Cur, length sn, None), s') \<and>
    holds_snapshot (\<lambda>_. None) Cur sn (mem s') \<and> map snd sn = map line_words demo_next"
  using service_keeps_one_snapshot [of demo_service demo_maps "[demo_next]" "[]" 1234 "[]"] by simp



lemma diff_log_same: "diff_log (ws, ws) = []"
  by (auto simp: diff_log_def line_differs_def in_set_zip)

lemma diff_log_prefix: "concat (map diff_log (zip old (old @ added))) = []"
  by (induction old) (simp_all add: diff_log_same)

text \<open>New mappings go unreported: when the next observation is the old one with lines added at its
  end, \<open>PML_diff\<close> logs its two frame records and nothing between them, whatever was added.\<close>

theorem service_ignores_added_mappings:
  assumes "snap_at (mem s) pc cur" and "snap_at (mem s) pn new" and "map snd new = map snd cur @ added"
    and "\<forall>ws \<in> set (map snd new). words_fit ws" and "length (clock s) = TIME_MARK_LEN"
  shows "PML_diff pc (length cur) pn (length new) s = Inr (logged [diff_started, diff_done] s)"
proof -
  have "\<forall>ws \<in> set (map snd cur). words_fit ws" using assms(3,4) by simp
  then have "\<forall>(as, ws) \<in> set cur. words_fit ws" "\<forall>(as, ws) \<in> set new. words_fit ws"
    using assms(4) by auto
  from PML_diff_ok [OF assms(1,2) this assms(5)] show ?thesis
    by (simp add: assms(3) diff_log_prefix del: concat_map_singleton)
qed

theorem service_ignores_added_mappings_witness:
  "\<exists>s. PML_diff (Some 1) 1 (Some 4) 2 s = Inr (logged [diff_started, diff_done] s)"
proof -
  let ?h = "\<lparr>hnext = 5, hcell = [0 \<mapsto> Str ''a'', 1 \<mapsto> Lines [mk_line [0]], 2 \<mapsto> Str ''a'', 3 \<mapsto> Str ''b'',
      4 \<mapsto> Lines [mk_line [2], mk_line [3]]]\<rparr>"
  let ?s = "demo_service\<lparr>mem := ?h\<rparr>"
  let ?cur = "[([0], [''a''])] :: snap" and ?new = "[([2], [''a'']), ([3], [''b''])] :: snap"
  have "PML_diff (Some 1) (length ?cur) (Some 4) (length ?new) ?s = Inr (logged [diff_started, diff_done] ?s)"
    by (rule service_ignores_added_mappings [where added = "[[''b'']]"])
       (simp_all add: snap_at_def snap_array_def words_fit_def show_line_def)
  then have "PML_diff (Some 1) 1 (Some 4) 2 ?s = Inr (logged [diff_started, diff_done] ?s)" by (simp add: numeral_2_eq_2)
  then show ?thesis by blast
qed

text \<open>The longest record: with a 24 character time mark, \<open>create_log\<close> succeeds exactly for messages
  shorter than 230 characters and then appends the record; a message of 230 or 231 characters,
  which its own buffer \<open>msg[MSG_LEN]\<close> still holds, overflows the block the record is built in.\<close>

theorem log_record_bound:
  assumes "length (clock s) = TIME_MARK_LEN"
  shows "create_log msg s =
    (if length msg + 2 < MSG_LEN then Inr (s\<lparr>written := written s @ [(log_fd s, clock s @ [CHR 0x09] @ msg @ [CHR 0x0A])]\<rparr>)
     else Inl OutOfBounds)"
  using assms by (simp add: create_log_def log_line_iff log_consts)

theorem log_record_bound_witness:
  "create_log (replicate 230 (CHR ''x'')) demo_service = Inl OutOfBounds"
  using log_record_bound [of demo_service "replicate 230 (CHR ''x'')"] by (simp add: log_consts)

text \<open>C28. Where the log goes: \<open>configure_service\<close> stores the descriptor of standard output in the copy
  of \<open>log_fd\<close> that belongs to \<open>ss_config.c\<close>. So without \<open>-d\<close> every record of a run of the program is
  written to descriptor 0, the initial value of the copy in \<open>ss_log.c\<close>; with \<open>-d\<close> every record
  goes to the descriptor of the opened log file, and the parent of the daemon writes none.\<close>

theorem service_log_destination:
  assumes "ss_main argc flags tr_pid pid k c err s = Inr (v, t)" and "log_fd s = 0" and "written s = []"
  shows "\<forall>(fd, record) \<in> set (written t).
    fd = (if argc \<noteq> 1 \<and> CHR ''d'' \<in> set flags then log_open c else 0)"
  using ss_main_extends [OF assms(1)] assms(2,3) by (auto simp: log_extends_def all_to_def)

definition demo_calls :: prep_calls where
  "demo_calls = \<lparr>log_open = 3, std_close = True, new_session = Some 7, root_dir = True, fill_mask = True,
     set_mask = True\<rparr>"

theorem service_log_destination_witness:
  "\<exists>v t. ss_main 2 ''d'' 1 0 0 demo_calls [] (demo_service\<lparr>maps := [None]\<rparr>) = Inr (v, t) \<and>
     length (written t) = 20  \<and> (\<forall>(fd, record) \<in> set (written t). fd = 3)"
proof -
  let ?run = "ss_main 2 ''d'' 1 0 0 demo_calls [] (demo_service\<lparr>maps := [None]\<rparr>)"
  have "case ?run of Inl e \<Rightarrow> False | Inr (v, t) \<Rightarrow> length (written t) = 20 " by code_simp
  then obtain v t where r: "?run = Inr (v, t)" "length (written t) = 20 " by (auto split: sum.splits)
  show ?thesis using service_log_destination [OF r(1)] r by (simp add: demo_service_def demo_calls_def)
qed

end
