(* ===== verification/Channels.thy ===== *)
theory Channels
  imports CString Descriptors
begin

text \<open>
  What the multiplexing server and its clients (\<open>task7/multiplex-io\<close>) share: relative paths of
  FIFO files, resolved against the directory a process runs in, and the descriptor table of a
  process. A directory is the list of its path components from the root.
\<close>

section \<open>Paths\<close>

type_synonym dir = "string list"

definition walk :: "dir \<Rightarrow> string \<Rightarrow> dir" where
  "walk d c = (if c = '''' \<or> c = ''.'' then d else if c = ''..'' then butlast d else d @ [c])"

definition resolve :: "dir \<Rightarrow> string \<Rightarrow> dir" where
  "resolve cwd path = fold (\<lambda>c d. walk d c) (pieces {CHR ''/''} path) cwd"

text \<open>A relative path is cut at its separators.\<close>

lemma pieces_append_delim:
  "d \<in> ds \<Longrightarrow> pieces ds (s @ d # t) = pieces ds s @ pieces ds t"
  by (induction s) (auto split: list.splits)

lemma pieces_name: "\<forall>c \<in> set s. c \<notin> ds \<Longrightarrow> pieces ds s = [s]"
  using pieces_token [of s ds "[]"] by simp

lemma resolve_append: "resolve cwd (p @ CHR ''/'' # q) = resolve (resolve cwd p) q"
  by (simp add: resolve_def pieces_append_delim)

lemma resolve_name: "CHR ''/'' \<notin> set n \<Longrightarrow> resolve cwd n = walk cwd n"
  unfolding resolve_def by (subst pieces_name) auto

section \<open>The descriptor table\<close>

text \<open>
  \<open>open\<close> takes the lowest free descriptor, up to the limit of the process; \<open>close\<close> frees its slot.
\<close>

datatype access = Rd | Wr

datatype desc = Std | Fifo dir access | Epoll

type_synonym fd_table = "desc option list"

definition fd_open :: "nat \<Rightarrow> desc \<Rightarrow> fd_table \<Rightarrow> (nat \<times> fd_table) option" where
  "fd_open limit d tab =
     (let i = length (takeWhile (\<lambda>x. x \<noteq> None) tab) in
      if i < length tab then Some (i, tab[i := Some d])
      else if length tab < limit then Some (length tab, tab @ [Some d])
      else None)"

definition fd_get :: "nat \<Rightarrow> fd_table \<Rightarrow> desc option" where
  "fd_get i tab = (if i < length tab then tab ! i else None)"

definition fd_close :: "nat \<Rightarrow> fd_table \<Rightarrow> fd_table option" where
  "fd_close i tab = (if fd_get i tab = None then None else Some (tab[i := None]))"

lemma takeWhile_hole:
  "length (takeWhile (\<lambda>x. x \<noteq> None) tab) = i \<Longrightarrow>
   (\<forall>j < i. tab ! j \<noteq> None) \<and> i \<le> length tab \<and> (i < length tab \<longrightarrow> tab ! i = None)"
  using nth_length_takeWhile [of "\<lambda>x. x \<noteq> None" tab] set_takeWhileD [of _ "\<lambda>x. x \<noteq> None" tab]
    takeWhile_nth [of _ "\<lambda>x. x \<noteq> None" tab]
  by (metis length_takeWhile_le nth_mem)

interpretation cfd: descriptors "\<lambda>tab i. fd_get i tab" fd_open "\<lambda>limit tab. length tab \<le> limit"
proof unfold_locales
  fix limit d k and t t' :: fd_table
  assume len: "length t \<le> limit" and op: "fd_open limit d t = Some (k, t')"
  let ?i = "length (takeWhile (\<lambda>x. x \<noteq> None) t)"
  note hole = takeWhile_hole [OF refl, of t]
  show "k \<in> free_fds limit (\<lambda>i. fd_get i t) \<and> (\<forall>j < k. fd_get j t \<noteq> None) \<and>
      (\<lambda>i. fd_get i t') = (\<lambda>i. fd_get i t)(k \<mapsto> d) \<and> length t' \<le> limit"
  proof (cases "?i < length t")
    case True
    then have "fd_open limit d t = Some (?i, t[?i := Some d])" by (simp only: fd_open_def Let_def if_True)
    then have k: "k = ?i" "t' = t[?i := Some d]" using op by simp_all
    from True hole len show ?thesis unfolding k by (auto simp: free_fds_def fd_get_def fun_eq_iff)
  next
    case False
    then have "fd_open limit d t = (if length t < limit then Some (length t, t @ [Some d]) else None)"
      by (simp only: fd_open_def Let_def if_False)
    then have "k = length t" "t' = t @ [Some d]" "length t < limit" using op by (auto split: if_splits)
    with False hole show ?thesis by (auto simp: free_fds_def fd_get_def fun_eq_iff nth_append)
  qed
next
  fix limit d and t :: fd_table
  assume len: "length t \<le> limit" and op: "fd_open limit d t = None"
  then have "length (takeWhile (\<lambda>x. x \<noteq> None) t) = length t" "length t = limit"
    using takeWhile_hole [OF refl, of t] by (auto simp: fd_open_def Let_def split: if_splits)
  with takeWhile_hole [OF refl, of t] show "free_fds limit (\<lambda>i. fd_get i t) = {}"
    by (auto simp: free_fds_def fd_get_def)
qed

text \<open>A table without holes only grows at its end.\<close>

lemma fd_open_full:
  "None \<notin> set tab \<Longrightarrow>
   fd_open limit d tab = (if length tab < limit then Some (length tab, tab @ [Some d]) else None)"
proof -
  assume "None \<notin> set tab"
  then have "takeWhile (\<lambda>x. x \<noteq> None) tab = tab" unfolding takeWhile_eq_all_conv by metis
  then show ?thesis by (simp only: fd_open_def Let_def less_irrefl if_False)
qed

lemma fd_open_hole:
  "None \<notin> set tab \<Longrightarrow> fd_open n d (tab @ None # r) = Some (length tab, tab @ Some d # r)"
proof -
  assume "None \<notin> set tab"
  then have "\<forall>x \<in> set tab. x \<noteq> None" by metis
  then have "takeWhile (\<lambda>x. x \<noteq> None) (tab @ None # r) = tab" by (simp add: takeWhile_append2)
  then show ?thesis unfolding fd_open_def Let_def by (simp only:) simp
qed

lemma fd_get_append [simp]:
  "i < length tab \<Longrightarrow> fd_get i (tab @ ds) = fd_get i tab"
  "fd_get (length tab) (tab @ d # ds) = d"
  by (simp_all add: fd_get_def nth_append)

section \<open>Epoll instances\<close>

text \<open>
  In \<open>struct epoll_event\<close> the members \<open>fd\<close> and \<open>u32\<close> of the union \<open>data\<close> are the same four bytes.
  An instance maps the watched descriptors to their events; adding one twice fails (\<open>EEXIST\<close>), and
  so does adding to an instance that is not there.
\<close>

record epoll_event =
  events :: nat
  data :: "32 word"

definition EPOLLIN :: nat where
  "EPOLLIN = 1"

definition set_fd :: "int \<Rightarrow> epoll_event \<Rightarrow> epoll_event" where
  "set_fd n e = e\<lparr>data := word_of_int n\<rparr>"

definition set_u32 :: "int \<Rightarrow> epoll_event \<Rightarrow> epoll_event" where
  "set_u32 n e = e\<lparr>data := word_of_int n\<rparr>"

definition get_fd :: "epoll_event \<Rightarrow> int" where
  "get_fd e = sint (data e)"

definition get_u32 :: "epoll_event \<Rightarrow> nat" where
  "get_u32 e = unat (data e)"

type_synonym epoll = "nat \<rightharpoonup> epoll_event"

definition epoll_ctl_add :: "epoll option \<Rightarrow> nat \<Rightarrow> epoll_event \<Rightarrow> epoll option" where
  "epoll_ctl_add ep fd e =
     (case ep of None \<Rightarrow> None | Some m \<Rightarrow> if m fd = None then Some (m(fd \<mapsto> e)) else None)"

end
