(* ===== verification/Server.thy ===== *)
theory Server
  imports Channels
begin

text \<open>
  The multiplexing server (\<open>task7/multiplex-io/server\<close>): \<open>s_interact.c\<close> and \<open>s_main.c\<close>. Clients register
  by a command in the registration FIFO; the server enters their two FIFOs in its table, opens
  them, answers in the response FIFO and adds an event to its epoll instance. The thread pool
  that serves the events is the one of the theory ThreadPool.
\<close>

section \<open>The state\<close>

definition MAX_CLIENT :: nat where
  "MAX_CLIENT = 64"

definition CMD_SZ :: nat where
  "CMD_SZ = 1024"

definition REQ_SZ :: nat where
  "REQ_SZ = 1024"

definition MAX_PATH :: nat where
  "MAX_PATH = 256"

definition MAX_REQUEST :: nat where
  "MAX_REQUEST = 2 * MAX_PATH"

definition S_FIFO_REL :: string where
  "S_FIFO_REL = ''../channels/''"

definition S_FIFO_REG :: string where
  "S_FIFO_REG = ''server_reg''"

definition S_FIFO_RSP :: string where
  "S_FIFO_RSP = ''server_rsp''"

definition DEFAULT_RSP :: string where
  "DEFAULT_RSP = ''ASK'' @ [CHR 0x0A]"

lemmas server_consts = MAX_CLIENT_def CMD_SZ_def REQ_SZ_def MAX_PATH_def MAX_REQUEST_def

record Client =
  fifo_tx :: string
  fifo_rx :: string
  is_active :: int
  event :: epoll_event

text \<open>
  \<open>cwd\<close> and \<open>limit\<close> are those of the process, \<open>fifos\<close> the FIFO files that exist, \<open>rsp\<close> what is in the
  response FIFO. \<open>ep\<close> is \<open>None\<close> until the epoll thread has created its instance.
\<close>

record server =
  cwd :: dir
  limit :: nat
  s_fds :: fd_table
  fifos :: "dir set"
  rsp :: string
  Clients :: "Client list"
  client_max :: nat
  s_fifo_reg_fd_r :: nat
  s_fifo_rsp_fd_w :: nat
  ep :: "epoll option"

section \<open>s_interact.c\<close>

definition fifo_path :: "string \<Rightarrow> c_error + string" where
  "fifo_path fifo_name = strcat_into MAX_PATH S_FIFO_REL fifo_name"

text \<open>
  \<open>mkfifo\<close> is taken to succeed in the existing directory \<open>channels\<close>; a name that denotes a directory
  gives \<open>EEXIST\<close>, which is accepted. Opening fails for a path that is no FIFO and when the table
  is full.
\<close>

definition s_mkfifo :: "string \<Rightarrow> server \<Rightarrow> c_error + server" where
  "s_mkfifo fifo_name s =
     (case fifo_path fifo_name of Inl e \<Rightarrow> Inl e
      | Inr p \<Rightarrow>
          if fifo_name \<in> {'''', ''.'', ''..''} then Inr s
          else Inr (s\<lparr>fifos := insert (resolve (cwd s) p) (fifos s)\<rparr>))"

definition s_open_fifo :: "string \<Rightarrow> access \<Rightarrow> server \<Rightarrow> c_error + nat \<times> server" where
  "s_open_fifo fifo_name flags s =
     (case fifo_path fifo_name of Inl e \<Rightarrow> Inl e
      | Inr p \<Rightarrow>
          if resolve (cwd s) p \<notin> fifos s then Inl (Exit 1)
          else (case fd_open (limit s) (Fifo (resolve (cwd s) p) flags) (s_fds s) of
                  None \<Rightarrow> Inl (Exit 1)
                | Some (fd, tab) \<Rightarrow> Inr (fd, s\<lparr>s_fds := tab\<rparr>)))"

definition s_unlink_fifo :: "string \<Rightarrow> server \<Rightarrow> c_error + server" where
  "s_unlink_fifo fifo_name s =
     (case fifo_path fifo_name of Inl e \<Rightarrow> Inl e
      | Inr p \<Rightarrow>
          if resolve (cwd s) p \<notin> fifos s then Inl (Exit 1)
          else Inr (s\<lparr>fifos := fifos s - {resolve (cwd s) p}\<rparr>))"

text \<open>
  A C string in a buffer ends at the first NUL; without one, reading it leaves the buffer.
\<close>

definition c_string :: "string \<Rightarrow> c_error + string" where
  "c_string buf = (if CHR 0x00 \<in> set buf then Inr (takeWhile (\<lambda>c. c \<noteq> CHR 0x00) buf) else Inl OutOfBounds)"

text \<open>\<open>s_scan_request\<close>: what \<open>read\<close> gives, \<open>None\<close> for an error, in a zeroed buffer.\<close>

definition s_scan_request :: "string option \<Rightarrow> string option" where
  "s_scan_request input =
     (case input of None \<Rightarrow> None
      | Some bytes \<Rightarrow> Some (take MAX_REQUEST bytes @ replicate (MAX_REQUEST - length bytes) (CHR 0x00)))"

section \<open>s_main.c: preparation\<close>

definition empty_client :: Client where
  "empty_client = \<lparr>fifo_tx = [], fifo_rx = [], is_active = 0,
     event = set_u32 (-1) (set_fd (-1) \<lparr>events = EPOLLIN, data = 0\<rparr>)\<rparr>"

definition s_prepare :: "server \<Rightarrow> c_error + server" where
  "s_prepare s =
     (case s_mkfifo S_FIFO_REG s of Inl e \<Rightarrow> Inl e | Inr s \<Rightarrow>
     (case s_mkfifo S_FIFO_RSP s of Inl e \<Rightarrow> Inl e | Inr s \<Rightarrow>
     (case s_open_fifo S_FIFO_REG Rd s of Inl e \<Rightarrow> Inl e | Inr (reg_r, s) \<Rightarrow>
     (case s_open_fifo S_FIFO_RSP Rd s of Inl e \<Rightarrow> Inl e | Inr (rsp_r, s) \<Rightarrow>
     (case s_open_fifo S_FIFO_REG Wr s of Inl e \<Rightarrow> Inl e | Inr (reg_w, s) \<Rightarrow>
     (case s_open_fifo S_FIFO_RSP Wr s of Inl e \<Rightarrow> Inl e | Inr (rsp_w, s) \<Rightarrow>
        Inr (s\<lparr>s_fifo_reg_fd_r := reg_r, s_fifo_rsp_fd_w := rsp_w,
               Clients := replicate MAX_CLIENT empty_client\<rparr>)))))))"

section \<open>s_main.c: registration\<close>

definition with_client :: "nat \<Rightarrow> (Client \<Rightarrow> Client) \<Rightarrow> server \<Rightarrow> c_error + server" where
  "with_client i f s =
     (if i < length (Clients s) then Inr (s\<lparr>Clients := (Clients s)[i := f (Clients s ! i)]\<rparr>)
      else Inl OutOfBounds)"

text \<open>
  \<open>sprintf(field, "%s", strrchr(p, '/') + 1)\<close> into a field of \<open>MAX_PATH\<close> bytes: without a slash it
  reads from address 1.
\<close>

definition name_of :: "string \<Rightarrow> c_error + string" where
  "name_of p =
     (case strrchr p (CHR ''/'') of None \<Rightarrow> Inl NullDeref
      | Some q \<Rightarrow> strcat_into MAX_PATH [] (tl q))"

fun reg_tokens :: "string list \<Rightarrow> nat \<Rightarrow> server \<Rightarrow> c_error + int \<times> server" where
  "reg_tokens [] i s = Inr (0, s)"
| "reg_tokens (p # ps) i s =
     (if i = 0 then (if p \<noteq> ''REGISTER'' then Inr (-1, s) else reg_tokens ps (i + 1) s)
      else if i = 1 then
        (case name_of p of Inl e \<Rightarrow> Inl e | Inr n \<Rightarrow>
        (case with_client (client_max s) (\<lambda>c. c\<lparr>fifo_tx := n\<rparr>) s of Inl e \<Rightarrow> Inl e
         | Inr s \<Rightarrow> reg_tokens ps (i + 1) s))
      else if i = 2 then
        (case name_of p of Inl e \<Rightarrow> Inl e | Inr n \<Rightarrow>
        (case with_client (client_max s) (\<lambda>c. c\<lparr>fifo_rx := n\<rparr>) s of Inl e \<Rightarrow> Inl e
         | Inr s \<Rightarrow> reg_tokens ps (i + 1) s))
      else Inr (-1, s))"

definition s_check_reg_request :: "string \<Rightarrow> server \<Rightarrow> c_error + int \<times> server" where
  "s_check_reg_request request s =
     (case strcat_into CMD_SZ [] request of Inl e \<Rightarrow> Inl e | Inr cmd \<Rightarrow>
     (case reg_tokens (strtok_all {CHR '' ''} cmd) 0 s of Inl e \<Rightarrow> Inl e | Inr (r, s) \<Rightarrow>
      if r = -1 then Inr (-1, s)
      else
     (case with_client (client_max s) (\<lambda>c. c\<lparr>is_active := 1\<rparr>) s of Inl e \<Rightarrow> Inl e
      | Inr s \<Rightarrow> Inr (0, s\<lparr>client_max := client_max s + 1\<rparr>))))"

text \<open>
  \<open>s_register\<close>: four descriptors, the answer, then the event, whose two descriptors go into the
  same bytes of the union, and, in the critical section, \<open>EPOLL_CTL_ADD\<close> of descriptor 0.
\<close>

definition s_register_open :: "nat \<Rightarrow> server \<Rightarrow> c_error + server" where
  "s_register_open client_num s =
     (if length (Clients s) \<le> client_num then Inl OutOfBounds
      else
     (let Cn = Clients s ! client_num in
      case s_mkfifo (fifo_tx Cn) s of Inl e \<Rightarrow> Inl e | Inr s \<Rightarrow>
     (case s_mkfifo (fifo_rx Cn) s of Inl e \<Rightarrow> Inl e | Inr s \<Rightarrow>
     (case s_open_fifo (fifo_tx Cn) Rd s of Inl e \<Rightarrow> Inl e | Inr (tx_r, s) \<Rightarrow>
     (case s_open_fifo (fifo_rx Cn) Rd s of Inl e \<Rightarrow> Inl e | Inr (rx_r, s) \<Rightarrow>
     (case s_open_fifo (fifo_tx Cn) Wr s of Inl e \<Rightarrow> Inl e | Inr (tx_w, s) \<Rightarrow>
     (case s_open_fifo (fifo_rx Cn) Wr s of Inl e \<Rightarrow> Inl e | Inr (rx_w, s) \<Rightarrow>
     (let s = s\<lparr>rsp := rsp s @ DEFAULT_RSP\<rparr> in
      with_client client_num (\<lambda>c. c\<lparr>event := set_u32 (int rx_w) (set_fd (int tx_r) (event c))\<rparr>) s))))))))"

definition s_register_add :: "nat \<Rightarrow> server \<Rightarrow> c_error + server" where
  "s_register_add client_num s =
     (case epoll_ctl_add (ep s) 0 (event (Clients s ! client_num)) of
        None \<Rightarrow> Inl (Exit 1)
      | Some m \<Rightarrow> Inr (s\<lparr>ep := Some m\<rparr>))"

definition s_register :: "nat \<Rightarrow> server \<Rightarrow> c_error + server" where
  "s_register client_num s =
     (case s_register_open client_num s of Inl e \<Rightarrow> Inl e | Inr s \<Rightarrow> s_register_add client_num s)"

text \<open>
  One turn of the loop of \<open>s_register_clients\<close> on the buffer \<open>request\<close>: \<open>chunk\<close> is what the
  non-blocking \<open>read\<close> stored, nothing when it failed. \<open>memset\<close> clears only as far as the string goes.
  \<open>s_receive\<close> is the turn up to the call of \<open>s_register\<close>, with the client to register if there is one
  (the final \<open>memset\<close> concerns the local buffer only, and is done with it).
\<close>

definition s_receive :: "string \<Rightarrow> string \<times> server \<Rightarrow> c_error + string \<times> server \<times> nat option" where
  "s_receive chunk = (\<lambda>(request, s).
     (let request = take REQ_SZ chunk @ drop (length chunk) request in
      case c_string request of Inl e \<Rightarrow> Inl e | Inr str \<Rightarrow>
      if str = [] then Inr (request, s, None)
      else
     (let request = request[length str - 1 := CHR 0x00] in
      case s_check_reg_request (butlast str) s of Inl e \<Rightarrow> Inl e | Inr (r, s) \<Rightarrow>
     (let request' = replicate (length (butlast str)) (CHR 0x00) @ drop (length (butlast str)) request in
      Inr (request', s, if r = -1 then None else Some (client_max s - 1))))))"

definition s_register_turn :: "string \<Rightarrow> string \<times> server \<Rightarrow> c_error + string \<times> server" where
  "s_register_turn chunk rs =
     (case s_receive chunk rs of Inl e \<Rightarrow> Inl e
      | Inr (request, s, None) \<Rightarrow> Inr (request, s)
      | Inr (request, s, Some client_num) \<Rightarrow>
          (case s_register client_num s of Inl e \<Rightarrow> Inl e | Inr s \<Rightarrow> Inr (request, s)))"

text \<open>The buffer \<open>request\<close> before the first and between two requests.\<close>

definition zeros :: string where
  "zeros = replicate REQ_SZ (CHR 0x00)"

fun s_register_clients :: "string list \<Rightarrow> string \<times> server \<Rightarrow> c_error + string \<times> server" where
  "s_register_clients [] rs = Inr rs"
| "s_register_clients (chunk # chunks) rs =
     (case s_register_turn chunk rs of Inl e \<Rightarrow> Inl e | Inr rs \<Rightarrow> s_register_clients chunks rs)"

section \<open>s_main.c: serving\<close>

text \<open>
  \<open>s_epoll\<close> creates the instance, which takes a descriptor too; a turn of its loop hands the events to the thread pool and is
  modelled with the pool, in the theory EpollPool.
\<close>

definition s_epoll_create :: "server \<Rightarrow> c_error + server" where
  "s_epoll_create s =
     (case fd_open (limit s) Epoll (s_fds s) of None \<Rightarrow> Inl (Exit 1)
      | Some (fd, tab) \<Rightarrow> Inr (s\<lparr>s_fds := tab, ep := Some Map.empty\<rparr>))"

text \<open>
  \<open>s_processing_request\<close>: what \<open>read\<close> gives for a descriptor, and the writes it makes.
\<close>

definition s_processing_request :: "(int \<Rightarrow> string option) \<Rightarrow> epoll_event \<Rightarrow> c_error + (int \<times> string) list" where
  "s_processing_request rd ev =
     (case s_scan_request (rd (get_fd ev)) of None \<Rightarrow> Inr []
      | Some buf \<Rightarrow>
     (case c_string buf of Inl e \<Rightarrow> Inl e | Inr request \<Rightarrow>
     (case strtok_all {CHR '' ''} request of
        [] \<Rightarrow> Inl NullDeref
      | [cmd] \<Rightarrow> Inl NullDeref
      | cmd # path # rest \<Rightarrow>
          if cmd \<noteq> ''GET'' then Inr [] else Inr [(sint (data ev), ''Hello!'')])))"

section \<open>s_main.c: main\<close>

text \<open>
  \<open>chunks\<close> are the results of the successive reads of the registration loop; \<open>early\<close> says whether the
  epoll thread has created its instance before the first of them.
\<close>

definition s_main :: "bool \<Rightarrow> string list \<Rightarrow> server \<Rightarrow> c_error + string \<times> server" where
  "s_main early chunks s =
     (case s_prepare s of Inl e \<Rightarrow> Inl e | Inr s \<Rightarrow>
     (case if early then s_epoll_create s else Inr s of Inl e \<Rightarrow> Inl e
      | Inr s \<Rightarrow> s_register_clients chunks (zeros, s)))"

end
