(* ===== verification/Client.thy ===== *)
theory Client
  imports Channels
begin

text \<open>
  The client of the multiplexing server (\<open>task7/multiplex-io/client\<close>): \<open>cn_interact.c\<close> and
  \<open>cn_main.c\<close>. It names its two FIFOs after its process id, registers with a command line, waits
  for the answer and then sends one request.
\<close>

section \<open>The state\<close>

definition CN_FIFO_REL :: string where
  "CN_FIFO_REL = ''../../server/channels/''"

definition CN_MAX_PATH :: nat where
  "CN_MAX_PATH = 256"

definition CN_MAX_REQUEST :: nat where
  "CN_MAX_REQUEST = 2 * CN_MAX_PATH"

definition CN_CMD_SZ :: nat where
  "CN_CMD_SZ = 1024"

definition CN_FIFO_REG :: string where
  "CN_FIFO_REG = ''server_reg''"

definition CN_FIFO_RSP :: string where
  "CN_FIFO_RSP = ''server_rsp''"

definition CN_DEFAULT_RSP :: string where
  "CN_DEFAULT_RSP = ''ASK'' @ [CHR 0x0A]"

text \<open>
  \<open>cn_files\<close> are the FIFO files that exist; \<open>cn_sent\<close> lists what the client wrote and into which file,
  \<open>cn_shown\<close> the responses it printed.
\<close>

record client =
  cn_cwd :: dir
  cn_limit :: nat
  cn_fds :: fd_table
  cn_files :: "dir set"
  cn_sent :: "(dir \<times> string) list"
  cn_shown :: "string list"

section \<open>cn_interact.c\<close>

definition cn_mkfifo_path :: "int \<Rightarrow> string \<Rightarrow> c_error + string" where
  "cn_mkfifo_path pid suf = strcat_into CN_MAX_PATH [] (CN_FIFO_REL @ ''fifo'' @ dec_int pid @ ''_'' @ suf)"

text \<open>The name is put behind the directory once more, whatever it already starts with.\<close>

definition cn_open_fifo :: "string \<Rightarrow> access \<Rightarrow> client \<Rightarrow> c_error + nat \<times> client" where
  "cn_open_fifo fifo_name flags s =
     (case strcat_into CN_MAX_PATH CN_FIFO_REL fifo_name of Inl e \<Rightarrow> Inl e
      | Inr p \<Rightarrow>
          if resolve (cn_cwd s) p \<notin> cn_files s then Inl (Exit 1)
          else (case fd_open (cn_limit s) (Fifo (resolve (cn_cwd s) p) flags) (cn_fds s) of
                  None \<Rightarrow> Inl (Exit 1)
                | Some (fd, tab) \<Rightarrow> Inr (fd, s\<lparr>cn_fds := tab\<rparr>)))"

definition cn_close_fifo :: "nat \<Rightarrow> client \<Rightarrow> c_error + client" where
  "cn_close_fifo fd s =
     (case fd_close fd (cn_fds s) of None \<Rightarrow> Inl (Exit 1) | Some tab \<Rightarrow> Inr (s\<lparr>cn_fds := tab\<rparr>))"

text \<open>\<open>fgets\<close> of one line of standard input; at the end of the input it returns \<open>NULL\<close>.\<close>

definition cn_scan_request :: "string \<Rightarrow> string option" where
  "cn_scan_request stdin =
     (if stdin = [] then None
      else (let l = takeWhile (\<lambda>c. c \<noteq> CHR 0x0A) stdin in
            Some (take (CN_MAX_REQUEST - 1) (if length l < length stdin then l @ [CHR 0x0A] else l))))"

text \<open>\<open>write\<close> and \<open>read\<close> on a descriptor: they fail on one opened for the other direction.\<close>

definition cn_write :: "nat \<Rightarrow> string \<Rightarrow> client \<Rightarrow> client" where
  "cn_write fd text s =
     (case fd_get fd (cn_fds s) of
        Some (Fifo p Wr) \<Rightarrow> s\<lparr>cn_sent := cn_sent s @ [(p, text)]\<rparr>
      | _ \<Rightarrow> s)"

definition cn_read :: "int \<Rightarrow> string \<Rightarrow> client \<Rightarrow> string option" where
  "cn_read fd text s =
     (if fd < 0 then None
      else (case fd_get (nat fd) (cn_fds s) of
              Some Std \<Rightarrow> Some text
            | Some (Fifo p Rd) \<Rightarrow> Some text
            | _ \<Rightarrow> None))"

section \<open>cn_main.c\<close>

definition reg_command :: "string \<Rightarrow> string \<Rightarrow> string" where
  "reg_command fifo_tx fifo_rx = ''REGISTER '' @ fifo_tx @ '' '' @ fifo_rx @ [CHR 0x0A]"

text \<open>
  \<open>cn_reg\<close>: \<open>response\<close> is what is in the response FIFO when the client reads it. A text of
  \<open>CMD_SZ\<close> bytes would fill the zeroed buffer to its end.
\<close>

definition cn_reg :: "string \<Rightarrow> string \<Rightarrow> string \<Rightarrow> client \<Rightarrow> c_error + client" where
  "cn_reg fifo_tx fifo_rx response s =
     (case cn_open_fifo CN_FIFO_REG Wr s of Inl e \<Rightarrow> Inl e | Inr (reg_fd, s) \<Rightarrow>
     (case cn_open_fifo CN_FIFO_RSP Rd s of Inl e \<Rightarrow> Inl e | Inr (rsp_fd, s) \<Rightarrow>
     (case strcat_into CN_CMD_SZ [] (reg_command fifo_tx fifo_rx) of Inl e \<Rightarrow> Inl e | Inr cmd \<Rightarrow>
     (let s = cn_write reg_fd cmd s;
          got = (case cn_read (int rsp_fd) (take CN_CMD_SZ response) s of None \<Rightarrow> [] | Some t \<Rightarrow> t) in
      if length got = CN_CMD_SZ \<and> CHR 0x00 \<notin> set got then Inl OutOfBounds
      else if takeWhile (\<lambda>c. c \<noteq> CHR 0x00) got \<noteq> CN_DEFAULT_RSP then Inl (Exit 1)
      else
     (case cn_close_fifo reg_fd s of Inl e \<Rightarrow> Inl e | Inr s \<Rightarrow> cn_close_fifo rsp_fd s)))))"

text \<open>
  The loop of \<open>cn_work\<close> over the events \<open>epoll_wait\<close> reported; \<open>text\<close> is what a successful \<open>read\<close>
  would deliver.
\<close>

fun cn_events :: "epoll_event list \<Rightarrow> string \<Rightarrow> client \<Rightarrow> c_error + client" where
  "cn_events [] text s = Inr s"
| "cn_events (e # es) text s =
     (case cn_read (get_fd e) text s of None \<Rightarrow> Inl (Exit 1)
      | Some t \<Rightarrow> cn_events es text (s\<lparr>cn_shown := cn_shown s @ [t]\<rparr>))"

text \<open>
  \<open>cn_work\<close>: the event watched is that of descriptor 0, its datum is \<open>fd_tx\<close>. \<open>ready\<close> says whether
  \<open>epoll_wait\<close> finds descriptor 0 ready within ten seconds.
\<close>

definition cn_work :: "string \<Rightarrow> string \<Rightarrow> string \<Rightarrow> bool \<Rightarrow> string \<Rightarrow> client \<Rightarrow> c_error + client" where
  "cn_work fifo_tx fifo_rx stdin ready text s =
     (case cn_open_fifo fifo_tx Wr s of Inl e \<Rightarrow> Inl e | Inr (fd_tx, s) \<Rightarrow>
     (case cn_open_fifo fifo_rx Rd s of Inl e \<Rightarrow> Inl e | Inr (fd_rx, s) \<Rightarrow>
     (case epoll_ctl_add (Some Map.empty) 0 (set_fd (int fd_tx) \<lparr>events = EPOLLIN, data = 0\<rparr>) of
        None \<Rightarrow> Inl (Exit 1)
      | Some ep \<Rightarrow>
     (case cn_scan_request stdin of None \<Rightarrow> Inl NullDeref
      | Some request \<Rightarrow>
          cn_events (if ready then [the (ep 0)] else []) text (cn_write fd_tx request s)))))"

definition cn_main :: "int \<Rightarrow> string \<Rightarrow> string \<Rightarrow> bool \<Rightarrow> string \<Rightarrow> client \<Rightarrow> c_error + client" where
  "cn_main pid response stdin ready text s =
     (case cn_mkfifo_path pid ''tx'' of Inl e \<Rightarrow> Inl e | Inr fifo_tx \<Rightarrow>
     (case cn_mkfifo_path pid ''rx'' of Inl e \<Rightarrow> Inl e | Inr fifo_rx \<Rightarrow>
     (case cn_reg fifo_tx fifo_rx response s of Inl e \<Rightarrow> Inl e | Inr s \<Rightarrow>
        cn_work fifo_tx fifo_rx stdin ready text s)))"

end
