(* ===== verification/MultiplexProps.thy ===== *)
theory MultiplexProps
  imports Server Client
begin

text \<open>
  The properties of the multiplexing server and its clients (\<open>task7/multiplex-io\<close>): which commands
  register a client, that a client's own command does and that both sides then use the same
  FIFO files, what a second registration does to the server, and what becomes of responses.
\<close>

section \<open>Names and paths\<close>

definition fifo_name :: "int \<Rightarrow> string \<Rightarrow> string" where
  "fifo_name pid suf = ''fifo'' @ dec_int pid @ ''_'' @ suf"

definition chan_path :: "dir \<Rightarrow> string \<Rightarrow> dir" where
  "chan_path base n = base @ [''server'', ''channels'', n]"

lemma dec_int_clean: "c \<notin> set ''-0123456789'' \<Longrightarrow> c \<notin> set (dec_int i)"
  using dec_int_chars [of i] by blast

lemma fifo_name_clean: "c \<notin> set ''-0123456789fifo_'' \<Longrightarrow> c \<notin> set suf \<Longrightarrow> c \<notin> set (fifo_name pid suf)"
  using dec_int_clean [of c pid] by (auto simp: fifo_name_def)

lemma walk_name: "fifo_name pid suf \<noteq> '''' \<and> walk d (fifo_name pid suf) = d @ [fifo_name pid suf]"
  by (simp add: walk_def fifo_name_def)

lemma server_path:
  assumes "CHR ''/'' \<notin> set n" and "n \<notin> {'''', ''.'', ''..''}"
  shows "resolve (base @ [''server'', x]) (S_FIFO_REL @ n) = chan_path base n"
proof -
  have "resolve (base @ [''server'', x]) (''../channels'' @ CHR ''/'' # n) =
      resolve (resolve (base @ [''server'', x]) ''../channels'') n" by (rule resolve_append)
  also have "resolve (base @ [''server'', x]) ''../channels'' = base @ [''server'', ''channels'']"
    by (simp add: resolve_def walk_def butlast_append)
  finally show ?thesis using assms by (simp add: S_FIFO_REL_def chan_path_def resolve_name walk_def)
qed

lemma client_dir: "resolve (base @ [''client'', y]) ''../../server/channels'' = base @ [''server'', ''channels'']"
  by (simp add: resolve_def walk_def butlast_append)

lemma client_path:
  assumes "CHR ''/'' \<notin> set n" and "n \<notin> {'''', ''.'', ''..''}"
  shows "resolve (base @ [''client'', y]) (CN_FIFO_REL @ n) = chan_path base n"
proof -
  have "resolve (base @ [''client'', y]) (''../../server/channels'' @ CHR ''/'' # n) =
      resolve (resolve (base @ [''client'', y]) ''../../server/channels'') n" by (rule resolve_append)
  then show ?thesis using assms
    by (simp add: CN_FIFO_REL_def chan_path_def client_dir resolve_name walk_def del: butlast_append)
qed

text \<open>With the directory put in front twice the path is still that of the same file.\<close>

lemma client_path_twice:
  assumes "CHR ''/'' \<notin> set n" and "n \<notin> {'''', ''.'', ''..''}"
  shows "resolve (base @ [''client'', y]) (CN_FIFO_REL @ CN_FIFO_REL @ n) = chan_path base n"
proof -
  have "resolve (base @ [''client'', y]) (''../../server/channels'' @ CHR ''/'' # CN_FIFO_REL @ n) =
      resolve (base @ [''server'', ''channels'']) (CN_FIFO_REL @ n)"
    unfolding resolve_append client_dir ..
  also have "\<dots> = resolve (resolve (base @ [''server'', ''channels'']) ''../../server/channels'') n"
    using resolve_append [of "base @ [''server'', ''channels'']" "''../../server/channels''" n]
    by (simp add: CN_FIFO_REL_def)
  also have "resolve (base @ [''server'', ''channels'']) ''../../server/channels'' = base @ [''server'', ''channels'']"
    by (simp add: resolve_def walk_def butlast_append)
  finally show ?thesis using assms
    by (simp add: CN_FIFO_REL_def chan_path_def resolve_name walk_def)
qed

section \<open>Registering a client\<close>

lemma fifo_name_short: "\<bar>pid\<bar> < 2 ^ 31 \<Longrightarrow> length suf \<le> 2 \<Longrightarrow> length (fifo_name pid suf) \<le> 107"
  using dec_int_pid [of pid] by (simp add: fifo_name_def)

lemma name_of_path: "CHR ''/'' \<notin> set n \<Longrightarrow> length n < MAX_PATH \<Longrightarrow> name_of (CN_FIFO_REL @ n) = Inr n"
  using strrchr_last [of "CHR ''/''" n "''../../server/channels''"]
  by (simp add: name_of_def CN_FIFO_REL_def strcat_into_def)

lemma reg_words:
  assumes "CHR '' '' \<notin> set n1" and "CHR '' '' \<notin> set n2"
  shows "strtok_all {CHR '' ''} (''REGISTER '' @ (CN_FIFO_REL @ n1) @ '' '' @ CN_FIFO_REL @ n2) =
    [''REGISTER'', CN_FIFO_REL @ n1, CN_FIFO_REL @ n2]"
proof -
  let ?p1 = "CN_FIFO_REL @ n1" and ?p2 = "CN_FIFO_REL @ n2"
  have clean: "\<forall>c \<in> set ?p1. c \<notin> {CHR '' ''}" "\<forall>c \<in> set ?p2. c \<notin> {CHR '' ''}" "?p1 \<noteq> []" "?p2 \<noteq> []"
    using assms by (auto simp: CN_FIFO_REL_def)
  have "strtok_all {CHR '' ''} (''REGISTER'' @ '' '' @ ?p1 @ '' '' @ ?p2) =
      ''REGISTER'' # strtok_all {CHR '' ''} ('' '' @ ?p1 @ '' '' @ ?p2)"
    by (rule strtok_all_token) simp_all
  also have "strtok_all {CHR '' ''} ('' '' @ ?p1 @ '' '' @ ?p2) = strtok_all {CHR '' ''} (?p1 @ '' '' @ ?p2)"
    by simp
  also have "\<dots> = ?p1 # strtok_all {CHR '' ''} ('' '' @ ?p2)"
    using clean by (intro strtok_all_token) simp_all
  also have "strtok_all {CHR '' ''} ('' '' @ ?p2) = [?p2]"
    using strtok_all_token [of ?p2 "{CHR '' ''}" "[]"] clean by simp
  finally show ?thesis by simp
qed

text \<open>The names a client can ask for: they fit every buffer on the way and are no directories.\<close>

definition good_name :: "string \<Rightarrow> bool" where
  "good_name n \<longleftrightarrow> n \<notin> {'''', ''.'', ''..''} \<and> length n < 200 \<and>
     CHR ''/'' \<notin> set n \<and> CHR '' '' \<notin> set n \<and> CHR 0x00 \<notin> set n"

lemma good_fifo_name:
  assumes "\<bar>pid\<bar> < 2 ^ 31" and "suf = ''tx'' \<or> suf = ''rx''"
  shows "good_name (fifo_name pid suf)"
proof -
  have "length (fifo_name pid suf) \<le> 107" using assms by (intro fifo_name_short) auto
  moreover have "c \<notin> set (fifo_name pid suf)" if "c \<in> {CHR ''/'', CHR '' '', CHR 0x00}" for c
    using that assms(2) by (intro fifo_name_clean) auto
  moreover have "fifo_name pid suf \<notin> {'''', ''.'', ''..''}" by (auto simp: fifo_name_def)
  ultimately show ?thesis by (auto simp: good_name_def)
qed

definition registered :: "string \<Rightarrow> string \<Rightarrow> server \<Rightarrow> server" where
  "registered n1 n2 s = s\<lparr>client_max := client_max s + 1,
     Clients := (Clients s)[client_max s := (Clients s ! client_max s)\<lparr>fifo_tx := n1, fifo_rx := n2, is_active := 1\<rparr>]\<rparr>"

lemma check_request_ok:
  assumes "good_name n1" and "good_name n2" and "client_max s < length (Clients s)"
  shows "s_check_reg_request (''REGISTER '' @ (CN_FIFO_REL @ n1) @ '' '' @ CN_FIFO_REL @ n2) s =
    Inr (0, registered n1 n2 s)"
proof -
  have n: "name_of (CN_FIFO_REL @ n1) = Inr n1" "name_of (CN_FIFO_REL @ n2) = Inr n2"
    using assms(1,2) by (auto simp: good_name_def server_consts intro: name_of_path)
  have fits: "strcat_into CMD_SZ [] (''REGISTER '' @ (CN_FIFO_REL @ n1) @ '' '' @ CN_FIFO_REL @ n2) =
      Inr (''REGISTER '' @ (CN_FIFO_REL @ n1) @ '' '' @ CN_FIFO_REL @ n2)"
    using assms(1,2) by (simp add: strcat_into_def good_name_def server_consts CN_FIFO_REL_def)
  have words: "strtok_all {CHR '' ''} (''REGISTER '' @ (CN_FIFO_REL @ n1) @ '' '' @ CN_FIFO_REL @ n2) =
      [''REGISTER'', CN_FIFO_REL @ n1, CN_FIFO_REL @ n2]"
    using assms(1,2) by (intro reg_words) (simp_all add: good_name_def)
  have "reg_tokens [''REGISTER'', CN_FIFO_REL @ n1, CN_FIFO_REL @ n2] 0 s =
      Inr (0, s\<lparr>Clients := (Clients s)[client_max s := (Clients s ! client_max s)\<lparr>fifo_tx := n1, fifo_rx := n2\<rparr>]\<rparr>)"
    using assms(3) by (simp add: n with_client_def)
  then show ?thesis
    unfolding s_check_reg_request_def fits sum.case words
    using assms(3) by (simp add: with_client_def registered_def)
qed

lemma s_mkfifo_ok:
  "good_name n \<Longrightarrow> s_mkfifo n s = Inr (s\<lparr>fifos := insert (resolve (cwd s) (S_FIFO_REL @ n)) (fifos s)\<rparr>)"
  by (simp add: s_mkfifo_def fifo_path_def strcat_into_def good_name_def server_consts S_FIFO_REL_def)

lemma s_open_fifo_ok:
  assumes "good_name n" and "resolve (cwd s) (S_FIFO_REL @ n) \<in> fifos s"
    and "None \<notin> set (s_fds s)" and "length (s_fds s) < limit s"
  shows "s_open_fifo n a s = Inr (length (s_fds s),
    s\<lparr>s_fds := s_fds s @ [Some (Fifo (resolve (cwd s) (S_FIFO_REL @ n)) a)]\<rparr>)"
proof -
  have "fifo_path n = Inr (S_FIFO_REL @ n)"
    using assms(1) by (simp add: fifo_path_def strcat_into_def good_name_def server_consts S_FIFO_REL_def)
  then show ?thesis using assms(2-4) by (simp add: s_open_fifo_def fd_open_full)
qed

text \<open>What \<open>s_register\<close> makes of the state, when it can finish.\<close>

definition chan :: "server \<Rightarrow> string \<Rightarrow> dir" where
  "chan s n = resolve (cwd s) (S_FIFO_REL @ n)"

definition client_fds :: "server \<Rightarrow> string \<Rightarrow> string \<Rightarrow> fd_table" where
  "client_fds s n1 n2 = map Some [Fifo (chan s n1) Rd, Fifo (chan s n2) Rd, Fifo (chan s n1) Wr, Fifo (chan s n2) Wr]"

definition final_event :: "nat \<Rightarrow> epoll_event \<Rightarrow> epoll_event" where
  "final_event n e = e\<lparr>data := 3 + word_of_nat n\<rparr>"

definition served :: "nat \<Rightarrow> epoll \<Rightarrow> string \<Rightarrow> string \<Rightarrow> server \<Rightarrow> server" where
  "served k m n1 n2 s =
     (let e = final_event (length (s_fds s)) (event (Clients s ! k)) in
      s\<lparr>fifos := insert (chan s n2) (insert (chan s n1) (fifos s)), s_fds := s_fds s @ client_fds s n1 n2,
        rsp := rsp s @ DEFAULT_RSP, Clients := (Clients s)[k := (Clients s ! k)\<lparr>event := e\<rparr>], ep := Some (m(0 \<mapsto> e))\<rparr>)"

lemma s_register_ok:
  assumes "good_name n1" and "good_name n2" and "k < length (Clients s)"
    and "fifo_tx (Clients s ! k) = n1" and "fifo_rx (Clients s ! k) = n2"
    and "None \<notin> set (s_fds s)" and "length (s_fds s) + 4 \<le> limit s" and "ep s = Some m"
  shows "s_register k s = (if m 0 = None then Inr (served k m n1 n2 s) else Inl (Exit 1))"
  using assms
  by (cases "m 0") (simp_all add: s_register_def s_register_open_def s_register_add_def s_mkfifo_ok s_open_fifo_ok Let_def with_client_def epoll_ctl_add_def
      set_fd_def set_u32_def served_def client_fds_def chan_def final_event_def)

lemma register_turn_string:
  assumes "CHR 0x00 \<notin> set req" and "length req < 1023" and "req \<noteq> []"
  shows "s_register_turn (req @ [CHR 0x0A]) (zeros, s) =
    (case s_check_reg_request req s of Inl e \<Rightarrow> Inl e | Inr (r, s) \<Rightarrow>
      if r = -1 then Inr (zeros, s)
      else (case s_register (client_max s - 1) s of Inl e \<Rightarrow> Inl e | Inr s \<Rightarrow> Inr (zeros, s)))"
proof -
  let ?rest = "replicate (1023 - length req) (CHR 0x00)"
  let ?buf = "req @ [CHR 0x0A] @ ?rest"
  have buf: "take REQ_SZ (req @ [CHR 0x0A]) @ drop (length (req @ [CHR 0x0A])) zeros = ?buf"
    using assms(2) by (simp add: zeros_def REQ_SZ_def)
  have "takeWhile (\<lambda>c. c \<noteq> CHR 0x00) ((req @ [CHR 0x0A]) @ ?rest) = req @ [CHR 0x0A] @ takeWhile (\<lambda>c. c \<noteq> CHR 0x00) ?rest"
    using assms(1) by (subst takeWhile_append2) auto
  then have str: "c_string ?buf = Inr (req @ [CHR 0x0A])"
    using assms(2) by (simp add: c_string_def takeWhile_replicate)
  have zero: "?buf[length req := CHR 0x00] = req @ CHR 0x00 # ?rest" by simp
  have "zeros = replicate (length req + (1 + (1023 - length req))) (CHR 0x00)"
    using assms(2) by (simp add: zeros_def REQ_SZ_def)
  also have "\<dots> = replicate (length req) (CHR 0x00) @ CHR 0x00 # ?rest"
    unfolding replicate_add by simp
  finally have clear: "replicate (length req) (CHR 0x00) @ CHR 0x00 # ?rest = zeros" ..
  show ?thesis
    unfolding s_register_turn_def s_receive_def prod.case Let_def buf str sum.case
    by (simp add: zero clear split: sum.split)
qed

lemma register_client_turn:
  assumes "good_name n1" and "good_name n2" and "client_max s < length (Clients s)"
    and "None \<notin> set (s_fds s)" and "length (s_fds s) + 4 \<le> limit s" and "ep s = Some m"
  shows "s_register_turn (reg_command (CN_FIFO_REL @ n1) (CN_FIFO_REL @ n2)) (zeros, s) =
    (if m 0 = None then Inr (zeros, served (client_max s) m n1 n2 (registered n1 n2 s)) else Inl (Exit 1))"
proof -
  let ?req = "''REGISTER '' @ (CN_FIFO_REL @ n1) @ '' '' @ CN_FIFO_REL @ n2"
  have cmd: "reg_command (CN_FIFO_REL @ n1) (CN_FIFO_REL @ n2) = ?req @ [CHR 0x0A]"
    by (simp add: reg_command_def)
  have req: "CHR 0x00 \<notin> set ?req" "length ?req < 1023" "?req \<noteq> []"
    using assms(1,2) by (auto simp: good_name_def CN_FIFO_REL_def)
  have check: "s_check_reg_request ?req s = Inr (0, registered n1 n2 s)"
    using assms(1-3) by (rule check_request_ok)
  have max: "client_max (registered n1 n2 s) - 1 = client_max s" by (simp add: registered_def)
  have reg: "s_register (client_max s) (registered n1 n2 s) =
      (if m 0 = None then Inr (served (client_max s) m n1 n2 (registered n1 n2 s)) else Inl (Exit 1))"
    using assms by (intro s_register_ok) (simp_all add: registered_def)
  show ?thesis
    unfolding cmd register_turn_string [OF req] check sum.case prod.case max reg by simp
qed

lemma cn_mkfifo_path_ok:
  assumes "\<bar>pid\<bar> < 2 ^ 31" and "suf = ''tx'' \<or> suf = ''rx''"
  shows "cn_mkfifo_path pid suf = Inr (CN_FIFO_REL @ fifo_name pid suf)"
proof -
  have "length (fifo_name pid suf) \<le> 107" using assms by (intro fifo_name_short) auto
  then show ?thesis
    by (simp add: cn_mkfifo_path_def strcat_into_def fifo_name_def CN_FIFO_REL_def CN_MAX_PATH_def)
qed

text \<open>A server after its preparation, with room for \<open>k\<close> more clients.\<close>

definition server_ready :: "nat \<Rightarrow> server \<Rightarrow> bool" where
  "server_ready k s \<longleftrightarrow> length (Clients s) = MAX_CLIENT \<and> client_max s + k \<le> MAX_CLIENT \<and>
     None \<notin> set (s_fds s) \<and> length (s_fds s) + 4 * k \<le> limit s \<and> ep s = Some Map.empty"

lemma served_simps [simp]:
  "cwd (served k m n1 n2 s) = cwd s" "limit (served k m n1 n2 s) = limit s"
  "rsp (served k m n1 n2 s) = rsp s @ DEFAULT_RSP" "client_max (served k m n1 n2 s) = client_max s"
  "length (Clients (served k m n1 n2 s)) = length (Clients s)"
  "fifos (served k m n1 n2 s) = insert (chan s n2) (insert (chan s n1) (fifos s))"
  "s_fds (served k m n1 n2 s) = s_fds s @ client_fds s n1 n2"
  by (simp_all add: served_def Let_def)

lemma registered_simps [simp]:
  "cwd (registered n1 n2 s) = cwd s" "limit (registered n1 n2 s) = limit s" "rsp (registered n1 n2 s) = rsp s"
  "client_max (registered n1 n2 s) = client_max s + 1" "fifos (registered n1 n2 s) = fifos s"
  "length (Clients (registered n1 n2 s)) = length (Clients s)" "s_fds (registered n1 n2 s) = s_fds s"
  "chan (registered n1 n2 s) n = chan s n" "client_fds (registered n1 n2 s) n1 n2 = client_fds s n1 n2"
  by (simp_all add: registered_def chan_def client_fds_def)

section \<open>The properties\<close>

text \<open>C29. Registration, from the client's path names to the server's table: for every process id, the
  command line the client builds makes the server enter the client in the next free slot as
  active, open both its FIFOs at both ends and answer with the text the client expects; and the
  files the server opened are the very files the client opens with the paths it sent, although
  the server keeps only their last components and the client puts its directory in front twice.\<close>

theorem registration_roundtrip:
  assumes "server_ready 1 s" and "cwd s = base @ [''server'', x]" and "\<bar>pid\<bar> < 2 ^ 31"
    and tx: "cn_mkfifo_path pid ''tx'' = Inr tx" and rx: "cn_mkfifo_path pid ''rx'' = Inr rx"
  shows "\<exists>s' cl. s_register_turn (reg_command tx rx) (zeros, s) = Inr (zeros, s') \<and>
    client_max s' = client_max s + 1 \<and> cl = Clients s' ! client_max s \<and> is_active cl = 1 \<and>
    rsp s' = rsp s @ CN_DEFAULT_RSP \<and>
    resolve (cwd s') (S_FIFO_REL @ fifo_tx cl) = resolve (base @ [''client'', y]) (CN_FIFO_REL @ tx) \<and>
    resolve (cwd s') (S_FIFO_REL @ fifo_rx cl) = resolve (base @ [''client'', y]) (CN_FIFO_REL @ rx) \<and>
    s_fds s' = s_fds s @ client_fds s (fifo_tx cl) (fifo_rx cl)"
proof -
  let ?n1 = "fifo_name pid ''tx''" and ?n2 = "fifo_name pid ''rx''"
  let ?s = "served (client_max s) Map.empty ?n1 ?n2 (registered ?n1 ?n2 s)"
  have good: "good_name ?n1" "good_name ?n2" using assms(3) by (auto intro: good_fifo_name)
  have paths: "tx = CN_FIFO_REL @ ?n1" "rx = CN_FIFO_REL @ ?n2"
    using tx rx cn_mkfifo_path_ok [OF assms(3)] by simp_all
  have slot: "client_max s < length (Clients s)" using assms(1) by (simp add: server_ready_def)
  have turn: "s_register_turn (reg_command tx rx) (zeros, s) = Inr (zeros, ?s)"
    using register_client_turn [OF good slot, of Map.empty] assms(1) by (simp add: server_ready_def paths)
  have cl: "fifo_tx (Clients ?s ! client_max s) = ?n1" "fifo_rx (Clients ?s ! client_max s) = ?n2"
      "is_active (Clients ?s ! client_max s) = 1"
    using slot by (simp_all add: served_def registered_def Let_def)
  have res: "resolve (cwd s) (S_FIFO_REL @ n) = resolve (base @ [''client'', y]) (CN_FIFO_REL @ CN_FIFO_REL @ n)"
    if "good_name n" for n
    using that server_path [of n base x] client_path_twice [of n base y] by (simp add: good_name_def assms(2))
  show ?thesis
    by (intro exI [of _ ?s] exI [of _ "Clients ?s ! client_max s"])
       (simp add: turn [unfolded paths] cl paths res good CN_DEFAULT_RSP_def DEFAULT_RSP_def)
qed

definition demo_server :: server where
  "demo_server = \<lparr>cwd = [''home'', ''server'', ''build''], limit = 1024, s_fds = replicate 7 (Some Std), fifos = {},
     rsp = [], Clients = replicate MAX_CLIENT empty_client, client_max = 0, s_fifo_reg_fd_r = 3,
     s_fifo_rsp_fd_w = 6, ep = Some Map.empty\<rparr>"

lemma demo_server_ready: "k \<le> 2 \<Longrightarrow> server_ready k demo_server"
  by (simp add: server_ready_def demo_server_def server_consts)

theorem registration_roundtrip_witness:
  "\<exists>s' cl. s_register_turn (reg_command ''../../server/channels/fifo42_tx'' ''../../server/channels/fifo42_rx'')
      (zeros, demo_server) = Inr (zeros, s') \<and> client_max s' = 1 \<and> cl = Clients s' ! 0 \<and> is_active cl = 1 \<and>
    resolve (cwd s') (S_FIFO_REL @ fifo_tx cl) = [''home'', ''server'', ''channels'', ''fifo42_tx'']"
proof -
  have tx: "cn_mkfifo_path 42 ''tx'' = Inr ''../../server/channels/fifo42_tx''"
    and rx: "cn_mkfifo_path 42 ''rx'' = Inr ''../../server/channels/fifo42_rx''"
    by code_simp+
  have path: "resolve ([''home''] @ [''client'', ''build'']) (CN_FIFO_REL @ ''../../server/channels/fifo42_tx'') =
      [''home'', ''server'', ''channels'', ''fifo42_tx'']"
    by code_simp
  have cwd: "cwd demo_server = [''home''] @ [''server'', ''build'']" "client_max demo_server = 0"
    by (simp_all add: demo_server_def)
  from registration_roundtrip [OF demo_server_ready cwd(1) _ tx rx, of "''build''"] show ?thesis
    unfolding path cwd(2) by auto
qed

lemma sint_small: "n < 2 ^ 20 \<Longrightarrow> sint (3 + word_of_nat n :: 32 word) = int n + 3"
proof -
  assume n: "n < 2 ^ 20"
  have "(3 + word_of_nat n :: 32 word) = word_of_int (int n + 3)" by simp
  then have "sint (3 + word_of_nat n :: 32 word) = signed_take_bit 31 (int n + 3)"
    by (simp only: sint_sbintrunc') simp
  also have "\<dots> = int n + 3" using n by (intro signed_take_bit_int_eq_self) simp_all
  finally show ?thesis .
qed

text \<open>C30. The second client ends the server. After the first registration the epoll instance watches
  standard input, with an event whose descriptor is the write end of the client's receiving FIFO:
  the descriptor its requests come in was stored in the same bytes and is lost. A second valid
  registration then fails to add standard input once more, and the server exits, after it has
  already answered the client.\<close>

theorem second_registration_kills_server:
  assumes "server_ready 2 s" and "\<bar>pid1\<bar> < 2 ^ 31" and "\<bar>pid2\<bar> < 2 ^ 31" and "limit s \<le> 2 ^ 20"
    and c1: "c1 = reg_command (CN_FIFO_REL @ fifo_name pid1 ''tx'') (CN_FIFO_REL @ fifo_name pid1 ''rx'')"
    and c2: "c2 = reg_command (CN_FIFO_REL @ fifo_name pid2 ''tx'') (CN_FIFO_REL @ fifo_name pid2 ''rx'')"
  shows "(\<exists>s' e. s_register_clients [c1] (zeros, s) = Inr (zeros, s') \<and> ep s' = Some [0 \<mapsto> e] \<and>
      fd_get (nat (get_fd e)) (s_fds s') = Some (Fifo (chan s (fifo_name pid1 ''rx'')) Wr)) \<and>
    s_register_clients [c1, c2] (zeros, s) = Inl (Exit 1)"
proof -
  let ?n1 = "fifo_name pid1 ''tx''" and ?n2 = "fifo_name pid1 ''rx''"
  let ?s = "served (client_max s) Map.empty ?n1 ?n2 (registered ?n1 ?n2 s)"
  let ?e = "final_event (length (s_fds s)) (event (Clients s ! client_max s))"
  have good: "good_name ?n1" "good_name ?n2" "good_name (fifo_name pid2 ''tx'')" "good_name (fifo_name pid2 ''rx'')"
    using assms(2,3) by (auto intro: good_fifo_name)
  have slot: "client_max s < length (Clients s)" "client_max s + 1 < length (Clients s)"
    using assms(1) by (simp_all add: server_ready_def)
  have first: "s_register_turn c1 (zeros, s) = Inr (zeros, ?s)"
    using register_client_turn [OF good(1,2) slot(1), of Map.empty] assms(1) by (simp add: server_ready_def c1)
  have ep: "ep ?s = Some [0 \<mapsto> ?e]"
    using slot by (simp add: served_def Let_def registered_def)
  have second: "s_register_turn c2 (zeros, ?s) = Inl (Exit 1)"
    unfolding c2 using register_client_turn [OF good(3,4) _ _ _ ep] assms(1) slot
    by (auto simp: server_ready_def client_fds_def)
  have "length (s_fds s) < 2 ^ 20" using assms(1,4) by (simp add: server_ready_def)
  then have "get_fd ?e = int (length (s_fds s) + 3)"
    by (simp add: get_fd_def final_event_def sint_small)
  then have "nat (get_fd ?e) = length (s_fds s) + 3" by simp
  then have "fd_get (nat (get_fd ?e)) (s_fds ?s) = Some (Fifo (chan s ?n2) Wr)"
    by (simp add: fd_get_def client_fds_def nth_append)
  then show ?thesis
    by (intro conjI exI [of _ ?s] exI [of _ ?e]) (simp_all add: first second ep del: served_simps)
qed

theorem second_registration_kills_server_witness:
  "s_register_clients [reg_command (CN_FIFO_REL @ fifo_name 42 ''tx'') (CN_FIFO_REL @ fifo_name 42 ''rx''),
     reg_command (CN_FIFO_REL @ fifo_name 43 ''tx'') (CN_FIFO_REL @ fifo_name 43 ''rx'')] (zeros, demo_server) =
   Inl (Exit 1)"
proof -
  have "limit demo_server \<le> 2 ^ 20" by (simp add: demo_server_def)
  with second_registration_kills_server [OF demo_server_ready _ _ _ refl refl, of 42 43] show ?thesis by simp
qed

section \<open>Which requests register a client\<close>

text \<open>
  The test as a condition on the words of the request: nothing at all, or the command with at most
  two arguments.
\<close>

definition accepts :: "string list \<Rightarrow> bool" where
  "accepts ws \<longleftrightarrow> ws = [] \<or> hd ws = ''REGISTER'' \<and> length ws \<le> 3"

definition path_like :: "string \<Rightarrow> bool" where
  "path_like p \<longleftrightarrow> CHR ''/'' \<in> set p \<and> length p < MAX_PATH"

lemma name_of_path_like:
  assumes "path_like p"
  obtains n where "name_of p = Inr n" and "length n < MAX_PATH"
proof -
  have l: "length (takeWhile (\<lambda>d. d \<noteq> CHR ''/'') (rev p)) \<le> length p"
    using length_takeWhile_le [of _ "rev p"] by simp
  with assms have "name_of p = Inr (rev (takeWhile (\<lambda>d. d \<noteq> CHR ''/'') (rev p)))"
    by (simp add: path_like_def name_of_def strrchr_def strcat_into_def)
  with l assms that show thesis by (simp add: path_like_def)
qed

lemma reg_tokens_decision:
  assumes "\<forall>p \<in> set (take 2 (tl ws)). path_like p" and "client_max s < length (Clients s)"
  shows "\<exists>s'. reg_tokens ws 0 s = Inr (if accepts ws then 0 else -1, s') \<and>
    client_max s' = client_max s \<and> length (Clients s') = length (Clients s)"
proof (cases ws)
  case Nil
  then show ?thesis by (simp add: accepts_def)
next
  case (Cons c ps)
  note ws = this
  show ?thesis
  proof (cases ps)
    case Nil
    then show ?thesis using ws by (simp add: accepts_def)
  next
    case (Cons p qs)
    note ps = this
    with assms(1) ws obtain n where n: "name_of p = Inr n" by (auto elim: name_of_path_like)
    show ?thesis
    proof (cases qs)
      case Nil
      then show ?thesis using ws ps n assms(2) by (simp add: accepts_def with_client_def)
    next
      case (Cons q rs)
      with assms(1) ws ps obtain m where "name_of q = Inr m" by (auto elim: name_of_path_like)
      with Cons ws ps n assms(2) show ?thesis by (cases rs) (simp_all add: accepts_def with_client_def)
    qed
  qed
qed

text \<open>The parser of registration requests is equivalent to the condition \<open>accepts\<close> on the words between
  the blanks: a request of no words at all, or of \<open>REGISTER\<close> and at most two paths, registers a
  client, everything else is refused, and the number of clients changes exactly on acceptance.
  So one stray character and a newline, or a command without names, register a client.\<close>

theorem registration_decision:
  assumes "length request < CMD_SZ" and "client_max s < length (Clients s)"
    and "ws = filter (\<lambda>w. w \<noteq> []) (pieces {CHR '' ''} request)"
    and "\<forall>p \<in> set (take 2 (tl ws)). path_like p"
  shows "\<exists>s'. s_check_reg_request request s = Inr (if accepts ws then 0 else -1, s') \<and>
    client_max s' = client_max s + (if accepts ws then 1 else 0)"
proof -
  obtain s' where r: "reg_tokens ws 0 s = Inr (if accepts ws then 0 else -1, s')"
      and "client_max s' = client_max s" and "length (Clients s') = length (Clients s)"
    using reg_tokens_decision [OF assms(4,2)] by blast
  moreover have "strtok_all {CHR '' ''} request = ws" unfolding assms(3) by (rule strtok_all_pieces)
  ultimately show ?thesis
    using assms(1,2) by (cases "accepts ws") (simp_all add: s_check_reg_request_def strcat_into_def with_client_def)
qed

theorem registration_decision_witness:
  "(\<exists>s'. s_check_reg_request [] demo_server = Inr (0, s') \<and> client_max s' = 1) \<and>
   (\<exists>s'. s_check_reg_request ''REGISTER a/b c/d e'' demo_server = Inr (-1, s') \<and> client_max s' = 0)"
proof
  have "client_max demo_server < length (Clients demo_server)" by (simp add: demo_server_def server_consts)
  note rd = registration_decision [OF _ this refl]
  show "\<exists>s'. s_check_reg_request [] demo_server = Inr (0, s') \<and> client_max s' = 1"
    using rd [of "[]"] by (simp add: accepts_def demo_server_def server_consts)
  have "\<forall>p \<in> set (take 2 (tl [''REGISTER'', ''a/b'', ''c/d'', ''e''])). path_like p"
    by (simp add: path_like_def server_consts)
  then show "\<exists>s'. s_check_reg_request ''REGISTER a/b c/d e'' demo_server = Inr (-1, s') \<and> client_max s' = 0"
    using rd [of "''REGISTER a/b c/d e''"] by (simp add: accepts_def demo_server_def server_consts)
qed

section \<open>The table of clients\<close>

definition client_ok :: "bool \<Rightarrow> Client \<Rightarrow> bool" where
  "client_ok b c \<longleftrightarrow> length (fifo_tx c) < MAX_PATH \<and> CHR ''/'' \<notin> set (fifo_tx c) \<and>
     length (fifo_rx c) < MAX_PATH \<and> CHR ''/'' \<notin> set (fifo_rx c) \<and>
     is_active c = (if b then 1 else 0) \<and> events (event c) = EPOLLIN"

definition clients_wf :: "server \<Rightarrow> bool" where
  "clients_wf s \<longleftrightarrow> length (Clients s) = MAX_CLIENT \<and> client_max s \<le> MAX_CLIENT \<and>
     (\<forall>i < MAX_CLIENT. client_ok (i < client_max s) (Clients s ! i))"

definition epoll_used :: "server \<Rightarrow> bool" where
  "epoll_used s \<longleftrightarrow> (\<exists>m. ep s = Some m \<and> m 0 \<noteq> None)"

lemma name_of_clean: "name_of p = Inr n \<Longrightarrow> CHR ''/'' \<notin> set n \<and> length n < MAX_PATH"
  by (auto simp: name_of_def strrchr_def strcat_into_def split: if_splits dest: set_takeWhileD)

lemma with_client_wf:
  assumes "with_client i f s = Inr t" and "clients_wf s"
    and "\<And>c. client_ok (i < client_max s) c \<Longrightarrow> client_ok (i < client_max s) (f c)"
  shows "clients_wf t \<and> client_max t = client_max s \<and> ep t = ep s"
  using assms by (auto simp: with_client_def clients_wf_def nth_list_update split: if_splits)

lemma reg_tokens_wf:
  "reg_tokens ws i s = Inr (r, t) \<Longrightarrow> clients_wf s \<Longrightarrow>
   clients_wf t \<and> client_max t = client_max s \<and> ep t = ep s"
proof (induction ws i s rule: reg_tokens.induct)
  case (1 i s)
  then show ?case by simp
next
  case (2 p ps i s)
  have slot: "with_client (client_max s) (\<lambda>c. c\<lparr>fifo_tx := n\<rparr>) s = Inr u \<Longrightarrow> name_of p = Inr n \<Longrightarrow>
      clients_wf u \<and> client_max u = client_max s \<and> ep u = ep s"
    "with_client (client_max s) (\<lambda>c. c\<lparr>fifo_rx := n\<rparr>) s = Inr u \<Longrightarrow> name_of p = Inr n \<Longrightarrow>
      clients_wf u \<and> client_max u = client_max s \<and> ep u = ep s" for n u
    by (auto intro!: with_client_wf [OF _ "2.prems"(2)] dest: name_of_clean simp: client_ok_def)
  from "2.prems"(1) consider "i = 0" "p = ''REGISTER''" "reg_tokens ps (i + 1) s = Inr (r, t)"
    | "t = s"
    | n u where "i = 1" "name_of p = Inr n" "with_client (client_max s) (\<lambda>c. c\<lparr>fifo_tx := n\<rparr>) s = Inr u"
        "reg_tokens ps (i + 1) u = Inr (r, t)"
    | n u where "i = 2" "name_of p = Inr n" "with_client (client_max s) (\<lambda>c. c\<lparr>fifo_rx := n\<rparr>) s = Inr u"
        "reg_tokens ps (i + 1) u = Inr (r, t)"
    by (auto split: if_splits sum.splits)
  then show ?case
  proof cases
    case 1
    then show ?thesis using "2.IH"(1) "2.prems"(2) by simp
  next
    case 2
    then show ?thesis using "2.prems"(2) by simp
  next
    case 3
    then show ?thesis using slot(1) [OF 3(3,2)] "2.IH"(2) [of n u] by simp
  next
    case 4
    then show ?thesis using slot(2) [OF 4(3,2)] "2.IH"(3) [of n u] by simp
  qed
qed

lemma check_request_wf:
  assumes "s_check_reg_request req s = Inr (r, t)" and "clients_wf s"
  shows "clients_wf t \<and> ep t = ep s \<and> client_max t = client_max s + (if r = -1 then 0 else 1)"
proof -
  from assms(1) obtain ws r' u where tok: "reg_tokens ws 0 s = Inr (r', u)"
      and r: "if r' = -1 then r = -1 \<and> t = u
        else r = 0 \<and> (\<exists>v. with_client (client_max u) (\<lambda>c. c\<lparr>is_active := 1\<rparr>) u = Inr v \<and>
          t = v\<lparr>client_max := client_max v + 1\<rparr>)"
    by (auto simp: s_check_reg_request_def strcat_into_def split: sum.splits if_splits)
  have u: "clients_wf u" "client_max u = client_max s" "ep u = ep s"
    using reg_tokens_wf [OF tok assms(2)] by simp_all
  show ?thesis
  proof (cases "r' = -1")
    case True
    with r u show ?thesis by simp
  next
    case False
    with r obtain v where "with_client (client_max u) (\<lambda>c. c\<lparr>is_active := 1\<rparr>) u = Inr v"
      and "t = v\<lparr>client_max := client_max v + 1\<rparr>" and "r = 0" by auto
    with u show ?thesis
      by (auto simp: with_client_def clients_wf_def client_ok_def nth_list_update less_Suc_eq split: if_splits)
  qed
qed

lemma s_mkfifo_frame:
  "s_mkfifo n s = Inr t \<Longrightarrow> Clients t = Clients s \<and> client_max t = client_max s \<and> ep t = ep s"
  by (auto simp: s_mkfifo_def split: sum.splits if_splits)

lemma s_open_fifo_frame:
  "s_open_fifo n a s = Inr (fd, t) \<Longrightarrow> Clients t = Clients s \<and> client_max t = client_max s \<and> ep t = ep s"
  by (auto simp: s_open_fifo_def split: sum.splits if_splits option.splits)

lemma s_register_frame:
  assumes "s_register k s = Inr t"
  shows "client_max t = client_max s \<and> \<not> epoll_used s \<and> epoll_used t \<and>
    (\<exists>d. Clients t = (Clients s)[k := (Clients s ! k)\<lparr>event := (event (Clients s ! k))\<lparr>data := d\<rparr>\<rparr>])"
  using assms
  by (auto simp: s_register_def s_register_open_def s_register_add_def Let_def with_client_def epoll_ctl_add_def set_fd_def set_u32_def epoll_used_def
      split: sum.splits if_splits option.splits dest!: s_mkfifo_frame s_open_fifo_frame) blast+

lemma client_ok_event [simp]: "client_ok b (c\<lparr>event := (event c)\<lparr>data := d\<rparr>\<rparr>) = client_ok b c"
  by (simp add: client_ok_def)

lemma s_register_wf:
  assumes "s_register k s = Inr t" and "clients_wf s"
  shows "clients_wf t"
  using s_register_frame [OF assms(1)] assms(2)
  by (cases "k < length (Clients s)") (auto simp: clients_wf_def nth_list_update)

text \<open>Between two requests: a proper table, and at most one client, whose event is in the instance.\<close>

definition server_good :: "server \<Rightarrow> bool" where
  "server_good s \<longleftrightarrow> clients_wf s \<and> client_max s = (if epoll_used s then 1 else 0)"

lemma register_turn_good:
  assumes "s_register_turn chunk (req, s) = Inr (req', t)" and "server_good s"
  shows "server_good t"
proof -
  from assms(1) consider "t = s"
    | str r where "s_check_reg_request str s = Inr (r, t)" "r = -1"
    | str r u where "s_check_reg_request str s = Inr (r, u)" "r \<noteq> -1" "s_register (client_max u - 1) u = Inr t"
    by (auto simp: s_register_turn_def s_receive_def Let_def split: sum.splits if_splits)
  then show ?thesis
  proof cases
    case 1
    then show ?thesis using assms(2) by simp
  next
    case 2
    then show ?thesis using check_request_wf assms(2) by (auto simp: server_good_def epoll_used_def)
  next
    case 3
    then have u: "clients_wf u" "ep u = ep s" "client_max u = client_max s + 1"
      using check_request_wf [OF 3(1)] assms(2) by (simp_all add: server_good_def)
    then show ?thesis
      using s_register_wf [OF 3(3)] s_register_frame [OF 3(3)] assms(2)
      by (auto simp: server_good_def epoll_used_def)
  qed
qed

lemma register_clients_good:
  "s_register_clients chunks (req, s) = Inr (req', t) \<Longrightarrow> server_good s \<Longrightarrow> server_good t"
proof (induction chunks arbitrary: req s)
  case Nil
  then show ?case by simp
next
  case (Cons c cs)
  from Cons.prems(1) obtain req1 s1 where "s_register_turn c (req, s) = Inr (req1, s1)"
    and "s_register_clients cs (req1, s1) = Inr (req', t)" by (auto split: sum.splits)
  with Cons show ?case using register_turn_good by blast
qed

lemma s_epoll_create_frame:
  "s_epoll_create s = Inr t \<Longrightarrow> Clients t = Clients s \<and> client_max t = client_max s \<and> ep t = Some Map.empty"
  by (auto simp: s_epoll_create_def split: option.splits)

lemma s_prepare_good:
  assumes "s_prepare s0 = Inr s" and "client_max s0 = 0" and "ep s0 = None"
  shows "server_good s \<and> ep s = None \<and> client_max s = 0"
proof -
  have "Clients s = replicate MAX_CLIENT empty_client" "client_max s = 0" "ep s = None"
    using assms by (auto simp: s_prepare_def split: sum.splits dest!: s_mkfifo_frame s_open_fifo_frame)
  then show ?thesis
    by (simp add: server_good_def clients_wf_def epoll_used_def client_ok_def empty_client_def
        set_fd_def set_u32_def MAX_PATH_def)
qed

lemma s_epoll_create_good: "s_epoll_create s = Inr t \<Longrightarrow> server_good s \<Longrightarrow> ep s = None \<Longrightarrow> server_good t"
  by (auto simp: server_good_def clients_wf_def epoll_used_def dest!: s_epoll_create_frame)

text \<open>The table of clients keeps its shape: whatever arrives in the registration FIFO, and however
  late the epoll thread starts, as long as the server runs its table has 64 entries, every name in
  it fits its field and has no slash, the active entries are exactly those below \<open>client_max\<close>,
  every event waits for input, and \<open>client_max\<close> never exceeds 1, so the unchecked index never
  leaves the table.\<close>

theorem clients_well_formed:
  assumes "s_main early chunks s0 = Inr (req, t)" and "client_max s0 = 0" and "ep s0 = None"
  shows "clients_wf t \<and> client_max t \<le> 1"
proof -
  from assms(1) obtain s u where s: "s_prepare s0 = Inr s"
    and u: "(if early then s_epoll_create s else Inr s) = Inr u"
    and t: "s_register_clients chunks (zeros, u) = Inr (req, t)"
    by (auto simp: s_main_def split: sum.splits)
  have "server_good s" "ep s = None" using s_prepare_good [OF s assms(2,3)] by simp_all
  then have "server_good u" using u s_epoll_create_good by (auto split: if_splits)
  with t have "server_good t" by (rule register_clients_good)
  then show ?thesis by (simp add: server_good_def)
qed

theorem clients_well_formed_witness:
  "\<exists>req t. s_main True [''x'' @ [CHR 0x0A]] (demo_server\<lparr>s_fds := replicate 3 (Some Std), ep := None\<rparr>) = Inr (req, t) \<and>
     clients_wf t \<and> client_max t \<le> 1"
proof -
  let ?s0 = "demo_server\<lparr>s_fds := replicate 3 (Some Std), ep := None\<rparr>"
  have reg: "good_name S_FIFO_REG" "good_name S_FIFO_RSP"
    by (simp_all add: good_name_def S_FIFO_REG_def S_FIFO_RSP_def)
  obtain s where s: "s_prepare ?s0 = Inr s" "length (s_fds s) < limit s" "None \<notin> set (s_fds s)"
    by (simp add: s_prepare_def s_mkfifo_ok reg s_open_fifo_ok demo_server_def)
  then obtain u where u: "s_epoll_create s = Inr u" by (simp add: s_epoll_create_def fd_open_full)
  have "s_check_reg_request ''x'' u = Inr (-1, u)"
    by (simp add: s_check_reg_request_def strcat_into_def CMD_SZ_def strtok_all_pieces)
  then have "s_register_clients [''x'' @ [CHR 0x0A]] (zeros, u) = Inr (zeros, u)"
    using register_turn_string [of "''x''" u] by simp
  then have t: "s_main True [''x'' @ [CHR 0x0A]] ?s0 = Inr (zeros, u)"
    by (simp add: s_main_def s u)
  show ?thesis using t clients_well_formed [OF t] by (auto simp: demo_server_def)
qed

section \<open>Descriptors\<close>

text \<open>What a server has left to open; no descriptor of a client is ever closed.\<close>

definition room :: "server \<Rightarrow> nat" where
  "room s = card (free_fds (limit s) (\<lambda>i. fd_get i (s_fds s)))"

lemma s_mkfifo_fds: "s_mkfifo n s = Inr t \<Longrightarrow> s_fds t = s_fds s \<and> limit t = limit s"
  by (auto simp: s_mkfifo_def split: sum.splits if_splits)

lemma s_open_fifo_fds:
  assumes "s_open_fifo n a s = Inr (fd, t)" and "length (s_fds s) \<le> limit s"
  shows "room s = Suc (room t) \<and> limit t = limit s \<and> length (s_fds t) \<le> limit t"
proof -
  obtain d tab where op: "fd_open (limit s) d (s_fds s) = Some (fd, tab)" and t: "t = s\<lparr>s_fds := tab\<rparr>"
    using assms(1) by (auto simp: s_open_fifo_def split: sum.splits if_splits option.splits)
  show ?thesis using cfd.new_takes_one [OF assms(2) op] cfd.new_some [OF assms(2) op] by (simp add: room_def t)
qed

lemma s_register_open_takes_four:
  assumes "s_register_open k s = Inr t" and "length (s_fds s) \<le> limit s"
  shows "room s = room t + 4"
proof -
  let ?c = "Clients s ! k"
  obtain s1 s2 f3 s3 f4 s4 f5 s5 f6 s6 where
    st: "s_mkfifo (fifo_tx ?c) s = Inr s1" "s_mkfifo (fifo_rx ?c) s1 = Inr s2"
      "s_open_fifo (fifo_tx ?c) Rd s2 = Inr (f3, s3)" "s_open_fifo (fifo_rx ?c) Rd s3 = Inr (f4, s4)"
      "s_open_fifo (fifo_tx ?c) Wr s4 = Inr (f5, s5)" "s_open_fifo (fifo_rx ?c) Wr s5 = Inr (f6, s6)"
    and t: "s_fds t = s_fds s6" "limit t = limit s6"
    using assms(1) by (auto simp: s_register_open_def with_client_def Let_def split: sum.splits if_splits)
  have s2: "room s2 = room s" "length (s_fds s2) \<le> limit s2"
    using s_mkfifo_fds [OF st(1)] s_mkfifo_fds [OF st(2)] assms(2) by (simp_all add: room_def)
  note a = s_open_fifo_fds [OF st(3) s2(2)]
  note b = s_open_fifo_fds [OF st(4)] and c = s_open_fifo_fds [OF st(5)] and d = s_open_fifo_fds [OF st(6)]
  have "room t = room s6" by (simp add: room_def t)
  then show ?thesis using a b c d s2(1) by simp
qed

end
