(* ===== verification/ClientProps.thy ===== *)
theory ClientProps
  imports MultiplexProps
begin








end
