(* ===== verification/EpollPool.thy ===== *)
theory EpollPool
  imports Server ThreadPool
begin

text \<open>
  Where the multiplexing server meets its thread pool: a turn of the loop of \<open>s_epoll\<close>
  (\<open>task7/multiplex-io/server/src/s_main.c\<close>) queues one job per ready event with
  \<open>thpool_add_work\<close>, and \<open>thread_do\<close> runs \<open>s_processing_request\<close> on the argument of the job.
\<close>

section \<open>A turn of the loop\<close>

text \<open>The function pointer of the jobs, in the numbering of the pool's model.\<close>

definition PROCESSING :: nat where
  "PROCESSING = 1"

text \<open>
  For every event the two calls of \<open>malloc\<close>: the block for the event, which is handed over as it
  is, and the job, which may fail. The result of \<open>thpool_add_work\<close> is not looked at.
\<close>

fun s_epoll_turn :: "(addr \<times> addr option) list \<Rightarrow> job_heap \<Rightarrow> jobqueue \<Rightarrow> c_error + job_heap \<times> jobqueue" where
  "s_epoll_turn [] h q = Inr (h, q)"
| "s_epoll_turn ((req_event, newjob) # evs) h q =
     (case thpool_add_work h q newjob PROCESSING req_event of Inl e \<Rightarrow> Inl e
      | Inr (r, h, q) \<Rightarrow> s_epoll_turn evs h q)"

text \<open>A worker runs a job: \<open>blocks\<close> are the contents of the event blocks.\<close>

definition run_job :: "(int \<Rightarrow> string option) \<Rightarrow> (addr \<Rightarrow> epoll_event) \<Rightarrow> work \<Rightarrow> c_error + (int \<times> string) list" where
  "run_job rd blocks = (\<lambda>(f, a). if f = PROCESSING then s_processing_request rd (blocks a) else Inr [])"

section \<open>What the worker does\<close>

text \<open>\<open>s_processing_request\<close> on every kind of input: a failing \<open>read\<close>, too few words, another command, \<open>GET\<close>.\<close>

lemma processing_cases:
  assumes "rd (get_fd e) = Some input" and "CHR 0x00 \<notin> set input" and "length input < MAX_REQUEST"
  shows "s_processing_request rd e =
    (case strtok_all {CHR '' ''} input of
       [] \<Rightarrow> Inl NullDeref
     | [cmd] \<Rightarrow> Inl NullDeref
     | cmd # path # rest \<Rightarrow> Inr (if cmd = ''GET'' then [(get_fd e, ''Hello!'')] else []))"
proof -
  let ?pad = "replicate (MAX_REQUEST - length input) (CHR 0x00)"
  have "takeWhile (\<lambda>c. c \<noteq> CHR 0x00) (input @ ?pad) = input @ takeWhile (\<lambda>c. c \<noteq> CHR 0x00) ?pad"
    using assms(2) by (intro takeWhile_append2) auto
  also have "takeWhile (\<lambda>c. c \<noteq> CHR 0x00) ?pad = []" by (simp add: takeWhile_replicate)
  finally have "c_string (take MAX_REQUEST input @ ?pad) = Inr input"
    using assms(3) by (simp add: c_string_def)
  then show ?thesis
    using assms(1) by (simp add: s_processing_request_def s_scan_request_def get_fd_def split: list.split)
qed

lemma processing_unreadable: "rd (get_fd e) = None \<Longrightarrow> s_processing_request rd e = Inr []"
  by (simp add: s_processing_request_def s_scan_request_def)

section \<open>What is queued\<close>

definition new_jobs :: "(addr \<times> addr option) list \<Rightarrow> addr list" where
  "new_jobs evs = List.map_filter snd evs"

definition new_works :: "(addr \<times> addr option) list \<Rightarrow> work list" where
  "new_works evs = map (\<lambda>(a, p). (PROCESSING, a)) (filter (\<lambda>(a, p). p \<noteq> None) evs)"

lemma new_jobs_simps [simp]:
  "new_jobs [] = []" "new_jobs ((a, None) # evs) = new_jobs evs" "new_jobs ((a, Some x) # evs) = x # new_jobs evs"
  by (simp_all add: new_jobs_def List.map_filter_simps)

lemma new_works_simps [simp]:
  "new_works [] = []" "new_works ((a, None) # evs) = new_works evs"
  "new_works ((a, Some x) # evs) = (PROCESSING, a) # new_works evs"
  by (simp_all add: new_works_def)

text \<open>One submission, through the queue's interface.\<close>

lemma add_work_repr:
  assumes "jq_repr (h, q) as" and "h x = None"
  shows "\<exists>h' q'. thpool_add_work h q (Some x) f a = Inr (0, h', q') \<and> jq_repr (h', q') (as @ [x]) \<and>
    job_work h' = (job_work h)(x \<mapsto> (f, a)) \<and> v (has_jobs q') = 1"
proof -
  let ?h = "h(x \<mapsto> \<lparr>prev = None, job_fun = f, job_arg = a\<rparr>)"
  have new: "x \<notin> set as" using assms jq_repr_dom by blast
  then have "jq_repr (?h, q) as" using assms(1) by (simp add: jq_repr_frame)
  then obtain h' q' where "jobqueue_push ?h q x = Inr (h', q')" "jq_repr (h', q') (as @ [x])"
      "job_work h' = job_work ?h" "v (has_jobs q') = 1"
    using jobqueue_push_repr [of ?h q as x] new by auto
  moreover have "job_work ?h = (job_work h)(x \<mapsto> (f, a))"
    by (auto simp: job_work_def fun_eq_iff)
  ultimately show ?thesis by (simp add: thpool_add_work_def)
qed

lemma epoll_turn_repr:
  assumes "jq_repr (h, q) as" and "distinct (new_jobs evs)" and "\<forall>x \<in> set (new_jobs evs). h x = None"
  shows "\<exists>h' q'. s_epoll_turn evs h q = Inr (h', q') \<and> jq_repr (h', q') (as @ new_jobs evs) \<and>
    map (job_work h') (as @ new_jobs evs) = map (job_work h) as @ map Some (new_works evs) \<and>
    v (has_jobs q') = (if new_jobs evs = [] then v (has_jobs q) else 1)"
  using assms
proof (induction evs arbitrary: h q as)
  case Nil
  then show ?case by simp
next
  case (Cons e evs)
  obtain a p where e: "e = (a, p)" by (cases e)
  show ?case
  proof (cases p)
    case None
    with Cons e show ?thesis by (simp add: thpool_add_work_def)
  next
    case (Some x)
    have fresh: "h x = None" "x \<notin> set (new_jobs evs)" "distinct (new_jobs evs)"
      using Cons.prems(2,3) e Some by simp_all
    from add_work_repr [OF Cons.prems(1) fresh(1)] obtain h1 q1 where
      one: "thpool_add_work h q (Some x) PROCESSING a = Inr (0, h1, q1)" "jq_repr (h1, q1) (as @ [x])"
        "job_work h1 = (job_work h)(x \<mapsto> (PROCESSING, a))" "v (has_jobs q1) = 1" by blast
    have "\<forall>y \<in> set (new_jobs evs). h1 y = None"
    proof
      fix y
      assume y: "y \<in> set (new_jobs evs)"
      then have "job_work h y = None" using Cons.prems(3) e Some by (simp add: job_work_def)
      then have "job_work h1 y = None" using one(3) fresh(2) y by auto
      then show "h1 y = None" by (simp add: job_work_def)
    qed
    from Cons.IH [OF one(2) fresh(3) this] obtain h2 q2 where
      two: "s_epoll_turn evs h1 q1 = Inr (h2, q2)" "jq_repr (h2, q2) ((as @ [x]) @ new_jobs evs)"
        "map (job_work h2) ((as @ [x]) @ new_jobs evs) = map (job_work h1) (as @ [x]) @ map Some (new_works evs)"
        "v (has_jobs q2) = (if new_jobs evs = [] then v (has_jobs q1) else 1)" by blast
    have "x \<notin> set as" using Cons.prems(1) fresh(1) jq_repr_dom by blast
    then have "map (job_work h1) as = map (job_work h) as" using one(3) by auto
    with one two e Some show ?thesis by (simp split: if_splits)
  qed
qed

section \<open>The property\<close>

text \<open>The epoll thread and the pool together: a turn on any number of ready events never fails; it
  appends to the queue, behind the jobs already there and in the order of the events, one job for
  every event whose job could be allocated, each to run \<open>s_processing_request\<close> on the block
  allocated for the event, raises the flag the workers wait for, and pulling as many jobs yields
  exactly these blocks. An event whose job cannot be allocated is dropped, and the contents of a
  block are those \<open>malloc\<close> found there, not the event.\<close>

theorem epoll_turn_queues_requests:
  assumes "jq_repr (h, q) []" and "distinct (new_jobs evs)" and "\<forall>x \<in> set (new_jobs evs). h x = None"
  shows "\<exists>h' q' c. s_epoll_turn evs h q = Inr (h', q') \<and>
    run_fifo jq_enq jq_deq (h', q') (replicate (length (new_works evs)) Deq) = Inr (new_jobs evs, c) \<and>
    map (job_work h') (new_jobs evs) = map Some (new_works evs) \<and>
    v (has_jobs q') = (if new_works evs = [] then v (has_jobs q) else 1)"
proof -
  have len: "length (new_jobs evs) = length (new_works evs)"
    by (induction evs) (auto simp: new_jobs_def new_works_def List.map_filter_simps split: option.splits)
  from epoll_turn_repr [OF assms] obtain h' q' where
    t: "s_epoll_turn evs h q = Inr (h', q')" "jq_repr (h', q') (new_jobs evs)"
      "map (job_work h') (new_jobs evs) = map Some (new_works evs)"
      "v (has_jobs q') = (if new_jobs evs = [] then v (has_jobs q) else 1)" by auto
  from jq.drain [OF t(2)] obtain c where
    "run_fifo jq_enq jq_deq (h', q') (replicate (length (new_jobs evs)) Deq) = Inr (new_jobs evs, c)" by blast
  moreover have "new_works evs = [] \<longleftrightarrow> new_jobs evs = []" using len by (metis length_0_conv)
  ultimately show ?thesis using t len by auto
qed

theorem epoll_turn_queues_requests_witness:
  "\<exists>h' q' c. s_epoll_turn [(100, Some 5), (101, None), (102, Some 6)] Map.empty
      \<lparr>front = None, rear = None, has_jobs = \<lparr>v = 0\<rparr>, len = 0\<rparr> = Inr (h', q') \<and>
    run_fifo jq_enq jq_deq (h', q') [Deq, Deq] = Inr ([5, 6], c) \<and>
    map (job_work h') [5, 6] = [Some (PROCESSING, 100), Some (PROCESSING, 102)] \<and> v (has_jobs q') = 1"
proof -
  have "jq_repr (Map.empty, \<lparr>front = None, rear = None, has_jobs = \<lparr>v = 0\<rparr>, len = 0\<rparr>) []"
    by (simp add: jq_repr_def)
  from epoll_turn_queues_requests [OF this, of "[(100, Some 5), (101, None), (102, Some 6)]"]
  show ?thesis by (simp add: numeral_2_eq_2)
qed

end
