(* ===== verification/ServerRun.thy ===== *)
theory ServerRun
  imports MultiplexProps PoolProperties EpollPool
begin

text \<open>
  The server process as a whole (\<open>task7/multiplex-io/server/src/s_main.c\<close>): the main thread in
  \<open>s_register_clients\<close>, the thread of \<open>s_epoll\<close> and the workers of the thread pool, in any
  interleaving. The two critical sections of \<open>pmutex\<close> exclude each other; what a thread does
  between them touches no variable another thread uses, but for the table of descriptors, where
  \<open>epoll_create1\<close> takes its descriptor before or after the four openings of a registration.
\<close>

section \<open>State\<close>

definition THREAD_AMOUNT :: int where
  "THREAD_AMOUNT = 20"

definition MAX_EVENTS :: nat where
  "MAX_EVENTS = MAX_CLIENT"

text \<open>
  The main thread: in \<open>thpool_init\<close>, before a \<open>read\<close>, before its critical section with a client. The
  epoll thread: not created, before \<open>epoll_create1\<close>, before \<open>epoll_wait\<close>, in its critical section
  with the descriptors whose events are still to be handled.
\<close>

datatype main_pc = MainInit | MainRead | MainAdd nat

datatype epoll_pc = EpNone | EpCreate | EpWait | EpBatch "nat list"

text \<open>
  \<open>blocks\<close> are the blocks allocated for events, none of which is ever freed, \<open>writes\<close> what workers
  wrote, \<open>stopped\<close> how the process ended; \<open>seen\<close> is history, the descriptors of the events handled.
\<close>

record server_run =
  srv :: server
  request :: string
  main_at :: main_pc
  epoll_at :: epoll_pc
  tpool :: pool
  blocks :: "addr set"
  writes :: "(int \<times> string) list"
  stopped :: "c_error option"
  seen :: "nat list"

section \<open>Steps\<close>

text \<open>
  What the pool does by itself: the server calls \<open>thpool_init\<close> and \<open>thpool_add_work\<close> only.
\<close>

definition pool_moves :: "pool \<Rightarrow> pool \<Rightarrow> bool" where
  "pool_moves t t' \<longleftrightarrow> pool_step t t' \<and> submitted t' = submitted t \<and> usr1 t' = usr1 t \<and> waiter t' = waiter t \<and>
     main t' \<in> {MInit, MReady}"

text \<open>
  A worker's job on the argument \<open>a\<close>, \<open>NULL\<close> being 0: the block holds what \<open>malloc\<close> found there.
\<close>

definition job_result :: "(int \<Rightarrow> string option) \<Rightarrow> epoll_event \<Rightarrow> work \<Rightarrow> c_error + (int \<times> string) list" where
  "job_result rd found w = (if snd w = 0 then Inl NullDeref else run_job rd (\<lambda>_. found) w)"

text \<open>The result of \<open>malloc\<close> for an event: \<open>NULL\<close> or a fresh block.\<close>

definition new_block :: "server_run \<Rightarrow> addr \<Rightarrow> bool" where
  "new_block s b \<longleftrightarrow> b = 0 \<or> b \<notin> blocks s \<and> jobs (tpool s) b = None"

inductive server_step :: "server_run \<Rightarrow> server_run \<Rightarrow> bool" where
  \<comment> \<open>the workers, and the end of \<open>thpool_init\<close>\<close>
  pool_move: "stopped s = None \<Longrightarrow> pool_moves (tpool s) t \<Longrightarrow> finished t = finished (tpool s) \<Longrightarrow>
     server_step s (s\<lparr>tpool := t\<rparr>)"
| job_done: "stopped s = None \<Longrightarrow> pool_moves (tpool s) t \<Longrightarrow> finished t = finished (tpool s) @ [w] \<Longrightarrow>
     job_result rd found w = Inr ws \<Longrightarrow>
     server_step s (s\<lparr>tpool := t, writes := writes s @ ws\<rparr>)"
| job_crash: "stopped s = None \<Longrightarrow> pool_moves (tpool s) t \<Longrightarrow> finished t = finished (tpool s) @ [w] \<Longrightarrow>
     job_result rd found w = Inl e \<Longrightarrow>
     server_step s (s\<lparr>stopped := Some e\<rparr>)"
  \<comment> \<open>the end of \<open>s_prepare\<close>\<close>
| prepared: "stopped s = None \<Longrightarrow> main_at s = MainInit \<Longrightarrow> main (tpool s) = MReady \<Longrightarrow>
     server_step s (s\<lparr>main_at := MainRead, epoll_at := EpCreate\<rparr>)"
  \<comment> \<open>\<open>s_epoll\<close>\<close>
| create: "stopped s = None \<Longrightarrow> epoll_at s = EpCreate \<Longrightarrow> s_epoll_create (srv s) = Inr u' \<Longrightarrow>
     server_step s (s\<lparr>srv := u', epoll_at := EpWait\<rparr>)"
| create_fails: "stopped s = None \<Longrightarrow> epoll_at s = EpCreate \<Longrightarrow> s_epoll_create (srv s) = Inl e \<Longrightarrow>
     server_step s (s\<lparr>stopped := Some e\<rparr>)"
| wait_events: "stopped s = None \<Longrightarrow> epoll_at s = EpWait \<Longrightarrow> ep (srv s) = Some m \<Longrightarrow>
     distinct fds \<Longrightarrow> set fds \<subseteq> dom m \<Longrightarrow> length fds \<le> MAX_EVENTS \<Longrightarrow>
     server_step s (s\<lparr>epoll_at := EpBatch fds\<rparr>)"
| event: "stopped s = None \<Longrightarrow> epoll_at s = EpBatch (fd # fds) \<Longrightarrow> new_block s b \<Longrightarrow>
     jobs (tpool s) a = None \<Longrightarrow> a \<notin> insert b (blocks s) \<Longrightarrow>
     thpool_add_work (jobs (tpool s)) (jobq (tpool s)) (Some a) PROCESSING b = Inr (0, h, q) \<Longrightarrow>
     may_wake (tpool s) w \<Longrightarrow>
     server_step s (s\<lparr>epoll_at := EpBatch fds, blocks := insert b (blocks s) - {0}, seen := seen s @ [fd],
       tpool := (tpool s)\<lparr>jobs := h, jobq := q, pc := wake w (pc (tpool s)),
         submitted := submitted (tpool s) @ [(PROCESSING, b)]\<rparr>\<rparr>)"
| event_dropped: "stopped s = None \<Longrightarrow> epoll_at s = EpBatch (fd # fds) \<Longrightarrow> new_block s b \<Longrightarrow>
     server_step s (s\<lparr>epoll_at := EpBatch fds, blocks := insert b (blocks s) - {0}, seen := seen s @ [fd]\<rparr>)"
| unlock: "stopped s = None \<Longrightarrow> epoll_at s = EpBatch [] \<Longrightarrow> server_step s (s\<lparr>epoll_at := EpWait\<rparr>)"
  \<comment> \<open>\<open>s_register_clients\<close>\<close>
| receive: "stopped s = None \<Longrightarrow> main_at s = MainRead \<Longrightarrow>
     s_receive chunk (request s, srv s) = Inr (req, u', None) \<Longrightarrow>
     server_step s (s\<lparr>request := req, srv := u'\<rparr>)"
| opened: "stopped s = None \<Longrightarrow> main_at s = MainRead \<Longrightarrow>
     s_receive chunk (request s, srv s) = Inr (req, u', Some k) \<Longrightarrow> s_register_open k u' = Inr u \<Longrightarrow>
     server_step s (s\<lparr>request := req, srv := u, main_at := MainAdd k\<rparr>)"
| receive_fails: "stopped s = None \<Longrightarrow> main_at s = MainRead \<Longrightarrow>
     s_receive chunk (request s, srv s) = Inl e \<or>
     (\<exists>req u' k. s_receive chunk (request s, srv s) = Inr (req, u', Some k) \<and> s_register_open k u' = Inl e) \<Longrightarrow>
     server_step s (s\<lparr>stopped := Some e\<rparr>)"
| added: "stopped s = None \<Longrightarrow> main_at s = MainAdd k \<Longrightarrow> \<forall>fds. epoll_at s \<noteq> EpBatch fds \<Longrightarrow>
     s_register_add k (srv s) = Inr u' \<Longrightarrow>
     server_step s (s\<lparr>srv := u', main_at := MainRead\<rparr>)"
| add_fails: "stopped s = None \<Longrightarrow> main_at s = MainAdd k \<Longrightarrow> \<forall>fds. epoll_at s \<noteq> EpBatch fds \<Longrightarrow>
     s_register_add k (srv s) = Inl e \<Longrightarrow>
     server_step s (s\<lparr>stopped := Some e\<rparr>)"

inductive_cases server_stepE: "server_step s s'"

text \<open>The process after the part of \<open>s_prepare\<close> before the pool, which leaves \<open>u'\<close>.\<close>

definition server_start :: "server \<Rightarrow> server_run" where
  "server_start u' = \<lparr>srv = u', request = zeros, main_at = MainInit, epoll_at = EpNone,
     tpool = pool_start THREAD_AMOUNT, blocks = {}, writes = [], stopped = None, seen = []\<rparr>"

definition server_reachable :: "server \<Rightarrow> server_run \<Rightarrow> bool" where
  "server_reachable v0 s \<longleftrightarrow> (\<exists>u'. s_prepare v0 = Inr u' \<and> server_step\<^sup>*\<^sup>* (server_start u') s)"

section \<open>The pool inside the server\<close>

lemma pool_moves_step: "pool_moves t t' \<Longrightarrow> pool_step t t'"
  by (simp add: pool_moves_def)

lemma pool_moves_held: "pool_moves t t' \<Longrightarrow> \<forall>n. \<not> usr1 t n \<Longrightarrow> \<forall>n. \<not> held t n \<Longrightarrow> \<forall>n. \<not> held t' n"
  by (auto simp: pool_moves_def thpool_pause_def thpool_resume_def elim!: pool_stepE)

lemma pool_moves_main: "pool_moves t t' \<Longrightarrow> main t = MReady \<Longrightarrow> main t' = MReady"
  by (auto simp: pool_moves_def thpool_pause_def thpool_resume_def elim!: pool_stepE)

text \<open>The pool only ever makes moves of the pool's own relation, and no signal or \<open>thpool_wait\<close> disturbs it.\<close>

definition pool_part :: "server_run \<Rightarrow> bool" where
  "pool_part s \<longleftrightarrow> pool_reachable THREAD_AMOUNT (tpool s) \<and> waiter (tpool s) = WOut \<and>
     (\<forall>n. \<not> usr1 (tpool s) n) \<and> (\<forall>n. \<not> held (tpool s) n) \<and>
     (main_at s \<noteq> MainInit \<longrightarrow> main (tpool s) = MReady) \<and> main (tpool s) \<noteq> MDestroyed \<and>
     (main_at s = MainInit \<longleftrightarrow> epoll_at s = EpNone)"

lemma pool_part_moves:
  assumes "pool_part s" and "pool_moves (tpool s) t" and "tpool s' = t"
    and "main_at s' = main_at s" and "epoll_at s' = epoll_at s"
  shows "pool_part s'"
  using assms pool_moves_held [OF assms(2)] pool_moves_main [OF assms(2)]
    pool_reachable_step [OF _ pool_moves_step [OF assms(2)]]
  by (auto simp: pool_part_def pool_moves_def)

lemma pool_part_step: "server_step s s' \<Longrightarrow> pool_part s \<Longrightarrow> pool_part s'"
proof (induction rule: server_step.induct)
  case (event s fd fds b a h q w)
  let ?t = "tpool s"
  have ready: "main ?t = MReady" using event(2,8) by (auto simp: pool_part_def)
  note step = pool_step.add_work [OF ready event(4,6,7)]
  with event(8) have "pool_reachable THREAD_AMOUNT (?t\<lparr>jobs := h, jobq := q, pc := wake w (pc ?t),
      submitted := submitted ?t @ [(PROCESSING, b)]\<rparr>)"
    unfolding pool_part_def by (intro pool_reachable_step [OF _ step]) simp
  with event(8) ready event(2) show ?case by (simp add: pool_part_def)
next
  case (pool_move s t)
  from this(4) this(2) show ?case by (rule pool_part_moves [of s t]) simp_all
next
  case (job_done s t w rd found ws)
  from this(5) this(2) show ?case by (rule pool_part_moves [of s t]) simp_all
qed (auto simp: pool_part_def)

section \<open>The table of clients inside the server\<close>

lemma s_receive_frame:
  assumes "s_receive chunk (req, s) = Inr (req', t, k)" and "clients_wf s"
  shows "clients_wf t \<and> ep t = ep s \<and> client_max t = client_max s + (if k = None then 0 else 1) \<and>
    (k \<noteq> None \<longrightarrow> k = Some (client_max s))"
proof -
  from assms(1) consider "t = s" "k = None"
    | str r where "s_check_reg_request str s = Inr (r, t)" "k = (if r = -1 then None else Some (client_max t - 1))"
    by (auto simp: s_receive_def Let_def split: sum.splits if_splits)
  then show ?thesis
  proof cases
    case 1
    then show ?thesis using assms(2) by simp
  next
    case 2
    then show ?thesis using check_request_wf [OF 2(1) assms(2)] by auto
  qed
qed

lemma s_register_open_frame:
  assumes "s_register_open k s = Inr t"
  shows "client_max t = client_max s \<and> ep t = ep s \<and>
    (\<exists>d. Clients t = (Clients s)[k := (Clients s ! k)\<lparr>event := (event (Clients s ! k))\<lparr>data := d\<rparr>\<rparr>])"
  using assms
  by (auto simp: s_register_open_def Let_def with_client_def set_fd_def set_u32_def
      split: sum.splits if_splits option.splits dest!: s_mkfifo_frame s_open_fifo_frame) blast+

lemma s_register_open_wf: "s_register_open k s = Inr t \<Longrightarrow> clients_wf s \<Longrightarrow> clients_wf t"
  using s_register_open_frame [of k s t]
  by (cases "k < length (Clients s)") (auto simp: clients_wf_def nth_list_update)

lemma s_register_add_frame:
  "s_register_add k s = Inr t \<Longrightarrow>
   Clients t = Clients s \<and> client_max t = client_max s \<and> \<not> epoll_used s \<and> epoll_used t \<and>
   (\<exists>m e. ep s = Some m \<and> ep t = Some (m(0 \<mapsto> e)))"
  by (auto simp: s_register_add_def epoll_ctl_add_def epoll_used_def split: option.splits if_splits)

definition table_part :: "server_run \<Rightarrow> bool" where
  "table_part s \<longleftrightarrow> clients_wf (srv s) \<and>
     client_max (srv s) = (if epoll_used (srv s) then 1 else 0) + (case main_at s of MainAdd k \<Rightarrow> 1 | _ \<Rightarrow> 0) \<and>
     (ep (srv s) = None \<longleftrightarrow> epoll_at s = EpNone \<or> epoll_at s = EpCreate) \<and>
     (\<forall>m fd. ep (srv s) = Some m \<longrightarrow> fd \<noteq> 0 \<longrightarrow> m fd = None)"

lemma table_part_step: "server_step s s' \<Longrightarrow> table_part s \<Longrightarrow> pool_part s \<Longrightarrow> table_part s'"
proof (induction rule: server_step.induct)
  case (create s u')
  then show ?case by (auto simp: table_part_def clients_wf_def epoll_used_def dest!: s_epoll_create_frame)
next
  case (receive s chunk req u')
  then show ?case
    using s_receive_frame [OF receive(3)] by (auto simp: table_part_def epoll_used_def)
next
  case (opened s chunk req u' k u)
  then have "clients_wf u'" "ep u' = ep (srv s)" "client_max u' = client_max (srv s) + 1"
    using s_receive_frame [OF opened(3)] by (auto simp: table_part_def)
  with opened s_register_open_frame [OF opened(4)] s_register_open_wf [OF opened(4)] show ?case
    by (auto simp: table_part_def epoll_used_def)
next
  case (added s k u')
  then show ?case using s_register_add_frame [OF added(4)]
    by (auto simp: table_part_def clients_wf_def split: if_splits)
qed (auto simp: table_part_def pool_part_def)

section \<open>What is handed to the pool\<close>

definition job_part :: "server_run \<Rightarrow> bool" where
  "job_part s \<longleftrightarrow>
     (\<forall>fd fds. epoll_at s = EpBatch (fd # fds) \<longrightarrow> fd = 0 \<and> fds = [] \<and> epoll_used (srv s)) \<and>
     set (seen s) \<subseteq> {0} \<and> (seen s \<noteq> [] \<longrightarrow> epoll_used (srv s)) \<and> finite (blocks s) \<and> 0 \<notin> blocks s \<and>
     (\<forall>w \<in> set (submitted (tpool s)). fst w = PROCESSING \<and> snd w \<in> insert 0 (blocks s)) \<and>
     distinct (filter (\<lambda>a. a \<noteq> 0) (map snd (submitted (tpool s)))) \<and>
     length (submitted (tpool s)) \<le> length (seen s) \<and> card (blocks s) \<le> length (seen s)"

lemma one_descriptor: "distinct (fd # fds) \<Longrightarrow> set (fd # fds) \<subseteq> {0::nat} \<Longrightarrow> fd = 0 \<and> fds = []"
  by (cases fds) auto

lemma card_new_block: "finite B \<Longrightarrow> card (insert b B - {0}) \<le> Suc (card B)"
  by (rule order_trans [OF card_Diff1_le]) (simp add: card_insert_if)

lemma job_part_step: "server_step s s' \<Longrightarrow> job_part s \<Longrightarrow> table_part s \<Longrightarrow> pool_part s \<Longrightarrow> job_part s'"
proof (induction rule: server_step.induct)
  case (wait_events s m fds)
  have m: "fd = 0" if "m fd \<noteq> None" for fd
    using that wait_events(3) \<open>table_part s\<close> by (cases "fd = 0") (simp_all add: table_part_def)
  have "fd = 0 \<and> gs = [] \<and> epoll_used (srv s)" if fds: "fds = fd # gs" for fd gs
  proof -
    have "\<forall>x \<in> set fds. m x \<noteq> None" using wait_events(5) by blast
    then have "set (fd # gs) \<subseteq> {0}" "m fd \<noteq> None" using m fds by auto
    moreover from this one_descriptor have "fd = 0 \<and> gs = []" using wait_events(4) fds by blast
    ultimately show ?thesis using wait_events(3) by (simp add: epoll_used_def)
  qed
  with \<open>job_part s\<close> show ?case by (auto simp: job_part_def)
next
  case (event s fd fds b a h q w)
  note inv = event(8) [unfolded job_part_def]
  have head: "fd = 0 \<and> fds = [] \<and> epoll_used (srv s)" using inv event(2) by blast
  have old: "\<forall>w \<in> set (submitted (tpool s)). fst w = PROCESSING \<and> snd w \<in> insert 0 (insert b (blocks s) - {0})"
    using inv by blast
  have new: "b \<noteq> 0 \<longrightarrow> b \<notin> snd ` set (submitted (tpool s))"
    using inv event(3) by (auto simp: new_block_def)
  have dist: "distinct (filter (\<lambda>a. a \<noteq> 0) (map snd (submitted (tpool s) @ [(PROCESSING, b)])))"
    using inv new by (cases "b = 0") auto
  have card: "card (insert b (blocks s) - {0}) \<le> length (seen s @ [fd])"
    using inv card_new_block [of "blocks s" b] by simp
  show ?case
    unfolding job_part_def using inv head old dist card by simp
next
  case (event_dropped s fd fds b)
  then show ?case using card_new_block [of "blocks s" b] by (auto simp: job_part_def)
next
  case (create s u')
  then show ?case by (auto simp: job_part_def table_part_def epoll_used_def)
next
  case (receive s chunk req u')
  then have "ep u' = ep (srv s)" using s_receive_frame [OF receive(3)] by (simp add: table_part_def)
  with receive show ?case by (simp add: job_part_def epoll_used_def)
next
  case (opened s chunk req u' k u)
  then have "ep u = ep (srv s)"
    using s_receive_frame [OF opened(3)] s_register_open_frame [OF opened(4)] by (simp add: table_part_def)
  with opened show ?case by (simp add: job_part_def epoll_used_def)
next
  case (added s k u')
  then show ?case using s_register_add_frame [OF added(4)] by (auto simp: job_part_def)
qed (auto simp: job_part_def pool_moves_def)

section \<open>Every reachable state\<close>

lemma server_start_inv:
  assumes "s_prepare v0 = Inr u" and "client_max v0 = 0" and "ep v0 = None"
  shows "pool_part (server_start u) \<and> table_part (server_start u) \<and> job_part (server_start u)"
proof -
  have "pool_reachable THREAD_AMOUNT (pool_start THREAD_AMOUNT)" by (simp add: pool_reachable_def)
  then have "pool_part (server_start u)" by (simp add: pool_part_def server_start_def pool_start_eq)
  moreover have "table_part (server_start u)"
    using s_prepare_good [OF assms]
    by (auto simp: table_part_def server_start_def server_good_def epoll_used_def)
  moreover have "job_part (server_start u)" by (simp add: job_part_def server_start_def pool_start_eq)
  ultimately show ?thesis by blast
qed

lemma server_reachable_inv:
  assumes "server_reachable v0 s" and "client_max v0 = 0" and "ep v0 = None"
  shows "pool_part s \<and> table_part s \<and> job_part s"
proof -
  from assms(1) obtain u where u: "s_prepare v0 = Inr u" and run: "server_step\<^sup>*\<^sup>* (server_start u) s"
    by (auto simp: server_reachable_def)
  from run show ?thesis
  proof (induction rule: rtranclp_induct)
    case base
    show ?case using server_start_inv [OF u assms(2,3)] .
  next
    case (step s s')
    then show ?case using pool_part_step table_part_step job_part_step by blast
  qed
qed



section \<open>The properties\<close>


text \<open>
  Sequential turns are runs of the process: between two turns of the epoll thread the main thread
  can make a whole turn of its own.
\<close>

lemma turn_run:
  assumes "stopped s = None" and "main_at s = MainRead" and "\<forall>fds. epoll_at s \<noteq> EpBatch fds"
    and "s_register_turn chunk (request s, srv s) = Inr (req, u)"
  shows "server_step\<^sup>*\<^sup>* s (s\<lparr>request := req, srv := u\<rparr>)"
proof -
  from assms(4) consider "s_receive chunk (request s, srv s) = Inr (req, u, None)"
    | v k w where "s_receive chunk (request s, srv s) = Inr (req, v, Some k)"
        "s_register_open k v = Inr w" "s_register_add k w = Inr u"
    by (auto simp: s_register_turn_def s_register_def split: sum.splits option.splits)
  then show ?thesis
  proof cases
    case 1
    from receive [OF assms(1,2) 1] show ?thesis by blast
  next
    case 2
    let ?s = "s\<lparr>request := req, srv := w, main_at := MainAdd k\<rparr>"
    have "server_step s ?s" by (rule opened [OF assms(1,2) 2(1,2)])
    moreover have "server_step ?s (?s\<lparr>srv := u, main_at := MainRead\<rparr>)"
      using assms 2(3) by (intro added) simp_all
    moreover have "?s\<lparr>srv := u, main_at := MainRead\<rparr> = s\<lparr>request := req, srv := u\<rparr>"
      using assms(2) by simp
    ultimately show ?thesis by (metis converse_rtranclp_into_rtranclp r_into_rtranclp)
  qed
qed

text \<open>The workers come alive one after the other.\<close>

definition crew :: "nat \<Rightarrow> pool" where
  "crew k = (pool_start THREAD_AMOUNT)\<lparr>num_threads_alive := int k,
     pc := (\<lambda>t. if t < k then TLoop else if t < 20 then TStart else TNever)\<rparr>"

lemma crew_step: "k < 20 \<Longrightarrow> pool_moves (crew k) (crew (Suc k)) \<and> finished (crew (Suc k)) = finished (crew k)"
proof -
  assume k: "k < 20"
  have "crew (Suc k) = (crew k)\<lparr>num_threads_alive := num_threads_alive (crew k) + 1, pc := (pc (crew k))(k := TLoop)\<rparr>"
    using k by (auto simp: crew_def less_Suc_eq fun_eq_iff)
  moreover have "pool_step (crew k) \<dots>"
    using k by (intro pool_step.alive) (simp_all add: crew_def pool_start_eq runs_def thcount_free_def THREAD_AMOUNT_def)
  ultimately have "pool_step (crew k) (crew (Suc k))" by (simp only:)
  moreover have "submitted (crew j) = [] \<and> usr1 (crew j) = (\<lambda>_. False) \<and> waiter (crew j) = WOut \<and>
      main (crew j) = MInit \<and> finished (crew j) = []" for j
    by (simp add: crew_def pool_start_eq)
  ultimately show ?thesis by (simp add: pool_moves_def)
qed

lemma crew_run: "k \<le> 20 \<Longrightarrow> server_step\<^sup>*\<^sup>* (server_start u) ((server_start u)\<lparr>tpool := crew k\<rparr>)"
proof (induction k)
  case 0
  have "crew 0 = pool_start THREAD_AMOUNT" by (auto simp: crew_def pool_start_eq THREAD_AMOUNT_def fun_eq_iff)
  then show ?case by (simp add: server_start_def)
next
  case (Suc k)
  let ?s = "(server_start u)\<lparr>tpool := crew k\<rparr>"
  have "server_step ?s (?s\<lparr>tpool := crew (Suc k)\<rparr>)"
    using crew_step [of k] Suc.prems by (intro pool_move) (simp_all add: server_start_def)
  with Suc show ?case by (simp add: rtranclp.rtrancl_into_rtrancl)
qed

text \<open>A run in which a client registers and one event is queued.\<close>

definition demo_v0 :: server where
  "demo_v0 = demo_server\<lparr>s_fds := replicate 3 (Some Std), ep := None\<rparr>"

lemma demo_queued:
  "\<exists>s. server_reachable demo_v0 s \<and> stopped s = None \<and> seen s = [0] \<and>
     submitted (tpool s) = [(PROCESSING, 1)] \<and> queued (tpool s) = [(PROCESSING, 1)]"
proof -
  have reg: "good_name S_FIFO_REG" "good_name S_FIFO_RSP"
    by (simp_all add: good_name_def S_FIFO_REG_def S_FIFO_RSP_def)
  obtain u where u: "s_prepare demo_v0 = Inr u" "length (s_fds u) = 7" "limit u = 1024" "None \<notin> set (s_fds u)"
      "length (Clients u) = MAX_CLIENT" "client_max u = 0"
    by (simp add: demo_v0_def s_prepare_def s_mkfifo_ok reg s_open_fifo_ok demo_server_def)
  then obtain u1 where u1: "s_epoll_create u = Inr u1" "length (s_fds u1) = 8" "limit u1 = 1024" "None \<notin> set (s_fds u1)"
      "length (Clients u1) = MAX_CLIENT" "client_max u1 = 0" "ep u1 = Some Map.empty"
    by (simp add: s_epoll_create_def fd_open_full)
  let ?r = "served 0 Map.empty S_FIFO_REG S_FIFO_RSP (registered S_FIFO_REG S_FIFO_RSP u1)"
  have "s_register_turn (reg_command (CN_FIFO_REL @ S_FIFO_REG) (CN_FIFO_REL @ S_FIFO_RSP)) (zeros, u1) = Inr (zeros, ?r)"
    using register_client_turn [of S_FIFO_REG S_FIFO_RSP u1 Map.empty] reg u1 by (simp add: MAX_CLIENT_def)
  moreover have "epoll_used ?r" by (simp add: epoll_used_def served_def Let_def)
  ultimately obtain c u2 m where u2: "s_register_turn c (zeros, u1) = Inr (zeros, u2)" "ep u2 = Some m" "m 0 \<noteq> None"
    by (auto simp: epoll_used_def)
  let ?s1 = "(server_start u)\<lparr>tpool := crew 20\<rparr>"
  let ?t = "(crew 20)\<lparr>main := MReady\<rparr>"
  let ?s2 = "?s1\<lparr>tpool := ?t\<rparr>"
  let ?s3 = "?s2\<lparr>main_at := MainRead, epoll_at := EpCreate\<rparr>"
  let ?s4 = "?s3\<lparr>srv := u1, epoll_at := EpWait\<rparr>"
  let ?s5 = "?s4\<lparr>request := zeros, srv := u2\<rparr>"
  let ?s6 = "?s5\<lparr>epoll_at := EpBatch [0]\<rparr>"
  let ?h = "[2 \<mapsto> \<lparr>prev = None, job_fun = PROCESSING, job_arg = 1\<rparr>] :: job_heap"
  let ?q = "\<lparr>front = Some 2, rear = Some 2, has_jobs = \<lparr>v = 1\<rparr>, len = 1\<rparr> :: jobqueue"
  let ?s7 = "?s6\<lparr>epoll_at := EpBatch [], blocks := insert 1 (blocks ?s6) - {0}, seen := seen ?s6 @ [0],
    tpool := (tpool ?s6)\<lparr>jobs := ?h, jobq := ?q, pc := wake None (pc (tpool ?s6)),
      submitted := submitted (tpool ?s6) @ [(PROCESSING, 1)]\<rparr>\<rparr>"
  have "pool_step (crew 20) ?t"
    by (rule pool_step.init_done) (simp_all add: crew_def pool_start_eq THREAD_AMOUNT_def)
  then have "server_step ?s1 ?s2"
    by (intro pool_move) (simp_all add: server_start_def pool_moves_def crew_def)
  moreover have "server_step ?s2 ?s3" by (rule prepared) (simp_all add: server_start_def)
  moreover have "server_step ?s3 ?s4" by (rule create) (simp_all add: server_start_def u1(1))
  moreover have "server_step\<^sup>*\<^sup>* ?s4 ?s5" using u2(1) by (intro turn_run) (simp_all add: server_start_def)
  moreover have "server_step ?s5 ?s6"
    using u2(2,3) by (intro wait_events) (auto simp: server_start_def MAX_EVENTS_def MAX_CLIENT_def)
  moreover have "server_step ?s6 ?s7"
  proof (rule event [where a = 2 and fd = 0])
    show "thpool_add_work (jobs (tpool ?s6)) (jobq (tpool ?s6)) (Some 2) PROCESSING 1 = Inr (0, ?h, ?q)"
      by (simp add: thpool_add_work_def jobqueue_push_def bsem_post_def crew_def pool_start_eq)
    show "may_wake (tpool ?s6) None" by (simp add: may_wake_def crew_def)
  qed (simp_all add: server_start_def new_block_def crew_def pool_start_eq)
  ultimately have "server_step\<^sup>*\<^sup>* (server_start u) ?s7"
    using crew_run [of 20 u] by (meson order_refl rtranclp.rtrancl_into_rtrancl rtranclp_trans)
  then have "server_reachable demo_v0 ?s7" using u(1) by (auto simp: server_reachable_def)
  moreover have "queued (tpool ?s7) = [(PROCESSING, 1)]" by (simp add: queued_def eval_nat_numeral)
  ultimately show ?thesis
    by (intro exI [of _ ?s7]) (simp add: server_start_def crew_def pool_start_eq)
qed

lemma demo_v0_fresh: "client_max demo_v0 = 0" "ep demo_v0 = None"
  by (simp_all add: demo_v0_def demo_server_def)


text \<open>C31. The state of the server keeps its shape under every interleaving, and its clients are never
  heard: the table has 64 well-formed entries of which those below \<open>client_max\<close> are active;
  \<open>client_max\<close> is at most 1 between two requests and at most 2 during a registration, so no index
  leaves the table; every event the epoll thread handles is one of descriptor 0, standard input,
  of the one client registered; and the blocks allocated for events, none of which is freed, are
  at most as many as the events.\<close>

theorem server_hears_only_stdin:
  assumes "server_reachable v0 s" and "client_max v0 = 0" and "ep v0 = None"
  shows "clients_wf (srv s) \<and> client_max (srv s) \<le> (if main_at s = MainRead \<or> main_at s = MainInit then 1 else 2) \<and>
    set (seen s) \<subseteq> {0} \<and> (seen s \<noteq> [] \<longrightarrow> 1 \<le> client_max (srv s)) \<and>
    finite (blocks s) \<and> card (blocks s) \<le> length (seen s) \<and> length (submitted (tpool s)) \<le> length (seen s)"
  using server_reachable_inv [OF assms]
  by (auto simp: table_part_def job_part_def split: main_pc.splits)

theorem server_hears_only_stdin_witness:
  "\<exists>s. server_reachable demo_v0 s \<and> seen s = [0] \<and> clients_wf (srv s) \<and> 1 \<le> client_max (srv s)"
proof -
  obtain s where s: "server_reachable demo_v0 s" "seen s = [0]" using demo_queued by blast
  from server_hears_only_stdin [OF s(1) demo_v0_fresh] s show ?thesis by force
qed

end
