(* ===== verification/DuplexPipe.thy ===== *)
theory DuplexPipe
  imports CHeap Pipeline
begin

text \<open>
  The duplex pipe (\<open>task2/duplex-pipe\<close>): \<open>dp_string.c\<close>, \<open>dp_pipe.c\<close> and \<open>dp_main.c\<close>. The parent sends a
  file to the child in packets with a three byte header, the child stores it and sends it back.
  Each process has its heap, with the buffers of the two pipes, and its descriptors. The data are
  the packets written; how the pipe cuts them into reads is an input.
\<close>

section \<open>Sending\<close>

definition PCG_SZ :: nat where
  "PCG_SZ = 256"

definition PIPE_BUF_SZ :: nat where
  "PIPE_BUF_SZ = 254 * 256 + 3"

lemmas pipe_consts = PCG_SZ_def PIPE_BUF_SZ_def

text \<open>The three header bytes: sequence number, number of packages, symbols in the last of them plus one.\<close>

definition p_header :: "nat \<Rightarrow> nat \<Rightarrow> bytes" where
  "p_header i last_sym =
     [word_of_nat i, word_of_nat (last_sym div PCG_SZ + 1),
      if last_sym mod PCG_SZ \<noteq> 0 then word_of_nat (last_sym mod PCG_SZ + 1) else 1]"

text \<open>
  The loop of \<open>p_snd\<close>: \<open>rest\<close> is what \<open>fread\<close> has not delivered yet. The results are the packets
  written and the buffer.
\<close>

function snd_loop :: "bytes \<Rightarrow> nat \<Rightarrow> bytes \<Rightarrow> bytes list \<times> bytes" where
  "snd_loop rest i buf =
     (let data = take (PIPE_BUF_SZ - 3) rest;
          last_sym = length data;
          buf = p_header i last_sym @ data @ drop (3 + last_sym) buf;
          packet = take (last_sym + 3) buf in
      if last_sym = PIPE_BUF_SZ - 3
      then (let (packets, buf) = snd_loop (drop (PIPE_BUF_SZ - 3) rest) ((i + 1) mod 128) buf in (packet # packets, buf))
      else ([packet], buf))"
  by pat_completeness auto
termination by (relation "measure (\<lambda>(rest, _). length rest)") (auto simp: pipe_consts)

declare snd_loop.simps [simp del]

section \<open>Receiving\<close>

text \<open>
  The loop of \<open>p_rcv\<close> over what the successive calls of \<open>read\<close> deliver. \<open>char\<close> is signed in the
  comparison with the expected number, the two lengths are unsigned. A packet with another number
  is dropped. The results are the output and the buffer.
\<close>

fun rcv_loop :: "bytes list \<Rightarrow> nat \<Rightarrow> bytes \<Rightarrow> bytes \<Rightarrow> c_error + bytes \<times> bytes" where
  "rcv_loop [] i buf out = Inr (out, buf)"
| "rcv_loop (r # rs) i buf out =
     (if r = [] then Inr (out, buf)
      else
     (let buf = take PIPE_BUF_SZ r @ drop (length r) buf in
      if sint (buf ! 0) = int i then
        (let num_pcg = unat (buf ! 1 - 1); num_l_pcg = unat (buf ! 2 - 1);
             len = num_pcg * PCG_SZ + num_l_pcg in
         if PIPE_BUF_SZ < len + 3 then Inl OutOfBounds
         else rcv_loop rs ((i + 1) mod 128) buf (out @ take len (drop 3 buf)))
      else rcv_loop rs i buf out))"

section \<open>dp_string.c\<close>

text \<open>A \<open>String\<close> is its pointer \<open>data\<close>; the methods are called through their only implementations.\<close>

definition ctorString :: "bool \<Rightarrow> nat \<Rightarrow> bytes heap \<Rightarrow> addr option \<times> bytes heap" where
  "ctorString calloc_ok data_sz h =
     (if calloc_ok then (let (a, h) = halloc (replicate data_sz 0) h in (Some a, h)) else (None, h))"

definition str_length :: "addr option \<Rightarrow> bytes heap \<Rightarrow> c_error + nat" where
  "str_length self h =
     (case hread self h of Inl e \<Rightarrow> Inl e
      | Inr bs \<Rightarrow> if 0 \<in> set bs then Inr (length (takeWhile (\<lambda>b. b \<noteq> 0) bs)) else Inl OutOfBounds)"

definition str_clear :: "addr option \<Rightarrow> bytes heap \<Rightarrow> c_error + bytes heap" where
  "str_clear self h = hfree self h"

section \<open>dp_pipe.c\<close>

record Pipe =
  p_fd :: "nat \<times> nat"
  p_buf :: "addr option"

record dp_process =
  dp_heap :: "bytes heap"
  dp_fds :: fdtab

definition ctorPipe :: "bool \<Rightarrow> dp_process \<Rightarrow> Pipe \<times> dp_process" where
  "ctorPipe calloc_ok s =
     (let (b, h) = ctorString calloc_ok PIPE_BUF_SZ (dp_heap s) in (\<lparr>p_fd = (0, 0), p_buf = b\<rparr>, s\<lparr>dp_heap := h\<rparr>))"

definition p_pipe :: "nat \<Rightarrow> nat \<Rightarrow> Pipe \<Rightarrow> dp_process \<Rightarrow> c_error + Pipe \<times> dp_process" where
  "p_pipe limit number self s =
     (case sys_pipe limit number (dp_fds s) of None \<Rightarrow> Inl (Exit 1)
      | Some (r, w, T) \<Rightarrow> Inr (self\<lparr>p_fd := (r, w)\<rparr>, s\<lparr>dp_fds := T\<rparr>))"

text \<open>\<open>src\<close> is the file \<open>fp_r\<close>; a stream that could not be opened is \<open>NULL\<close>, and using it an error.\<close>

definition p_snd :: "bytes option \<Rightarrow> Pipe \<Rightarrow> dp_process \<Rightarrow> c_error + bytes list \<times> dp_process" where
  "p_snd src self s =
     (let T = sys_close (fst (p_fd self)) (dp_fds s) in
      case src of None \<Rightarrow> Inl NullDeref | Some fin \<Rightarrow>
     (case hread (p_buf self) (dp_heap s) of Inl e \<Rightarrow> Inl e | Inr b \<Rightarrow>
     (let (packets, b) = snd_loop fin 1 b in
      case hwrite (p_buf self) b (dp_heap s) of Inl e \<Rightarrow> Inl e | Inr h \<Rightarrow>
        Inr (packets, \<lparr>dp_heap = h, dp_fds = sys_close (snd (p_fd self)) T\<rparr>))))"

definition p_rcv :: "bool \<Rightarrow> bytes list \<Rightarrow> Pipe \<Rightarrow> dp_process \<Rightarrow> c_error + bytes \<times> dp_process" where
  "p_rcv fopen_ok reads self s =
     (let T = sys_close (snd (p_fd self)) (dp_fds s) in
      if \<not> fopen_ok then Inl NullDeref
      else
     (case hread (p_buf self) (dp_heap s) of Inl e \<Rightarrow> Inl e | Inr b \<Rightarrow>
     (case rcv_loop reads 1 b [] of Inl e \<Rightarrow> Inl e | Inr (out, b) \<Rightarrow>
     (case hwrite (p_buf self) b (dp_heap s) of Inl e \<Rightarrow> Inl e | Inr h \<Rightarrow>
        Inr (out, \<lparr>dp_heap = h, dp_fds = sys_close (fst (p_fd self)) T\<rparr>)))))"

definition p_clear :: "Pipe \<Rightarrow> dp_process \<Rightarrow> c_error + dp_process" where
  "p_clear self s =
     (case str_clear (p_buf self) (dp_heap s) of Inl e \<Rightarrow> Inl e | Inr h \<Rightarrow> Inr (s\<lparr>dp_heap := h\<rparr>))"

definition p_size :: "Pipe \<Rightarrow> dp_process \<Rightarrow> c_error + nat" where
  "p_size self s = str_length (p_buf self) (dp_heap s)"

section \<open>dp_main.c\<close>

text \<open>
  \<open>fork\<close> gives each process a copy of everything. The child receives the whole of the first transfer
  before it sends; \<open>cut1\<close> and \<open>cut2\<close> say how the pipes cut the packets written into reads. The
  results are the new contents of \<open>argv[2]\<close> and \<open>argv[1]\<close> and the two processes at their ends.
\<close>

definition dp_clear :: "Pipe \<Rightarrow> Pipe \<Rightarrow> dp_process \<Rightarrow> c_error + dp_process" where
  "dp_clear PtoC CtoP s = (case p_clear PtoC s of Inl e \<Rightarrow> Inl e | Inr s \<Rightarrow> p_clear CtoP s)"

definition dp_main :: "nat \<Rightarrow> nat \<Rightarrow> bool \<Rightarrow> bool \<Rightarrow> bool \<Rightarrow> bytes option \<Rightarrow> bool \<Rightarrow> bool
    \<Rightarrow> (bytes list \<Rightarrow> bytes list) \<Rightarrow> (bytes list \<Rightarrow> bytes list) \<Rightarrow> dp_process
    \<Rightarrow> c_error + bytes \<times> bytes \<times> dp_process \<times> dp_process" where
  "dp_main nargs limit calloc1 calloc2 fork_ok src dst_ok back_ok cut1 cut2 s =
     (if nargs \<noteq> 3 then Inl (Exit 1)
      else
     (let (PtoC, s) = ctorPipe calloc1 s; (CtoP, s) = ctorPipe calloc2 s in
      case p_pipe limit 0 PtoC s of Inl e \<Rightarrow> Inl e | Inr (PtoC, s) \<Rightarrow>
     (case p_pipe limit 1 CtoP s of Inl e \<Rightarrow> Inl e | Inr (CtoP, s) \<Rightarrow>
      if \<not> fork_ok then Inl (Exit 1)
      else
     (case p_snd src PtoC s of Inl e \<Rightarrow> Inl e | Inr (packets1, parent) \<Rightarrow>
     (case p_rcv dst_ok (cut1 packets1) PtoC s of Inl e \<Rightarrow> Inl e | Inr (dst, child) \<Rightarrow>
     (case p_snd (Some dst) CtoP child of Inl e \<Rightarrow> Inl e | Inr (packets2, child) \<Rightarrow>
     (case p_rcv back_ok (cut2 packets2) CtoP parent of Inl e \<Rightarrow> Inl e | Inr (back, parent) \<Rightarrow>
     (case dp_clear PtoC CtoP parent of Inl e \<Rightarrow> Inl e | Inr parent \<Rightarrow>
     (case dp_clear PtoC CtoP child of Inl e \<Rightarrow> Inl e | Inr child \<Rightarrow>
        Inr (dst, back, parent, child))))))))))"

section \<open>Header and packets\<close>

lemma sint_small_byte: "i < 128 \<Longrightarrow> sint (word_of_nat i :: byte) = int i"
proof -
  assume i: "i < 128"
  have "sint (word_of_int (int i) :: byte) = signed_take_bit 7 (int i)" unfolding sint_sbintrunc' by simp
  also have "\<dots> = int i" using i by (intro signed_take_bit_int_eq_self) simp_all
  finally show ?thesis by simp
qed

lemma unat_small_byte: "k < 256 \<Longrightarrow> unat (word_of_nat (k + 1) - 1 :: byte) = k"
  by (simp add: unat_of_nat)

lemma header_decodes:
  assumes "n \<le> PIPE_BUF_SZ - 3"
  shows "unat (p_header i n ! 1 - 1) * PCG_SZ + unat (p_header i n ! 2 - 1) = n"
proof -
  have a: "unat (word_of_nat (n div 256) :: byte) = n div 256" and b: "unat (word_of_nat (n mod 256) :: byte) = n mod 256"
    using assms by (simp_all add: pipe_consts unat_of_nat)
  have "n div 256 * 256 + n mod 256 = n" by simp
  then show ?thesis using a b by (cases "n mod 256 = 0") (simp_all add: p_header_def PCG_SZ_def)
qed

lemma header_length [simp]: "length (p_header i n) = 3"
  by (simp add: p_header_def)

text \<open>One packet, as the sender writes it.\<close>

definition packet_of :: "nat \<Rightarrow> bytes \<Rightarrow> bytes" where
  "packet_of i data = p_header i (length data) @ data"

lemma snd_loop_unfold:
  "snd_loop rest i buf =
     (if PIPE_BUF_SZ - 3 \<le> length rest
      then (let (packets, b) = snd_loop (drop (PIPE_BUF_SZ - 3) rest) ((i + 1) mod 128)
          (p_header i (PIPE_BUF_SZ - 3) @ take (PIPE_BUF_SZ - 3) rest @ drop PIPE_BUF_SZ buf)
        in (packet_of i (take (PIPE_BUF_SZ - 3) rest) # packets, b))
      else ([packet_of i rest], p_header i (length rest) @ rest @ drop (3 + length rest) buf))"
  by (subst snd_loop.simps) (auto simp: packet_of_def Let_def min_def pipe_consts)

lemma rcv_packet:
  assumes "i < 128" and "length data \<le> PIPE_BUF_SZ - 3" and "length buf = PIPE_BUF_SZ"
  shows "rcv_loop (packet_of i data # rs) i buf out =
    rcv_loop rs ((i + 1) mod 128) (packet_of i data @ drop (length data + 3) buf) (out @ data)"
proof -
  let ?buf = "packet_of i data @ drop (length data + 3) buf"
  have len: "length (packet_of i data) = length data + 3" by (simp add: packet_of_def)
  have buf: "take PIPE_BUF_SZ (packet_of i data) @ drop (length (packet_of i data)) buf = ?buf"
    using assms(2) by (simp add: len pipe_consts)
  have hd: "?buf ! 0 = word_of_nat i" "?buf ! 1 = p_header i (length data) ! 1" "?buf ! 2 = p_header i (length data) ! 2"
    by (simp_all add: packet_of_def p_header_def)
  have dec: "unat (?buf ! 1 - 1) * PCG_SZ + unat (?buf ! 2 - 1) = length data"
    unfolding hd using assms(2) by (rule header_decodes)
  have seq: "sint (?buf ! 0) = int i" unfolding hd using assms(1) by (rule sint_small_byte)
  have data: "take (length data) (drop 3 ?buf) = data" by (simp add: packet_of_def)
  have ne: "packet_of i data \<noteq> []" by (simp add: packet_of_def p_header_def)
  have fits: "\<not> PIPE_BUF_SZ < length data + 3" using assms(2) by (simp add: pipe_consts)
  show ?thesis
    unfolding rcv_loop.simps(2) buf Let_def dec data using ne seq fits by simp
qed

lemma rcv_snd_loop:
  "i < 128 \<Longrightarrow> length buf = PIPE_BUF_SZ \<Longrightarrow>
   \<exists>b. rcv_loop (fst (snd_loop rest i buf')) i buf out = Inr (out @ rest, b)"
proof (induction rest i buf' arbitrary: buf out rule: snd_loop.induct)
  case (1 rest i buf')
  let ?d = "take (PIPE_BUF_SZ - 3) rest"
  let ?buf = "packet_of i ?d @ drop (length ?d + 3) buf"
  have len: "length ?buf = PIPE_BUF_SZ"
    using "1.prems"(2) by (simp add: packet_of_def pipe_consts)
  show ?case
  proof (cases "PIPE_BUF_SZ - 3 \<le> length rest")
    case True
    then have full: "length ?d = PIPE_BUF_SZ - 3" by simp
    let ?next = "snd_loop (drop (PIPE_BUF_SZ - 3) rest) ((i + 1) mod 128)
        (p_header i (PIPE_BUF_SZ - 3) @ ?d @ drop PIPE_BUF_SZ buf')"
    have "\<exists>b. rcv_loop (fst ?next) ((i + 1) mod 128) ?buf (out @ ?d) =
      Inr ((out @ ?d) @ drop (PIPE_BUF_SZ - 3) rest, b)"
      using "1.IH" [OF refl refl refl refl full, of ?buf "out @ ?d"] len full by (simp add: pipe_consts)
    moreover have "fst (snd_loop rest i buf') = packet_of i ?d # fst ?next"
      using True by (subst snd_loop_unfold) (simp add: case_prod_beta Let_def)
    ultimately show ?thesis
      using rcv_packet [of i ?d buf] "1.prems" by simp
  next
    case False
    then have "fst (snd_loop rest i buf') = [packet_of i rest]" by (subst snd_loop_unfold) simp
    then show ?thesis
      using rcv_packet [of i rest buf "[]" out] False "1.prems" by simp
  qed
qed

section \<open>Short reads\<close>

definition ctor_buf :: bytes where
  "ctor_buf = replicate PIPE_BUF_SZ 0"

text \<open>
  A short read corrupts the copy: when the pipe delivers the packet of a file in two reads, the
  second not starting with the byte 2, the receiver takes the length from the header, stores the
  bytes it has followed by zeros, and drops the second read as a packet out of order.
\<close>

lemma duplex_short_read:
  assumes "length a + length b < PIPE_BUF_SZ - 3" and "b \<noteq> []" and "hd b \<noteq> 2"
  shows "fst (snd_loop (a @ b) 1 ctor_buf) = [p_header 1 (length (a @ b)) @ a @ b] \<and>
    (\<exists>buf. rcv_loop [p_header 1 (length (a @ b)) @ a, b] 1 ctor_buf [] = Inr (a @ replicate (length b) 0, buf))"
proof
  show "fst (snd_loop (a @ b) 1 ctor_buf) = [p_header 1 (length (a @ b)) @ a @ b]"
    using assms(1) by (simp add: snd_loop_unfold [of "a @ b"] packet_of_def)
  let ?n = "length (a @ b)" and ?zeros = "drop (length a + 3) ctor_buf"
  let ?buf = "(p_header 1 ?n @ a) @ ?zeros"
  have first: "take PIPE_BUF_SZ (p_header 1 ?n @ a) @ drop (length (p_header 1 ?n @ a)) ctor_buf = ?buf"
    using assms(1) by (simp add: pipe_consts add.commute)
  have hd: "?buf ! 0 = 1" "?buf ! 1 = p_header 1 ?n ! 1" "?buf ! 2 = p_header 1 ?n ! 2"
    by (simp_all add: p_header_def)
  have dec: "unat (?buf ! 1 - 1) * PCG_SZ + unat (?buf ! 2 - 1) = ?n"
    unfolding hd using assms(1) by (intro header_decodes) simp
  have data: "take ?n (drop 3 ?buf) = a @ replicate (length b) 0"
    using assms(1) by (simp add: ctor_buf_def min_def pipe_consts)
  have facts: "\<not> p_header 1 ?n @ a = []" "\<not> PIPE_BUF_SZ < ?n + 3" "(1 + 1) mod 128 = (2 :: nat)"
    using assms(1) by (simp_all add: p_header_def pipe_consts)
  have seq: "sint (?buf ! 0) = int 1" unfolding hd by simp
  have one: "rcv_loop [p_header 1 ?n @ a, b] 1 ctor_buf [] = rcv_loop [b] 2 ?buf (a @ replicate (length b) 0)"
    by (simp only: rcv_loop.simps(2) [of "p_header 1 ?n @ a"] first Let_def dec data facts seq simp_thms if_True if_False append_Nil)
  have "sint (hd b) \<noteq> 2"
  proof
    assume "sint (hd b) = 2"
    then have "word_of_int (sint (hd b)) = (2 :: byte)" by simp
    then show False using assms(3) by simp
  qed
  then have "\<exists>buf. rcv_loop [b] 2 ?buf (a @ replicate (length b) 0) = Inr (a @ replicate (length b) 0, buf)"
    using assms(2) by (cases b) (simp_all add: Let_def pipe_consts)
  then show "\<exists>buf. rcv_loop [p_header 1 (length (a @ b)) @ a, b] 1 ctor_buf [] = Inr (a @ replicate (length b) 0, buf)"
    unfolding one .
qed

section \<open>The two processes\<close>

text \<open>Each call of \<open>dp_main\<close>, by what it does to the buffers and the descriptors.\<close>

lemma ctorPipe_ok:
  assumes "heap_ok (dp_heap s)"
  shows "\<exists>P a s'. ctorPipe True s = (P, s') \<and> p_buf P = Some a \<and> hcell (dp_heap s) a = None \<and>
    hcell (dp_heap s') = (hcell (dp_heap s))(a \<mapsto> replicate PIPE_BUF_SZ 0) \<and> heap_ok (dp_heap s') \<and> dp_fds s' = dp_fds s"
proof -
  obtain a h where h: "halloc (replicate PIPE_BUF_SZ 0) (dp_heap s) = (a, h)" by fastforce
  from cheap.alloc_law [OF assms h] h show ?thesis by (simp add: ctorPipe_def ctorString_def)
qed

lemma p_pipe_ok:
  assumes "2 \<le> card (free_fds limit (dp_fds s))"
  shows "\<exists>r w P' s'. p_pipe limit n P s = Inr (P', s') \<and> p_buf P' = p_buf P \<and> p_fd P' = (r, w) \<and>
    dp_heap s' = dp_heap s \<and> dp_fds s' = (dp_fds s)(r \<mapsto> PipeR n, w \<mapsto> PipeW n) \<and>
    dp_fds s r = None \<and> dp_fds s w = None \<and> r \<noteq> w \<and>
    card (free_fds limit (dp_fds s)) = card (free_fds limit (dp_fds s')) + 2"
proof -
  obtain r w T' where p: "sys_pipe limit n (dp_fds s) = Some (r, w, T')"
    and c: "card (free_fds limit (dp_fds s)) = card (free_fds limit T') + 2"
    using sys_pipe_ok [OF assms] by blast
  show ?thesis using sys_pipe_facts [OF p] p c by (auto simp: p_pipe_def)
qed

lemma p_snd_ok:
  assumes "p_buf P = Some a" and "hcell (dp_heap s) a = Some b" and "p_fd P = (r, w)"
  shows "\<exists>x s'. p_snd (Some f) P s = Inr (fst (snd_loop f 1 b), s') \<and>
    hcell (dp_heap s') = (hcell (dp_heap s))(a \<mapsto> x) \<and> dp_fds s' = (dp_fds s)(r := None, w := None)"
  using assms
  by (intro exI [of _ "snd (snd_loop f 1 b)"]) (simp add: p_snd_def sys_close_def Let_def case_prod_beta)

lemma p_rcv_ok:
  assumes "p_buf P = Some a" and "hcell (dp_heap s) a = Some b" and "length b = PIPE_BUF_SZ" and "p_fd P = (r, w)"
  shows "\<exists>x s'. p_rcv True (fst (snd_loop f 1 b0)) P s = Inr (f, s') \<and>
    hcell (dp_heap s') = (hcell (dp_heap s))(a \<mapsto> x) \<and> dp_fds s' = (dp_fds s)(w := None, r := None)"
proof -
  obtain x where "rcv_loop (fst (snd_loop f 1 b0)) 1 b [] = Inr (f, x)"
    using rcv_snd_loop [of 1 b f b0 "[]"] assms(3) by auto
  then have "p_rcv True (fst (snd_loop f 1 b0)) P s = Inr (f,
      \<lparr>dp_heap = (dp_heap s)\<lparr>hcell := (hcell (dp_heap s))(a \<mapsto> x)\<rparr>, dp_fds = (dp_fds s)(w := None, r := None)\<rparr>)"
    using assms by (simp add: p_rcv_def sys_close_def Let_def)
  then show ?thesis by fastforce
qed

lemma dp_clear_ok:
  assumes "p_buf P1 = Some a" and "p_buf P2 = Some b" and "a \<noteq> b"
    and "hcell (dp_heap s) = m(a \<mapsto> x, b \<mapsto> y)" and "m a = None" and "m b = None"
  shows "\<exists>s'. dp_clear P1 P2 s = Inr s' \<and> hcell (dp_heap s') = m \<and> dp_fds s' = dp_fds s"
proof -
  have "hcell (dp_heap s) a = Some x" "hcell (dp_heap s) b = Some y" using assms(3,4) by simp_all
  then have "dp_clear P1 P2 s = Inr (s\<lparr>dp_heap := (dp_heap s)\<lparr>hcell := (hcell (dp_heap s))(a := None, b := None)\<rparr>\<rparr>)"
    using assms(1-3) by (simp add: dp_clear_def p_clear_def str_clear_def)
  moreover have "(hcell (dp_heap s))(a := None, b := None) = m" using assms(3-6) by (auto simp: fun_eq_iff)
  ultimately show ?thesis by simp
qed

section \<open>The property\<close>

text \<open>C33. The duplex pipe copies every file there and back, and leaves nothing behind: for every content
  of the source file, the empty one and those that are a multiple of the buffer included, if every
  \<open>read\<close> delivers the packet of one \<open>write\<close>, the destination gets exactly the source, and so does the
  source when the child sends it back; and at the end both processes have freed their two buffers
  and closed both ends of both pipes. The signed and unsigned bytes of the header decode every
  length from 0 to 65024, and the sequence number stays in step through its wrap-around at 128.\<close>

theorem duplex_roundtrip:
  assumes "heap_ok (dp_heap s)" and "4 \<le> card (free_fds limit (dp_fds s))"
  shows "\<exists>parent child. dp_main 3 limit True True True (Some f) True True id id s = Inr (f, f, parent, child) \<and>
    dp_fds parent = dp_fds s \<and> dp_fds child = dp_fds s \<and>
    hcell (dp_heap parent) = hcell (dp_heap s) \<and> hcell (dp_heap child) = hcell (dp_heap s)"
proof -
  let ?z = "replicate PIPE_BUF_SZ 0" and ?m = "hcell (dp_heap s)"
  obtain P1 a s1 where c1: "ctorPipe True s = (P1, s1)" "p_buf P1 = Some a" "?m a = None"
      "hcell (dp_heap s1) = ?m(a \<mapsto> ?z)" "heap_ok (dp_heap s1)" "dp_fds s1 = dp_fds s"
    using ctorPipe_ok [OF assms(1)] by blast
  obtain P2 b s2 where c2: "ctorPipe True s1 = (P2, s2)" "p_buf P2 = Some b" "hcell (dp_heap s1) b = None"
      "hcell (dp_heap s2) = (hcell (dp_heap s1))(b \<mapsto> ?z)" "dp_fds s2 = dp_fds s1"
    using ctorPipe_ok [OF c1(5)] by blast
  have ab: "a \<noteq> b" "?m b = None" using c1(4) c2(3) by (auto split: if_splits)
  obtain r1 w1 Q1 s3 where p1: "p_pipe limit 0 P1 s2 = Inr (Q1, s3)" "p_buf Q1 = p_buf P1" "p_fd Q1 = (r1, w1)"
      "dp_heap s3 = dp_heap s2" "dp_fds s3 = (dp_fds s2)(r1 \<mapsto> PipeR 0, w1 \<mapsto> PipeW 0)" "dp_fds s2 r1 = None"
      "dp_fds s2 w1 = None" "r1 \<noteq> w1" "card (free_fds limit (dp_fds s2)) = card (free_fds limit (dp_fds s3)) + 2"
    using p_pipe_ok [of limit s2] assms(2) c1(6) c2(5) by fastforce
  have "2 \<le> card (free_fds limit (dp_fds s3))" using p1(9) assms(2) c1(6) c2(5) by simp
  from p_pipe_ok [OF this] obtain r2 w2 Q2 s4 where
    p2: "p_pipe limit 1 P2 s3 = Inr (Q2, s4)" "p_buf Q2 = p_buf P2" "p_fd Q2 = (r2, w2)"
      "dp_heap s4 = dp_heap s3" "dp_fds s4 = (dp_fds s3)(r2 \<mapsto> PipeR 1, w2 \<mapsto> PipeW 1)" "dp_fds s3 r2 = None"
      "dp_fds s3 w2 = None" "r2 \<noteq> w2" by blast
  have heap: "hcell (dp_heap s4) = ?m(a \<mapsto> ?z, b \<mapsto> ?z)" using c1(4) c2(4) p1(4) p2(4) by simp
  obtain x1 parent1 where snd1: "p_snd (Some f) Q1 s4 = Inr (fst (snd_loop f 1 ?z), parent1)"
      "hcell (dp_heap parent1) = (hcell (dp_heap s4))(a \<mapsto> x1)" "dp_fds parent1 = (dp_fds s4)(r1 := None, w1 := None)"
    using p_snd_ok [of Q1 a s4 ?z r1 w1 f] p1(2,3) c1(2) heap ab(1) by auto
  obtain x2 child1 where rcv1: "p_rcv True (fst (snd_loop f 1 ?z)) Q1 s4 = Inr (f, child1)"
      "hcell (dp_heap child1) = (hcell (dp_heap s4))(a \<mapsto> x2)" "dp_fds child1 = (dp_fds s4)(w1 := None, r1 := None)"
    using p_rcv_ok [of Q1 a s4 ?z r1 w1 f ?z] p1(2,3) c1(2) heap ab(1) by auto
  obtain x3 child2 where snd2: "p_snd (Some f) Q2 child1 = Inr (fst (snd_loop f 1 ?z), child2)"
      "hcell (dp_heap child2) = (hcell (dp_heap child1))(b \<mapsto> x3)" "dp_fds child2 = (dp_fds child1)(r2 := None, w2 := None)"
    using p_snd_ok [of Q2 b child1 ?z r2 w2 f] p2(2,3) c2(2) heap ab(1) rcv1(2) by auto
  obtain x4 parent2 where rcv2: "p_rcv True (fst (snd_loop f 1 ?z)) Q2 parent1 = Inr (f, parent2)"
      "hcell (dp_heap parent2) = (hcell (dp_heap parent1))(b \<mapsto> x4)" "dp_fds parent2 = (dp_fds parent1)(w2 := None, r2 := None)"
    using p_rcv_ok [of Q2 b parent1 ?z r2 w2 f ?z] p2(2,3) c2(2) heap ab(1) snd1(2) by auto
  have "hcell (dp_heap parent2) = ?m(a \<mapsto> x1, b \<mapsto> x4)" "hcell (dp_heap child2) = ?m(a \<mapsto> x2, b \<mapsto> x3)"
    using ab(1) by (simp_all add: rcv2 snd1 snd2 rcv1 heap fun_upd_twist)
  then obtain parent child where
    clear: "dp_clear Q1 Q2 parent2 = Inr parent" "hcell (dp_heap parent) = ?m" "dp_fds parent = dp_fds parent2"
      "dp_clear Q1 Q2 child2 = Inr child" "hcell (dp_heap child) = ?m" "dp_fds child = dp_fds child2"
    using dp_clear_ok [of Q1 a Q2 b] c1(2,3) c2(2) p1(2) p2(2) ab by metis
  have "dp_fds parent = dp_fds s \<and> dp_fds child = dp_fds s"
    using p1(5-8) p2(5-8) c1(6) c2(5) by (auto simp: clear rcv2 snd1 snd2 rcv1 fun_eq_iff split: if_splits)
  moreover have "dp_main 3 limit True True True (Some f) True True id id s = Inr (f, f, parent, child)"
    using p2(1) by (simp add: dp_main_def c1(1) c2(1) p1(1) snd1(1) [simplified] rcv1(1) [simplified] snd2(1) [simplified] rcv2(1) [simplified] clear(1,4))
  ultimately show ?thesis using clear(2,5) by blast
qed

theorem duplex_roundtrip_witness:
  "\<exists>parent child. dp_main 3 7 True True True (Some [104, 105]) True True id id
      \<lparr>dp_heap = \<lparr>hnext = 0, hcell = Map.empty\<rparr>, dp_fds = [0 \<mapsto> Stdin, 1 \<mapsto> Stdout, 2 \<mapsto> Stderr]\<rparr> =
      Inr ([104, 105], [104, 105], parent, child) \<and>
    hcell (dp_heap parent) = Map.empty \<and> dp_fds child = [0 \<mapsto> Stdin, 1 \<mapsto> Stdout, 2 \<mapsto> Stderr]"
proof -
  let ?T = "[0 \<mapsto> Stdin, 1 \<mapsto> Stdout, 2 \<mapsto> Stderr] :: fdtab"
  have "free_fds 7 ?T = {3, 4, 5, 6}" by (auto simp: free_fds_def split: if_splits)
  then have "4 \<le> card (free_fds 7 (dp_fds \<lparr>dp_heap = \<lparr>hnext = 0, hcell = Map.empty\<rparr>, dp_fds = ?T\<rparr>))" by simp
  from duplex_roundtrip [OF _ this, of "[104, 105]"] show ?thesis by (auto simp: heap_ok_def)
qed

end
