(* ===== verification/MsgQueue.thy ===== *)
theory MsgQueue
  imports Prelude
begin

text \<open>
  The transfer through a System V message queue (\<open>task3/msg-queue-SYSV/src/mq_main.c\<close>): the child
  cuts the file into messages of at most 128 bytes and ends with one of type 255, the parent
  writes what it receives until that message. The queue keeps the order of the messages.
\<close>

section \<open>Sending and receiving\<close>

definition MSG_TEXT_SZ :: nat where
  "MSG_TEXT_SZ = 128"

definition STD_MSG_TYPE :: int where
  "STD_MSG_TYPE = 1"

definition LAST_MSG_TYPE :: int where
  "LAST_MSG_TYPE = 255"

record Message =
  mtype :: int
  mtext :: bytes

text \<open>
  \<open>strcpy(s_msg.mtext, buf)\<close> copies up to the first NUL of \<open>buf\<close>. Without one in its 128 bytes it
  reads past the block and writes past the member. What was in \<open>mtext\<close> behind the copied NUL stays.
\<close>

definition copy_text :: "bytes \<Rightarrow> bytes \<Rightarrow> c_error + bytes" where
  "copy_text tx buf =
     (if 0 \<notin> set buf then Inl OutOfBounds
      else let s = takeWhile (\<lambda>c. c \<noteq> 0) buf in Inr (s @ 0 # drop (length s + 1) tx))"

text \<open>
  The loop of \<open>send\<close>. \<open>rest\<close> is what \<open>read\<close> has not delivered yet, \<open>buf\<close> the block from \<open>malloc\<close> and
  \<open>tx\<close> the uninitialised \<open>s_msg.mtext\<close>; \<open>msgsnd\<close> takes the first \<open>read_sz\<close> bytes.
\<close>

function send_loop :: "bytes \<Rightarrow> bytes \<Rightarrow> bytes \<Rightarrow> c_error + Message list" where
  "send_loop rest buf tx =
     (let chunk = take MSG_TEXT_SZ rest; read_sz = length chunk;
          buf = chunk @ drop read_sz buf in
      case copy_text tx buf of Inl e \<Rightarrow> Inl e
      | Inr tx \<Rightarrow>
          if read_sz \<noteq> MSG_TEXT_SZ then
            Inr ((if read_sz \<noteq> 0 then [\<lparr>mtype = STD_MSG_TYPE, mtext = take read_sz tx\<rparr>] else []) @
                 [\<lparr>mtype = LAST_MSG_TYPE, mtext = []\<rparr>])
          else
            (case send_loop (drop MSG_TEXT_SZ rest) buf tx of Inl e \<Rightarrow> Inl e
             | Inr ms \<Rightarrow> Inr (\<lparr>mtype = STD_MSG_TYPE, mtext = take MSG_TEXT_SZ tx\<rparr> # ms)))"
  by pat_completeness auto
termination by (relation "measure (\<lambda>(rest, _). length rest)") (auto simp: MSG_TEXT_SZ_def)

declare send_loop.simps [simp del]

definition mq_send :: "bytes option \<Rightarrow> bytes \<Rightarrow> bytes \<Rightarrow> c_error + Message list" where
  "mq_send src buf tx = (case src of None \<Rightarrow> Inl (Exit 1) | Some f \<Rightarrow> send_loop f buf tx)"

text \<open>
  \<open>receive\<close> on the messages in the queue: what it has written when it ends, \<open>None\<close> if it waits
  for more.
\<close>

fun mq_receive :: "Message list \<Rightarrow> bytes \<Rightarrow> bytes option" where
  "mq_receive [] out = None"
| "mq_receive (m # ms) out =
     (if mtype m = LAST_MSG_TYPE then Some out else mq_receive ms (out @ mtext m))"

text \<open>\<open>getmsgid\<close>: the results of \<open>ftok\<close> and \<open>msgget\<close>.\<close>

definition getmsgid :: "int \<Rightarrow> int \<Rightarrow> c_error + int" where
  "getmsgid key msgid =
     (if key = -1 then Inl (Exit 1) else if msgid = -1 then Inl (Exit 1) else Inr msgid)"

text \<open>
  The two processes of \<open>main\<close>: the parent receives what the child sent, nothing if the child
  ended early.
\<close>

definition mq_main :: "int \<Rightarrow> int \<Rightarrow> bool \<Rightarrow> bytes option \<Rightarrow> bytes \<Rightarrow> bytes \<Rightarrow> c_error + bytes option" where
  "mq_main key msgid fork_ok src buf tx =
     (case getmsgid key msgid of Inl e \<Rightarrow> Inl e
      | Inr msgid \<Rightarrow>
          if \<not> fork_ok then Inl (Exit 1)
          else
            (case mq_send src buf tx of
               Inl (Exit n) \<Rightarrow> Inr (mq_receive [] [])
             | Inl e \<Rightarrow> Inl e
             | Inr ms \<Rightarrow> Inr (mq_receive ms [])))"

section \<open>The properties\<close>

lemma copy_text_prefix:
  assumes "0 \<notin> set f" and "length f < MSG_TEXT_SZ" and "0 \<in> set (drop (length f) buf)"
  shows "\<exists>t. copy_text tx (f @ drop (length f) buf) = Inr t \<and> take (length f) t = f"
proof -
  let ?r = "drop (length f) buf"
  have "takeWhile (\<lambda>c. c \<noteq> 0) (f @ ?r) = f @ takeWhile (\<lambda>c. c \<noteq> 0) ?r"
    using assms(1) by (intro takeWhile_append2) auto
  then show ?thesis using assms(3) by (simp add: copy_text_def Let_def)
qed

text \<open>C8. Text files through the message queue: a file without NUL bytes arrives whole if it is shorter
  than one message and a NUL lies behind it in the uninitialised buffer; in every other case,
  in particular for every text of 128 bytes or more, \<open>strcpy\<close> runs over the end of both buffers.\<close>

theorem mq_text_transfer:
  assumes "0 \<notin> set f" and "length buf = MSG_TEXT_SZ" and "key \<noteq> -1" and "msgid \<noteq> -1"
  shows "mq_main key msgid True (Some f) buf tx =
    (if length f < MSG_TEXT_SZ \<and> 0 \<in> set (drop (length f) buf) then Inr (Some f) else Inl OutOfBounds)"
proof (cases "length f < MSG_TEXT_SZ \<and> 0 \<in> set (drop (length f) buf)")
  case True
  then have small: "length f < MSG_TEXT_SZ" and nul: "0 \<in> set (drop (length f) buf)" by simp_all
  from copy_text_prefix [OF assms(1) small nul] obtain t where
    t: "copy_text tx (f @ drop (length f) buf) = Inr t" "take (length f) t = f" by blast
  with small show ?thesis
    by (subst if_P [OF True])
       (simp add: mq_main_def getmsgid_def assms(3,4) mq_send_def send_loop.simps STD_MSG_TYPE_def LAST_MSG_TYPE_def)
next
  case False
  have "0 \<notin> set (take MSG_TEXT_SZ f @ drop (length (take MSG_TEXT_SZ f)) buf)"
  proof (cases "length f < MSG_TEXT_SZ")
    case True
    then show ?thesis using False assms(1) by simp
  next
    case False
    then show ?thesis using assms by (auto dest: in_set_takeD)
  qed
  then have "send_loop f buf tx = Inl OutOfBounds"
    by (subst send_loop.simps) (simp only: Let_def copy_text_def if_True simp_thms if_True sum.case)
  then show ?thesis by (subst if_not_P [OF False]) (simp add: mq_main_def getmsgid_def assms(3,4) mq_send_def)
qed

theorem mq_text_transfer_witness:
  "mq_main 7 0 True (Some [104, 105]) (replicate 128 0) [] = Inr (Some [104, 105]) \<and>
   mq_main 7 0 True (Some (replicate 128 65)) (replicate 128 0) [] = Inl OutOfBounds"
  using mq_text_transfer [of "[104, 105]" "replicate 128 0" 7 0 "[]"]
    mq_text_transfer [of "replicate 128 65" "replicate 128 0" 7 0 "[]"] by (simp add: MSG_TEXT_SZ_def)

text \<open>A NUL byte in the file: what follows it in the same message is replaced by older contents.\<close>

lemma mq_loses_bytes_after_nul:
  "mq_main 7 0 True (Some [104, 0, 105]) (replicate 128 7) (replicate 128 9) = Inr (Some [104, 0, 9])"
  by (simp add: mq_main_def getmsgid_def mq_send_def send_loop.simps copy_text_def STD_MSG_TYPE_def LAST_MSG_TYPE_def
      MSG_TEXT_SZ_def)

end
