(* ===== verification/Integral.thy ===== *)
theory Integral
  imports CString
begin

text \<open>
  The Monte Carlo integrator (\<open>task4/integral-mk/src/mk_main.c\<close>): in each of 20 tests a child starts 16
  threads that share out the points, count those under the graph and add their counts to the shared
  memory under a mutex, while the parent polls the number of threads that are done and reads the
  total. The points come from \<open>rand_r\<close> and floating point arithmetic, so whether a point lies
  below the graph is a parameter of the model, and so are the times.
\<close>

section \<open>Points\<close>

definition POINTS_NUM :: nat where
  "POINTS_NUM = 100000000"

definition THREADS_NUM :: nat where
  "THREADS_NUM = 16"

definition TEST_NUM :: nat where
  "TEST_NUM = 20"

lemmas integral_consts = POINTS_NUM_def THREADS_NUM_def TEST_NUM_def

text \<open>The number of points \<open>Send\<close> gives to thread \<open>i\<close>.\<close>

definition points_of :: "nat \<Rightarrow> nat \<Rightarrow> nat \<Rightarrow> nat" where
  "points_of pts threads i =
     (let K = pts div threads in if i + 1 = threads then pts - i * K else K)"

text \<open>
  \<open>GeneratePoints\<close> up to its critical section: \<open>s\<close> is a 32 bit counter that starts with whatever
  \<open>s0\<close> the stack holds.
\<close>

fun count_points :: "(nat \<Rightarrow> bool) \<Rightarrow> nat \<Rightarrow> 32 word \<Rightarrow> 32 word" where
  "count_points below 0 s = s"
| "count_points below (Suc n) s =
     (let s = count_points below n s in if below n then s + 1 else s)"

section \<open>Shared memory\<close>

text \<open>\<open>getaddr\<close> on the results of \<open>ftok\<close>, \<open>shmget\<close> and \<open>shmat\<close>.\<close>

definition mk_getaddr :: "int \<Rightarrow> int \<Rightarrow> int \<Rightarrow> c_error + int" where
  "mk_getaddr key shmid shmptr =
     (if key = -1 then Inl (Exit 1) else if shmid = -1 then Inl (Exit 1)
      else if shmptr = -1 then Inl (Exit 1) else Inr shmptr)"

section \<open>The times\<close>

text \<open>The median \<open>main\<close> reports of the sorted times.\<close>

definition median_index :: nat where
  "median_index = TEST_NUM div 2 - (if TEST_NUM mod 2 = 0 then 1 else 0)"

definition median_time :: "('d :: linorder) list \<Rightarrow> 'd" where
  "median_time ts = sort ts ! median_index"

definition double_cmp :: "'d :: linorder \<Rightarrow> 'd \<Rightarrow> int" where
  "double_cmp a b = (if a > b then 1 else if a < b then -1 else 0)"

text \<open>\<open>qsort\<close> orders the times by this comparison, and the entry taken is the lower of the two middle ones.\<close>

lemma sort_double_cmp: "sorted_wrt (\<lambda>a b. double_cmp a b \<le> 0) (sort ts)"
  using sorted_sort [of ts] by (rule sorted_wrt_mono_rel [rotated]) (simp add: double_cmp_def linorder_not_less)

lemma median_index_lower: "median_index = 9"
  by (simp add: median_index_def TEST_NUM_def)

section \<open>Shares and counts\<close>

definition hits :: "(nat \<Rightarrow> bool) \<Rightarrow> nat \<Rightarrow> nat" where
  "hits below n = card {j. j < n \<and> below j}"

lemma hits_0: "hits below 0 = 0"
  by (simp add: hits_def)

lemma hits_Suc: "hits below (Suc n) = hits below n + (if below n then 1 else 0)"
proof -
  have "{j. j < Suc n \<and> below j} = {j. j < n \<and> below j} \<union> (if below n then {n} else {})"
    by (auto simp: less_Suc_eq)
  then show ?thesis by (simp add: hits_def)
qed

lemma hits_le: "hits below n \<le> n"
  by (induction n) (simp_all add: hits_Suc hits_0)

lemma count_points_hits: "count_points below n s = s + word_of_nat (hits below n)"
  by (induction n) (simp_all add: Let_def hits_Suc hits_0)

text \<open>The shares add up to all points, however many threads there are.\<close>

lemma points_of_sum:
  assumes "0 < threads"
  shows "(\<Sum>i<threads. points_of pts threads i) = pts"
proof -
  let ?K = "pts div threads"
  obtain t where t: "threads = Suc t" using assms by (cases threads) auto
  have "(\<Sum>i<t. points_of pts threads i) = (\<Sum>i<t. ?K)"
    by (rule sum.cong) (auto simp: points_of_def t)
  moreover have "t * ?K \<le> pts"
    using t by (metis le_add2 le_trans mult_Suc times_div_less_eq_dividend)
  ultimately show ?thesis by (simp add: t points_of_def)
qed

lemma sint_count: "n \<le> 100000000 \<Longrightarrow> sint (word_of_nat n :: 32 word) = int n"
proof -
  assume n: "n \<le> 100000000"
  have "sint (word_of_int (int n) :: 32 word) = signed_take_bit 31 (int n)" unfolding sint_sbintrunc' by simp
  also have "\<dots> = int n" using n by (intro signed_take_bit_int_eq_self) simp_all
  finally show ?thesis by simp
qed

section \<open>State\<close>

text \<open>
  What the program is given: whether the file of results opens, what \<open>ftok\<close>, \<open>shmget\<close> and \<open>shmat\<close>
  return in each test, which forks and creations of threads succeed, which points lie below the
  graph, what the counters of the threads start with, how long a test took, and \<open>%.5f\<close>.
\<close>

record 'd mk_env =
  mk_fopen :: bool
  mk_addr :: "nat \<Rightarrow> int \<times> int \<times> int"
  mk_fork :: "nat \<Rightarrow> bool"
  mk_create :: "nat \<Rightarrow> nat \<Rightarrow> bool"
  mk_below :: "nat \<Rightarrow> nat \<Rightarrow> nat \<Rightarrow> bool"
  mk_s0 :: "nat \<Rightarrow> nat \<Rightarrow> 32 word"
  mk_took :: "nat \<Rightarrow> 'd"
  mk_text :: "'d \<Rightarrow> string"

text \<open>
  The parent: before \<open>fopen\<close>, before \<open>getaddr\<close>, before each of the two stores that clear the segment,
  before \<open>fork\<close>, in the loop of \<open>Receive\<close>, after it, before the median, ended. A thread: not created,
  before its critical section, at each load and store of it, before it unlocks, ended.
\<close>

datatype mk_pc = MkOpen | MkAttach | MkClear0 | MkClear1 | MkFork | MkWait | MkRead | MkReport | MkEnd | MkFail c_error

datatype gen_pc = GOff | GPoints | GLoad0 | GStore0 "32 word" | GLoad1 | GStore1 "32 word" | GUnlock | GEnd

text \<open>
  Every test has a child of its own, with its own threads and its own copy of \<open>pmutex\<close>; they all use
  the segment \<open>shm0\<close>, \<open>shm1\<close>. \<open>kids\<close> is the number of children, \<open>made r\<close> how many threads the child of
  test \<open>r\<close> has tried to create. \<open>totals\<close> are the values of \<open>shm[1]\<close> from which the integrals were
  printed, each with the thread that had not added its count yet (history), \<open>mk_out\<close> what was
  written to the file.
\<close>

record mk_run =
  shm0 :: "32 word"
  shm1 :: "32 word"
  mk_i :: nat
  mk_at :: mk_pc
  kids :: nat
  made :: "nat \<Rightarrow> nat"
  gen_at :: "nat \<Rightarrow> nat \<Rightarrow> gen_pc"
  pmutex :: "nat \<Rightarrow> nat option"
  totals :: "(32 word \<times> nat option) list"
  mk_out :: "string list"

section \<open>Steps\<close>

text \<open>What thread \<open>i\<close> of test \<open>r\<close> has counted when it comes to its critical section.\<close>

definition gen_count :: "'d mk_env \<Rightarrow> nat \<Rightarrow> nat \<Rightarrow> 32 word" where
  "gen_count E r i = count_points (mk_below E r i) (points_of POINTS_NUM THREADS_NUM i) (mk_s0 E r i)"

definition set_gen :: "nat \<Rightarrow> nat \<Rightarrow> gen_pc \<Rightarrow> mk_run \<Rightarrow> mk_run" where
  "set_gen r i p s = s\<lparr>gen_at := (gen_at s)(r := (gen_at s r)(i := p))\<rparr>"

fun adding :: "gen_pc \<Rightarrow> bool" where
  "adding GLoad1 = True"
| "adding (GStore1 v) = True"
| "adding _ = False"

definition late :: "mk_run \<Rightarrow> nat \<Rightarrow> nat option" where
  "late s r = find (\<lambda>i. adding (gen_at s r i)) [0..<THREADS_NUM]"

text \<open>The texts written to the file.\<close>

definition mk_header :: string where
  "mk_header = ''Threads: '' @ dec_nat THREADS_NUM @ ''; #Points: '' @ dec_nat POINTS_NUM @ ''.'' @ [CHR 0x0A]"

definition mk_median :: "('d :: linorder) mk_env \<Rightarrow> string" where
  "mk_median E = [CHR 0x0A, CHR 0x09] @ ''t_m='' @ mk_text E (median_time (map (mk_took E) [0..<TEST_NUM])) @
     [CHR 0x0A, CHR 0x0A]"

text \<open>
  \<open>GeneratePoints\<close>, \<open>Send\<close>, \<open>Receive\<close> and \<open>main\<close>. The accesses to the segment happen in the order of the
  program; every \<open>+=\<close> is a load and a store.
\<close>

inductive mk_step :: "('d :: linorder) mk_env \<Rightarrow> mk_run \<Rightarrow> mk_run \<Rightarrow> bool" for E where
  \<comment> \<open>\<open>main\<close>\<close>
  mk_open: "mk_at s = MkOpen \<Longrightarrow> mk_fopen E \<Longrightarrow> mk_step E s (s\<lparr>mk_out := [mk_header], mk_at := MkAttach\<rparr>)"
| mk_open_fails: "mk_at s = MkOpen \<Longrightarrow> \<not> mk_fopen E \<Longrightarrow> mk_step E s (s\<lparr>mk_at := MkFail NullDeref\<rparr>)"
| mk_attach: "mk_at s = MkAttach \<Longrightarrow> mk_addr E (mk_i s) = (key, shmid, p) \<Longrightarrow> mk_getaddr key shmid p = Inr a \<Longrightarrow>
     mk_step E s (s\<lparr>mk_at := MkClear0\<rparr>)"
| mk_attach_fails: "mk_at s = MkAttach \<Longrightarrow> mk_addr E (mk_i s) = (key, shmid, p) \<Longrightarrow> mk_getaddr key shmid p = Inl e \<Longrightarrow>
     mk_step E s (s\<lparr>mk_at := MkFail e\<rparr>)"
| mk_clear0: "mk_at s = MkClear0 \<Longrightarrow> mk_step E s (s\<lparr>shm0 := 0, mk_at := MkClear1\<rparr>)"
| mk_clear1: "mk_at s = MkClear1 \<Longrightarrow> mk_step E s (s\<lparr>shm1 := 0, mk_at := MkFork\<rparr>)"
| mk_forks: "mk_at s = MkFork \<Longrightarrow> mk_fork E (mk_i s) \<Longrightarrow> mk_step E s (s\<lparr>kids := kids s + 1, mk_at := MkWait\<rparr>)"
| mk_fork_fails: "mk_at s = MkFork \<Longrightarrow> \<not> mk_fork E (mk_i s) \<Longrightarrow> mk_step E s (s\<lparr>mk_at := MkFail (Exit 1)\<rparr>)"
| mk_wait: "mk_at s = MkWait \<Longrightarrow> sint (shm0 s) = int THREADS_NUM \<Longrightarrow> mk_step E s (s\<lparr>mk_at := MkRead\<rparr>)"
| mk_read: "mk_at s = MkRead \<Longrightarrow>
     mk_step E s (s\<lparr>totals := totals s @ [(shm1 s, late s (mk_i s))], mk_i := mk_i s + 1,
       mk_at := (if mk_i s + 1 < TEST_NUM then MkAttach else MkReport)\<rparr>)"
| mk_report: "mk_at s = MkReport \<Longrightarrow> mk_step E s (s\<lparr>mk_out := mk_out s @ [mk_median E], mk_at := MkEnd\<rparr>)"
  \<comment> \<open>\<open>Send\<close>, in the child of test \<open>r\<close>\<close>
| mk_makes: "r < kids s \<Longrightarrow> made s r < THREADS_NUM \<Longrightarrow> mk_create E r (made s r) \<Longrightarrow>
     mk_step E s (set_gen r (made s r) GPoints s\<lparr>made := (made s)(r := made s r + 1)\<rparr>)"
| mk_make_fails: "r < kids s \<Longrightarrow> made s r < THREADS_NUM \<Longrightarrow> \<not> mk_create E r (made s r) \<Longrightarrow>
     mk_step E s (s\<lparr>made := (made s)(r := made s r + 1)\<rparr>)"
  \<comment> \<open>\<open>GeneratePoints\<close>, in its thread \<open>i\<close>\<close>
| gen_lock: "gen_at s r i = GPoints \<Longrightarrow> pmutex s r = None \<Longrightarrow>
     mk_step E s (set_gen r i GLoad0 s\<lparr>pmutex := (pmutex s)(r := Some i)\<rparr>)"
| gen_load0: "gen_at s r i = GLoad0 \<Longrightarrow> mk_step E s (set_gen r i (GStore0 (shm0 s)) s)"
| gen_store0: "gen_at s r i = GStore0 v \<Longrightarrow> mk_step E s (set_gen r i GLoad1 s\<lparr>shm0 := v + 1\<rparr>)"
| gen_load1: "gen_at s r i = GLoad1 \<Longrightarrow> mk_step E s (set_gen r i (GStore1 (shm1 s)) s)"
| gen_store1: "gen_at s r i = GStore1 v \<Longrightarrow> mk_step E s (set_gen r i GUnlock s\<lparr>shm1 := v + gen_count E r i\<rparr>)"
| gen_unlock: "gen_at s r i = GUnlock \<Longrightarrow> mk_step E s (set_gen r i GEnd s\<lparr>pmutex := (pmutex s)(r := None)\<rparr>)"

inductive_cases mk_stepE: "mk_step E s s'"

text \<open>The segment holds anything at first.\<close>

definition mk_start :: "32 word \<Rightarrow> 32 word \<Rightarrow> mk_run" where
  "mk_start v0 v1 = \<lparr>shm0 = v0, shm1 = v1, mk_i = 0, mk_at = MkOpen, kids = 0, made = (\<lambda>_. 0),
     gen_at = (\<lambda>_ _. GOff), pmutex = (\<lambda>_. None), totals = [], mk_out = []\<rparr>"

definition mk_reachable :: "('d :: linorder) mk_env \<Rightarrow> mk_run \<Rightarrow> bool" where
  "mk_reachable E s \<longleftrightarrow> (\<exists>v0 v1. (mk_step E)\<^sup>*\<^sup>* (mk_start v0 v1) s)"

end
