(* ===== verification/IntegralRun.thy ===== *)
theory IntegralRun
  imports Integral FileTransfer
begin

text \<open>
  The invariants of all runs of the Monte Carlo integrator (\<open>task4/integral-mk\<close>), and why they end: who
  holds the mutex, what \<open>shm[0]\<close> and \<open>shm[1]\<close> hold while a thread has announced itself but not yet added its
  count, what the parent reads, the work left and that some process can move.
\<close>

section \<open>Who is where\<close>

fun inside :: "gen_pc \<Rightarrow> bool" where
  "inside GOff = False"
| "inside GPoints = False"
| "inside GEnd = False"
| "inside _ = True"

fun announced :: "gen_pc \<Rightarrow> bool" where
  "announced GOff = False"
| "announced GPoints = False"
| "announced GLoad0 = False"
| "announced (GStore0 v) = False"
| "announced _ = True"

fun added :: "gen_pc \<Rightarrow> bool" where
  "added GUnlock = True"
| "added GEnd = True"
| "added _ = False"

lemma announced_cases: "announced p \<longleftrightarrow> added p \<or> adding p"
  by (cases p) auto

lemma adding_inside: "adding p \<Longrightarrow> inside p \<and> \<not> added p"
  by (cases p) auto

text \<open>Where the tests are: \<open>kids\<close> is one ahead of \<open>mk_i\<close> while a test is running.\<close>

fun running :: "mk_pc \<Rightarrow> bool" where
  "running MkWait = True"
| "running MkRead = True"
| "running _ = False"

fun in_tests :: "mk_pc \<Rightarrow> bool" where
  "in_tests MkOpen = True"
| "in_tests MkReport = False"
| "in_tests MkEnd = False"
| "in_tests (MkFail e) = True"
| "in_tests _ = True"

fun written :: "('d :: linorder) mk_env \<Rightarrow> mk_pc \<Rightarrow> string list" where
  "written E MkOpen = []"
| "written E MkEnd = [mk_header, mk_median E]"
| "written E _ = [mk_header]"

definition mk_places :: "('d :: linorder) mk_env \<Rightarrow> mk_run \<Rightarrow> bool" where
  "mk_places E s \<longleftrightarrow>
     (\<forall>r i. made s r \<le> i \<longrightarrow> gen_at s r i = GOff) \<and> (\<forall>r. made s r \<le> THREADS_NUM) \<and>
     (\<forall>r \<ge> kids s. made s r = 0) \<and>
     (\<forall>r i. i < made s r \<longrightarrow> (gen_at s r i = GOff \<longleftrightarrow> \<not> mk_create E r i)) \<and>
     (\<forall>r i. pmutex s r = Some i \<longleftrightarrow> inside (gen_at s r i)) \<and>
     kids s = mk_i s + (if running (mk_at s) then 1 else 0) \<and>
     length (totals s) = mk_i s \<and>
     (if in_tests (mk_at s) then mk_i s < TEST_NUM else mk_i s = TEST_NUM) \<and>
     ((\<forall>e. mk_at s \<noteq> MkFail e) \<longrightarrow> mk_out s = written E (mk_at s))"

lemma gen_at_set_gen [simp]:
  "gen_at (set_gen r i p s) = (gen_at s)(r := (gen_at s r)(i := p))"
  "shm0 (set_gen r i p s) = shm0 s" "shm1 (set_gen r i p s) = shm1 s" "mk_i (set_gen r i p s) = mk_i s"
  "mk_at (set_gen r i p s) = mk_at s" "kids (set_gen r i p s) = kids s" "made (set_gen r i p s) = made s"
  "pmutex (set_gen r i p s) = pmutex s" "totals (set_gen r i p s) = totals s" "mk_out (set_gen r i p s) = mk_out s"
  by (simp_all add: set_gen_def)

lemma inside_made: "mk_places E s \<Longrightarrow> gen_at s r i \<noteq> GOff \<Longrightarrow> i < made s r \<and> i < THREADS_NUM \<and> r < kids s"
  unfolding mk_places_def by (metis le_less_trans not_le not_less_zero)

lemma mk_mutex: "mk_places E s \<Longrightarrow> inside (gen_at s r i) \<longleftrightarrow> pmutex s r = Some i"
  by (simp add: mk_places_def)

lemma mk_places_gen:
  assumes "mk_places E s" and "gen_at s r i \<noteq> GOff" and "p \<noteq> GOff"
    and "gen_at t = (gen_at s)(r := (gen_at s r)(i := p))"
    and "\<forall>q j. pmutex t q = Some j \<longleftrightarrow> inside (gen_at t q j)"
    and "made t = made s" "kids t = kids s" "mk_i t = mk_i s" "mk_at t = mk_at s" "totals t = totals s" "mk_out t = mk_out s"
  shows "mk_places E t"
  using assms inside_made [OF assms(1,2)] unfolding mk_places_def by auto

lemma mk_places_step: "mk_step E s s' \<Longrightarrow> mk_places E s \<Longrightarrow> mk_places E s'"
proof (induction rule: mk_step.induct)
  case (mk_makes r s)
  then show ?case by (auto simp: mk_places_def le_Suc_eq less_Suc_eq)
next
  case (mk_make_fails r s)
  then show ?case by (auto simp: mk_places_def less_Suc_eq)
next
  case (gen_lock s r i)
  then have "\<not> inside (gen_at s r j)" for j using mk_mutex [OF gen_lock(3)] by simp
  with gen_lock show ?case by (intro mk_places_gen [OF gen_lock(3), of r i GLoad0]) (auto simp: mk_places_def)
next
  case (gen_unlock s r i)
  then have "pmutex s r = Some i" using mk_mutex [OF gen_unlock(2), of r i] by simp
  then have "\<not> inside (gen_at s r j)" if "j \<noteq> i" for j using mk_mutex [OF gen_unlock(2)] that by simp
  with gen_unlock show ?case by (intro mk_places_gen [OF gen_unlock(2), of r i GEnd]) (auto simp: mk_places_def)
next
  case (gen_load0 s r i)
  then show ?case by (intro mk_places_gen [OF gen_load0(2), of r i "GStore0 (shm0 s)"]) (auto simp: mk_places_def)
next
  case (gen_store0 s r i v)
  then show ?case by (intro mk_places_gen [OF gen_store0(2), of r i GLoad1]) (auto simp: mk_places_def)
next
  case (gen_load1 s r i)
  then show ?case by (intro mk_places_gen [OF gen_load1(2), of r i "GStore1 (shm1 s)"]) (auto simp: mk_places_def)
next
  case (gen_store1 s r i v)
  then show ?case by (intro mk_places_gen [OF gen_store1(2), of r i GUnlock]) (auto simp: mk_places_def)
qed (auto simp: mk_places_def TEST_NUM_def)

section \<open>The number of threads that are done\<close>

definition announcers :: "mk_run \<Rightarrow> nat \<Rightarrow> nat set" where
  "announcers s r = {i. i < THREADS_NUM \<and> announced (gen_at s r i)}"

definition mk_counts :: "mk_run \<Rightarrow> bool" where
  "mk_counts s \<longleftrightarrow>
     (\<forall>r < mk_i s. \<forall>i < THREADS_NUM. announced (gen_at s r i)) \<and>
     (mk_at s \<in> {MkClear1, MkFork} \<longrightarrow> shm0 s = 0) \<and>
     (mk_at s = MkWait \<longrightarrow> shm0 s = word_of_nat (card (announcers s (mk_i s))) \<and>
       (\<forall>i v. gen_at s (mk_i s) i = GStore0 v \<longrightarrow> v = shm0 s)) \<and>
     (mk_at s = MkRead \<longrightarrow> (\<forall>i < THREADS_NUM. announced (gen_at s (mk_i s) i)))"

lemma finite_announcers [simp]: "finite (announcers s r)"
  by (simp add: announcers_def)

lemma announcers_le: "card (announcers s r) \<le> THREADS_NUM"
proof -
  have "announcers s r \<subseteq> {..<THREADS_NUM}" by (auto simp: announcers_def)
  then show ?thesis by (metis card_lessThan card_mono finite_lessThan)
qed

lemma announcers_all:
  assumes "card (announcers s r) = THREADS_NUM" and "i < THREADS_NUM"
  shows "announced (gen_at s r i)"
proof -
  have "announcers s r \<subseteq> {..<THREADS_NUM}" by (auto simp: announcers_def)
  then have "announcers s r = {..<THREADS_NUM}" using assms(1) by (simp add: card_subset_eq)
  then show ?thesis using assms(2) by (auto simp: announcers_def)
qed

text \<open>A thread that has not announced itself belongs to the test for which the parent waits.\<close>

lemma unannounced_now:
  assumes "mk_places E s" and "mk_counts s" and "gen_at s r i \<noteq> GOff" and "\<not> announced (gen_at s r i)"
  shows "r = mk_i s \<and> mk_at s = MkWait \<and> i < THREADS_NUM"
proof -
  have i: "i < THREADS_NUM" "r < kids s" using inside_made [OF assms(1,3)] by simp_all
  moreover have "\<not> r < mk_i s" using assms(2,4) i(1) by (auto simp: mk_counts_def)
  ultimately have "r = mk_i s" "running (mk_at s)" using assms(1) by (auto simp: mk_places_def split: if_splits)
  with assms(2,4) i(1) show ?thesis by (cases "mk_at s") (auto simp: mk_counts_def)
qed

lemma announcers_set:
  assumes "gen_at t = (gen_at s)(r := (gen_at s r)(i := p))" and "announced p \<longleftrightarrow> announced (gen_at s r i)"
  shows "announcers t q = announcers s q"
  using assms by (auto simp: announcers_def)

lemma mk_counts_gen:
  assumes "mk_counts s" and "gen_at t = (gen_at s)(r := (gen_at s r)(i := p))"
    and "announced p \<longleftrightarrow> announced (gen_at s r i)" and "\<forall>v. p = GStore0 v \<longrightarrow> v = shm0 s"
    and "mk_i t = mk_i s" "mk_at t = mk_at s" "shm0 t = shm0 s"
  shows "mk_counts t"
  using assms(1,3-) announcers_set [OF assms(2,3)] unfolding mk_counts_def by (auto simp: assms(2))

lemma mk_counts_step: "mk_step E s s' \<Longrightarrow> mk_counts s \<Longrightarrow> mk_places E s \<Longrightarrow> mk_counts s'"
proof (induction rule: mk_step.induct)
  case (mk_forks s)
  then have "\<forall>i. gen_at s (mk_i s) i = GOff" by (simp add: mk_places_def)
  then have "announcers s (mk_i s) = {}" by (simp add: announcers_def)
  with mk_forks show ?case by (auto simp: mk_counts_def announcers_def \<open>\<forall>i. gen_at s (mk_i s) i = GOff\<close>)
next
  case (mk_wait s)
  let ?n = "card (announcers s (mk_i s))"
  have "?n \<le> 100000000" using announcers_le [of s "mk_i s"] by (simp add: THREADS_NUM_def)
  then have "sint (word_of_nat ?n :: 32 word) = int ?n" by (rule sint_count)
  then have "?n = THREADS_NUM" using mk_wait by (simp add: mk_counts_def)
  from announcers_all [OF this] mk_wait show ?case by (simp add: mk_counts_def)
next
  case (mk_makes r s)
  have "gen_at s r (made s r) = GOff" using mk_makes(5) by (simp add: mk_places_def)
  with mk_makes(4) show ?case by (intro mk_counts_gen [OF mk_makes(4), of _ r "made s r" GPoints]) simp_all
next
  case (gen_store0 s r i v)
  note now = unannounced_now [OF gen_store0(3,2), of r i]
  have r: "r = mk_i s" "mk_at s = MkWait" "i < THREADS_NUM" using now gen_store0(1) by simp_all
  then have v: "v = shm0 s" "shm0 s = word_of_nat (card (announcers s r))"
    using gen_store0(1,2) by (auto simp: mk_counts_def)
  have others: "gen_at s r j \<noteq> GStore0 u" if "j \<noteq> i" for j u
    using mk_mutex [OF gen_store0(3), of r] gen_store0(1) that by (metis inside.simps(5) option.inject)
  let ?t = "set_gen r i GLoad1 s\<lparr>shm0 := v + 1\<rparr>"
  have "announcers ?t r = insert i (announcers s r)" using r(3) by (auto simp: announcers_def)
  moreover have "i \<notin> announcers s r" using gen_store0(1) by (simp add: announcers_def)
  ultimately have "card (announcers ?t r) = Suc (card (announcers s r))" by simp
  with gen_store0(2) r v others show ?case by (auto simp: mk_counts_def)
next
  case (gen_lock s r i)
  then show ?case by (intro mk_counts_gen [OF gen_lock(3), of _ r i GLoad0]) simp_all
next
  case (gen_load0 s r i)
  then show ?case by (intro mk_counts_gen [OF gen_load0(2), of _ r i "GStore0 (shm0 s)"]) simp_all
next
  case (gen_load1 s r i)
  then show ?case by (intro mk_counts_gen [OF gen_load1(2), of _ r i "GStore1 (shm1 s)"]) simp_all
next
  case (gen_store1 s r i v)
  then show ?case by (intro mk_counts_gen [OF gen_store1(2), of _ r i GUnlock]) simp_all
next
  case (gen_unlock s r i)
  then show ?case by (intro mk_counts_gen [OF gen_unlock(2), of _ r i GEnd]) simp_all
qed (auto simp: mk_counts_def announcers_def less_Suc_eq)

section \<open>The totals\<close>

definition whole :: "'d mk_env \<Rightarrow> nat \<Rightarrow> 32 word" where
  "whole E r = (\<Sum>i<THREADS_NUM. gen_count E r i)"

definition so_far :: "'d mk_env \<Rightarrow> mk_run \<Rightarrow> nat \<Rightarrow> 32 word" where
  "so_far E s r = (\<Sum>i<THREADS_NUM. if added (gen_at s r i) then gen_count E r i else 0)"

text \<open>A total that was read in test \<open>r\<close>, with the thread that was late, if one was.\<close>

definition total_of :: "'d mk_env \<Rightarrow> nat \<Rightarrow> 32 word \<times> nat option \<Rightarrow> bool" where
  "total_of E r = (\<lambda>(v, l). case l of None \<Rightarrow> v = whole E r
     | Some i \<Rightarrow> i < THREADS_NUM \<and> v = whole E r - gen_count E r i)"

text \<open>No total was read too early.\<close>

definition punctual :: "(32 word \<times> nat option) list \<Rightarrow> bool" where
  "punctual ts \<longleftrightarrow> (\<forall>t \<in> set ts. snd t = None)"

definition mk_sums :: "('d :: linorder) mk_env \<Rightarrow> mk_run \<Rightarrow> bool" where
  "mk_sums E s \<longleftrightarrow>
     (punctual (totals s) \<longrightarrow> (\<forall>r < mk_i s. \<forall>i. \<not> adding (gen_at s r i)) \<and>
       (mk_at s = MkFork \<longrightarrow> shm1 s = 0) \<and>
       (running (mk_at s) \<longrightarrow> shm1 s = so_far E s (mk_i s) \<and> (\<forall>i v. gen_at s (mk_i s) i = GStore1 v \<longrightarrow> v = shm1 s))) \<and>
     (\<forall>q < length (totals s). punctual (take q (totals s)) \<longrightarrow> total_of E q (totals s ! q))"

lemma so_far_gen:
  assumes "gen_at t = (gen_at s)(r := (gen_at s r)(i := p))" and "i < THREADS_NUM"
    and "gen_at s r i \<noteq> p"
  shows "so_far E t q = so_far E s q + (if q = r \<and> added p then gen_count E r i else 0)
    - (if q = r \<and> added (gen_at s r i) then gen_count E r i else 0)"
proof (cases "q = r")
  case True
  have "so_far E s r = (if added (gen_at s r i) then gen_count E r i else 0) +
      (\<Sum>j\<in>{..<THREADS_NUM} - {i}. if added (gen_at s r j) then gen_count E r j else 0)"
    unfolding so_far_def using assms(2) by (subst sum.remove [of _ i]) auto
  moreover have "so_far E t r = (if added p then gen_count E r i else 0) +
      (\<Sum>j\<in>{..<THREADS_NUM} - {i}. if added (gen_at t r j) then gen_count E r j else 0)"
    unfolding so_far_def using assms(1,2) by (subst sum.remove [of _ i]) auto
  moreover have "(\<Sum>j\<in>{..<THREADS_NUM} - {i}. if added (gen_at t r j) then gen_count E r j else 0) =
      (\<Sum>j\<in>{..<THREADS_NUM} - {i}. if added (gen_at s r j) then gen_count E r j else 0)"
    by (rule sum.cong) (auto simp: assms(1))
  ultimately show ?thesis using True by simp
next
  case False
  then show ?thesis by (simp add: so_far_def assms(1))
qed

lemma so_far_same:
  assumes "gen_at t = (gen_at s)(r := (gen_at s r)(i := p))" and "added p \<longleftrightarrow> added (gen_at s r i)"
  shows "so_far E t q = so_far E s q"
  unfolding so_far_def by (rule sum.cong) (use assms in auto)

text \<open>What the parent reads when all threads have announced themselves.\<close>

lemma late_total:
  assumes "mk_places E s" and "\<forall>i < THREADS_NUM. announced (gen_at s r i)"
  shows "total_of E r (so_far E s r, late s r) \<and> (late s r = None \<longrightarrow> (\<forall>i. \<not> adding (gen_at s r i)))"
proof (cases "late s r")
  case None
  then have no: "\<not> adding (gen_at s r i)" if "i < THREADS_NUM" for i
    using that by (simp add: late_def find_None_iff)
  then have "added (gen_at s r i)" if "i < THREADS_NUM" for i
    using assms(2) announced_cases that by blast
  then have "so_far E s r = whole E r" by (simp add: so_far_def whole_def)
  moreover have "\<not> adding (gen_at s r i)" for i
    using no inside_made [OF assms(1), of r i] by (cases "gen_at s r i = GOff") auto
  ultimately show ?thesis using None by (simp add: total_of_def)
next
  case (Some i)
  then have i: "adding (gen_at s r i)" "i < THREADS_NUM"
    by (auto simp: late_def find_Some_iff)
  have "added (gen_at s r j)" if "j < THREADS_NUM" "j \<noteq> i" for j
  proof -
    have "pmutex s r = Some i" using adding_inside [OF i(1)] mk_mutex [OF assms(1)] by blast
    then have "\<not> inside (gen_at s r j)" using mk_mutex [OF assms(1), of r j] that(2) by simp
    then show ?thesis using assms(2) that(1) announced_cases adding_inside by blast
  qed
  then have "(\<Sum>j\<in>{..<THREADS_NUM} - {i}. if added (gen_at s r j) then gen_count E r j else 0) =
      (\<Sum>j\<in>{..<THREADS_NUM} - {i}. gen_count E r j)"
    by (intro sum.cong) auto
  moreover have "whole E r = gen_count E r i + (\<Sum>j\<in>{..<THREADS_NUM} - {i}. gen_count E r j)"
    unfolding whole_def using i(2) by (subst sum.remove [of _ i]) auto
  ultimately have "so_far E s r = whole E r - gen_count E r i"
    unfolding so_far_def using i adding_inside [OF i(1)] by (subst sum.remove [of _ i]) auto
  then show ?thesis using Some i(2) by (simp add: total_of_def)
qed

lemma mk_sums_gen:
  assumes "mk_sums E s" and "gen_at t = (gen_at s)(r := (gen_at s r)(i := p))"
    and "added p \<longleftrightarrow> added (gen_at s r i)" and "adding p \<longrightarrow> adding (gen_at s r i) \<or> r = mk_i s"
    and "\<forall>v. p = GStore1 v \<longrightarrow> v = shm1 s"
    and "mk_i t = mk_i s" "mk_at t = mk_at s" "shm1 t = shm1 s" "totals t = totals s"
  shows "mk_sums E t"
  using assms(1,4-) so_far_same [OF assms(2,3), of E] unfolding mk_sums_def by (auto simp: assms(2))

lemma punctual_snoc: "punctual (ts @ [t]) \<longleftrightarrow> punctual ts \<and> snd t = None"
  by (auto simp: punctual_def)

lemma mk_sums_step: "mk_step E s s' \<Longrightarrow> mk_sums E s \<Longrightarrow> mk_places E s \<Longrightarrow> mk_counts s \<Longrightarrow> mk_sums E s'"
proof (induction rule: mk_step.induct)
  case (mk_forks s)
  then have "gen_at s (mk_i s) i = GOff" for i by (simp add: mk_places_def)
  with mk_forks show ?case by (simp add: mk_sums_def so_far_def)
next
  case (mk_read s)
  have all: "\<forall>i < THREADS_NUM. announced (gen_at s (mk_i s) i)" using mk_read(1,4) by (simp add: mk_counts_def)
  note late = late_total [OF mk_read(3) all]
  have n: "length (totals s) = mk_i s" using mk_read(3) by (simp add: mk_places_def)
  have "total_of E (mk_i s) (shm1 s, late s (mk_i s))" if "punctual (totals s)"
    using mk_read(1,2) late that by (simp add: mk_sums_def)
  with mk_read(2) late n show ?case
    by (auto simp: mk_sums_def punctual_snoc nth_append less_Suc_eq)
next
  case (mk_makes r s)
  have "gen_at s r (made s r) = GOff" using mk_makes(5) by (simp add: mk_places_def)
  with mk_makes(4) show ?case by (intro mk_sums_gen [OF mk_makes(4), of _ r "made s r" GPoints]) simp_all
next
  case (gen_lock s r i)
  then show ?case by (intro mk_sums_gen [OF gen_lock(3), of _ r i GLoad0]) simp_all
next
  case (gen_load0 s r i)
  then show ?case by (intro mk_sums_gen [OF gen_load0(2), of _ r i "GStore0 (shm0 s)"]) simp_all
next
  case (gen_store0 s r i v)
  then have "r = mk_i s" using unannounced_now [of E s r i] by simp
  with gen_store0 show ?case by (intro mk_sums_gen [OF gen_store0(2), of _ r i GLoad1]) simp_all
next
  case (gen_load1 s r i)
  then show ?case by (intro mk_sums_gen [OF gen_load1(2), of _ r i "GStore1 (shm1 s)"]) simp_all
next
  case (gen_store1 s r i v)
  let ?t = "set_gen r i GUnlock s\<lparr>shm1 := v + gen_count E r i\<rparr>"
  have made: "i < THREADS_NUM" "r < kids s" using inside_made [OF gen_store1(3), of r i] gen_store1(1) by simp_all
  have others: "gen_at s r j \<noteq> GStore1 u" if "j \<noteq> i" for j u
    using mk_mutex [OF gen_store1(3), of r] gen_store1(1) that by (metis inside.simps(7) option.inject)
  have sum: "so_far E ?t q = so_far E s q + (if q = r then gen_count E r i else 0)" for q
    using so_far_gen [of ?t s r i GUnlock E q] gen_store1(1) made by simp
  have "r = mk_i s \<and> running (mk_at s)" if "punctual (totals s)"
  proof -
    have "adding (gen_at s r i)" using gen_store1(1) by simp
    then have "\<not> r < mk_i s" using gen_store1(2) that unfolding mk_sums_def by blast
    with made(2) gen_store1(3) show ?thesis by (auto simp: mk_places_def split: if_splits)
  qed
  with gen_store1(1,2) sum others show ?case by (auto simp: mk_sums_def)
next
  case (gen_unlock s r i)
  then show ?case by (intro mk_sums_gen [OF gen_unlock(2), of _ r i GEnd]) simp_all
qed (auto simp: mk_sums_def so_far_def)

section \<open>Reachable states\<close>

definition mk_good :: "('d :: linorder) mk_env \<Rightarrow> mk_run \<Rightarrow> bool" where
  "mk_good E s \<longleftrightarrow> mk_places E s \<and> mk_counts s \<and> mk_sums E s"

lemma mk_good_start: "mk_good E (mk_start v0 v1)"
  by (simp add: mk_good_def mk_places_def mk_counts_def mk_sums_def mk_start_def TEST_NUM_def)

lemma mk_good_step: "mk_good E s \<Longrightarrow> mk_step E s s' \<Longrightarrow> mk_good E s'"
  using mk_places_step mk_counts_step mk_sums_step unfolding mk_good_def by blast

lemma mk_reachable_good: "mk_reachable E s \<Longrightarrow> mk_good E s"
proof -
  assume "mk_reachable E s"
  then obtain v0 v1 where "(mk_step E)\<^sup>*\<^sup>* (mk_start v0 v1) s" by (auto simp: mk_reachable_def)
  then show ?thesis by (induction rule: rtranclp_induct) (auto intro: mk_good_start mk_good_step)
qed

section \<open>Work\<close>

fun main_rank :: "mk_pc \<Rightarrow> nat" where
  "main_rank MkOpen = 7"
| "main_rank MkAttach = 6"
| "main_rank MkClear0 = 5"
| "main_rank MkClear1 = 4"
| "main_rank MkFork = 3"
| "main_rank MkWait = 2"
| "main_rank MkRead = 1"
| "main_rank MkReport = 1"
| "main_rank MkEnd = 0"
| "main_rank (MkFail e) = 0"

fun gen_rank :: "gen_pc \<Rightarrow> nat" where
  "gen_rank GOff = 0"
| "gen_rank GPoints = 6"
| "gen_rank GLoad0 = 5"
| "gen_rank (GStore0 v) = 4"
| "gen_rank GLoad1 = 3"
| "gen_rank (GStore1 v) = 2"
| "gen_rank GUnlock = 1"
| "gen_rank GEnd = 0"

definition child_work :: "mk_run \<Rightarrow> nat \<Rightarrow> nat" where
  "child_work s r = (THREADS_NUM - made s r) * 7 + (\<Sum>i<THREADS_NUM. gen_rank (gen_at s r i))"

definition mk_work :: "mk_run \<Rightarrow> nat" where
  "mk_work s = main_rank (mk_at s) + (TEST_NUM - mk_i s) * 8 + (\<Sum>r<TEST_NUM. child_work s r)"

lemma kids_le: "mk_places E s \<Longrightarrow> kids s \<le> TEST_NUM"
  by (cases "mk_at s") (auto simp: mk_places_def)

lemma child_moves:
  assumes "mk_places E s" and "r < kids s"
    and "child_work t r < child_work s r" and "\<And>q. q \<noteq> r \<Longrightarrow> child_work t q = child_work s q"
    and "mk_at t = mk_at s" "mk_i t = mk_i s"
  shows "mk_work t < mk_work s"
proof -
  have "r < TEST_NUM" using kids_le [OF assms(1)] assms(2) by simp
  moreover have "child_work t q \<le> child_work s q" for q using assms(3) assms(4) [of q] by (cases "q = r") simp_all
  ultimately have "(\<Sum>q<TEST_NUM. child_work t q) < (\<Sum>q<TEST_NUM. child_work s q)"
    using assms(3) by (intro sum_strict_mono_ex1) auto
  then show ?thesis using assms(5,6) by (simp add: mk_work_def)
qed

lemma thread_moves:
  assumes "mk_places E s" and "gen_at s r i \<noteq> GOff" and "gen_at t = (gen_at s)(r := (gen_at s r)(i := p))"
    and "gen_rank p < gen_rank (gen_at s r i)" and "made t = made s" "mk_at t = mk_at s" "mk_i t = mk_i s"
  shows "mk_work t < mk_work s"
proof (rule child_moves [OF assms(1)])
  have i: "i < THREADS_NUM" "r < kids s" using inside_made [OF assms(1,2)] by simp_all
  then show "r < kids s" by simp
  have "(\<Sum>j<THREADS_NUM. gen_rank (gen_at t r j)) < (\<Sum>j<THREADS_NUM. gen_rank (gen_at s r j))"
    using i(1) assms(3,4) by (intro sum_strict_mono_ex1) auto
  then show "child_work t r < child_work s r" by (simp add: child_work_def assms(5))
  show "child_work t q = child_work s q" if "q \<noteq> r" for q using that by (simp add: child_work_def assms(3,5))
qed (use assms in simp_all)

lemma mk_step_work: "mk_step E s s' \<Longrightarrow> mk_places E s \<Longrightarrow> mk_work s' < mk_work s"
proof (induction rule: mk_step.induct)
  case (mk_read s)
  then have "mk_i s < TEST_NUM" by (simp add: mk_places_def)
  then have "(TEST_NUM - mk_i s) * 8 = (TEST_NUM - Suc (mk_i s)) * 8 + 8" by (simp add: Suc_diff_Suc)
  with mk_read(1) show ?case by (simp add: mk_work_def child_work_def)
next
  case (mk_makes r s)
  let ?t = "set_gen r (made s r) GPoints s\<lparr>made := (made s)(r := made s r + 1)\<rparr>"
  have off: "gen_at s r (made s r) = GOff" using mk_makes(4) by (simp add: mk_places_def)
  have "(\<Sum>i<THREADS_NUM. gen_rank (gen_at ?t r i)) + gen_rank GOff = (\<Sum>i<THREADS_NUM. gen_rank (gen_at s r i)) + gen_rank GPoints"
    using sum_upd_lessThan [OF mk_makes(2), of gen_rank "gen_at s r" GPoints] off by simp
  moreover have "(THREADS_NUM - made s r) * 7 = (THREADS_NUM - Suc (made s r)) * 7 + 7"
    using mk_makes(2) by (simp add: Suc_diff_Suc)
  ultimately have "child_work ?t r < child_work s r" by (simp add: child_work_def)
  with mk_makes(1) show ?case by (intro child_moves [OF mk_makes(4), of r]) (simp_all add: child_work_def)
next
  case (mk_make_fails r s)
  then show ?case by (intro child_moves [OF mk_make_fails(4), of r]) (simp_all add: child_work_def)
next
  case (gen_lock s r i)
  then show ?case by (intro thread_moves [OF gen_lock(3), of r i _ GLoad0]) simp_all
next
  case (gen_load0 s r i)
  then show ?case by (intro thread_moves [OF gen_load0(2), of r i _ "GStore0 (shm0 s)"]) simp_all
next
  case (gen_store0 s r i v)
  then show ?case by (intro thread_moves [OF gen_store0(2), of r i _ GLoad1]) simp_all
next
  case (gen_load1 s r i)
  then show ?case by (intro thread_moves [OF gen_load1(2), of r i _ "GStore1 (shm1 s)"]) simp_all
next
  case (gen_store1 s r i v)
  then show ?case by (intro thread_moves [OF gen_store1(2), of r i _ GUnlock]) simp_all
next
  case (gen_unlock s r i)
  then show ?case by (intro thread_moves [OF gen_unlock(2), of r i _ GEnd]) simp_all
qed (simp_all add: mk_work_def child_work_def)

interpretation mk: bounded_run "mk_step E" "mk_good E" mk_work for E :: "('d :: linorder) mk_env"
  by unfold_locales (auto simp: mk_good_def intro: mk_good_step mk_step_work mk_places_step mk_counts_step mk_sums_step)

lemma mk_work_start: "mk_work (mk_start v0 v1) = 2407"
  by (simp add: mk_work_def child_work_def mk_start_def TEST_NUM_def THREADS_NUM_def)

section \<open>Progress\<close>

text \<open>Every call of the tests succeeds.\<close>

definition mk_ok :: "('d :: linorder) mk_env \<Rightarrow> bool" where
  "mk_ok E \<longleftrightarrow> mk_fopen E \<and> (\<forall>r < TEST_NUM. mk_fork E r \<and> (case mk_addr E r of (key, shmid, p) \<Rightarrow> -1 \<notin> {key, shmid, p}) \<and>
     (\<forall>i < THREADS_NUM. mk_create E r i))"

lemma mk_ok_addr: "mk_ok E \<Longrightarrow> r < TEST_NUM \<Longrightarrow>
    \<exists>key shmid p. mk_addr E r = (key, shmid, p) \<and> mk_getaddr key shmid p = Inr p"
  by (cases "mk_addr E r") (auto simp: mk_ok_def mk_getaddr_def)

lemma no_failure_step:
  "mk_step E s s' \<Longrightarrow> mk_ok E \<Longrightarrow> mk_places E s \<Longrightarrow> \<forall>e. mk_at s \<noteq> MkFail e \<Longrightarrow> \<forall>e. mk_at s' \<noteq> MkFail e"
proof (induction rule: mk_step.induct)
  case (mk_attach_fails s key shmid p e)
  then have "mk_i s < TEST_NUM" by (simp add: mk_places_def)
  from mk_ok_addr [OF mk_attach_fails(4) this] mk_attach_fails(2,3) show ?case by simp
qed (auto simp: mk_ok_def mk_places_def)

lemma no_failure:
  assumes "mk_ok E" and "(mk_step E)\<^sup>*\<^sup>* (mk_start v0 v1) s"
  shows "mk_good E s \<and> (\<forall>e. mk_at s \<noteq> MkFail e)"
  using assms(2)
proof (induction rule: rtranclp_induct)
  case base
  show ?case using mk_good_start by (simp add: mk_start_def)
next
  case (step s t)
  then show ?case using no_failure_step [OF step(2) assms(1)] mk_good_step unfolding mk_good_def by blast
qed

lemma inside_moves: "inside (gen_at s r i) \<Longrightarrow> \<exists>t. mk_step E s t"
  by (cases "gen_at s r i") (auto intro: gen_load0 gen_store0 gen_load1 gen_store1 gen_unlock)

lemma outside_cases: "p \<noteq> GOff \<Longrightarrow> p \<noteq> GPoints \<Longrightarrow> \<not> inside p \<Longrightarrow> announced p"
  by (cases p) auto

text \<open>While the parent waits, some thread can move or all have announced themselves.\<close>

lemma wait_moves:
  assumes "mk_ok E" and "mk_good E s" and "mk_at s = MkWait"
  shows "\<exists>t. mk_step E s t"
proof (rule ccontr)
  assume stuck: "\<nexists>t. mk_step E s t"
  let ?r = "mk_i s"
  have places: "mk_places E s" and counts: "mk_counts s" using assms(2) by (simp_all add: mk_good_def)
  have r: "?r < kids s" "?r < TEST_NUM" using places assms(3) by (simp_all add: mk_places_def)
  have "\<not> made s ?r < THREADS_NUM"
    using mk_makes [of ?r s E] mk_make_fails [of ?r s E] r(1) stuck by blast
  then have on: "gen_at s ?r i \<noteq> GOff" if "i < THREADS_NUM" for i
    using places assms(1) r(2) that by (simp add: mk_places_def mk_ok_def)
  have out: "\<not> inside (gen_at s ?r i)" for i using inside_moves stuck by blast
  then have "pmutex s ?r = None" using mk_mutex [OF places, of ?r] by (cases "pmutex s ?r") auto
  then have "gen_at s ?r i \<noteq> GPoints" for i using gen_lock stuck by blast
  with on out have "announced (gen_at s ?r i)" if "i < THREADS_NUM" for i
    using that outside_cases by blast
  then have "announcers s ?r = {..<THREADS_NUM}" by (auto simp: announcers_def)
  then have "shm0 s = word_of_nat THREADS_NUM" using counts assms(3) by (simp add: mk_counts_def)
  then have "sint (shm0 s) = int THREADS_NUM" using sint_count [of THREADS_NUM] by (simp add: THREADS_NUM_def)
  then show False using mk_wait assms(3) stuck by blast
qed

lemma mk_progress:
  assumes "mk_ok E" and "mk_good E s" and "\<forall>e. mk_at s \<noteq> MkFail e" and "\<nexists>t. mk_step E s t"
  shows "mk_at s = MkEnd"
proof (cases "mk_at s")
  case MkOpen
  with assms(1,4) show ?thesis using mk_open by (auto simp: mk_ok_def)
next
  case MkAttach
  then have "mk_i s < TEST_NUM" using assms(2) by (simp add: mk_good_def mk_places_def)
  from mk_ok_addr [OF assms(1) this] MkAttach assms(4) show ?thesis using mk_attach by blast
next
  case MkFork
  then have "mk_i s < TEST_NUM" using assms(2) by (simp add: mk_good_def mk_places_def)
  with MkFork assms(1,4) show ?thesis using mk_forks by (auto simp: mk_ok_def)
next
  case MkWait
  from wait_moves [OF assms(1,2) this] assms(4) show ?thesis by blast
qed (use assms(3,4) mk_clear0 mk_clear1 mk_read mk_report in blast)+

end
