(* ===== verification/IntegralProps.thy ===== *)
theory IntegralProps
  imports IntegralRun
begin

text \<open>
  The run of the integrator in which one thread adds its count after the parent has read the total, and
  the properties of all its runs, from the invariants of IntegralRun.
\<close>

section \<open>A thread that is late\<close>

lemma three_steps: "R a b \<Longrightarrow> R b c \<Longrightarrow> R c d \<Longrightarrow> R\<^sup>*\<^sup>* a d"
  by (meson converse_rtranclp_into_rtranclp r_into_rtranclp)

lemma thread_announces:
  assumes "gen_at s r i = GPoints" and "pmutex s r = None"
  shows "(mk_step E)\<^sup>*\<^sup>* s (set_gen r i GLoad1 s\<lparr>shm0 := shm0 s + 1, pmutex := (pmutex s)(r := Some i)\<rparr>)"
proof -
  let ?s1 = "set_gen r i GLoad0 s\<lparr>pmutex := (pmutex s)(r := Some i)\<rparr>"
  let ?s2 = "set_gen r i (GStore0 (shm0 ?s1)) ?s1"
  have "mk_step E s ?s1" using assms by (rule gen_lock)
  moreover have "mk_step E ?s1 ?s2" by (rule gen_load0) simp
  moreover have "mk_step E ?s2 (set_gen r i GLoad1 ?s2\<lparr>shm0 := shm0 ?s1 + 1\<rparr>)" by (rule gen_store0) simp
  ultimately have "(mk_step E)\<^sup>*\<^sup>* s (set_gen r i GLoad1 ?s2\<lparr>shm0 := shm0 ?s1 + 1\<rparr>)" by (rule three_steps)
  moreover have "set_gen r i GLoad1 ?s2\<lparr>shm0 := shm0 ?s1 + 1\<rparr> =
      set_gen r i GLoad1 s\<lparr>shm0 := shm0 s + 1, pmutex := (pmutex s)(r := Some i)\<rparr>"
    by (simp add: set_gen_def)
  ultimately show ?thesis by (simp only:)
qed

lemma thread_adds:
  assumes "gen_at s r i = GLoad1"
  shows "(mk_step E)\<^sup>*\<^sup>* s (set_gen r i GEnd s\<lparr>shm1 := shm1 s + gen_count E r i, pmutex := (pmutex s)(r := None)\<rparr>)"
proof -
  let ?s1 = "set_gen r i (GStore1 (shm1 s)) s"
  let ?s2 = "set_gen r i GUnlock ?s1\<lparr>shm1 := shm1 s + gen_count E r i\<rparr>"
  have "mk_step E s ?s1" using assms by (rule gen_load1)
  moreover have "mk_step E ?s1 ?s2" by (rule gen_store1) simp
  moreover have "mk_step E ?s2 (set_gen r i GEnd ?s2\<lparr>pmutex := (pmutex ?s2)(r := None)\<rparr>)" by (rule gen_unlock) simp
  ultimately have "(mk_step E)\<^sup>*\<^sup>* s (set_gen r i GEnd ?s2\<lparr>pmutex := (pmutex ?s2)(r := None)\<rparr>)" by (rule three_steps)
  moreover have "set_gen r i GEnd ?s2\<lparr>pmutex := (pmutex ?s2)(r := None)\<rparr> =
      set_gen r i GEnd s\<lparr>shm1 := shm1 s + gen_count E r i, pmutex := (pmutex s)(r := None)\<rparr>"
    by (simp add: set_gen_def)
  ultimately show ?thesis by (simp only:)
qed

text \<open>Threads that come one after the other.\<close>

lemma threads_run:
  assumes "\<forall>i \<in> set ts. gen_at s r i = GPoints" and "distinct ts" and "pmutex s r = None"
  shows "(mk_step E)\<^sup>*\<^sup>* s (s\<lparr>shm0 := shm0 s + word_of_nat (length ts), shm1 := shm1 s + sum_list (map (gen_count E r) ts),
    gen_at := (gen_at s)(r := (\<lambda>i. if i \<in> set ts then GEnd else gen_at s r i))\<rparr>)"
  using assms
proof (induction ts arbitrary: s)
  case Nil
  then show ?case by simp
next
  case (Cons i ts)
  let ?s1 = "set_gen r i GLoad1 s\<lparr>shm0 := shm0 s + 1, pmutex := (pmutex s)(r := Some i)\<rparr>"
  let ?s2 = "set_gen r i GEnd ?s1\<lparr>shm1 := shm1 s + gen_count E r i, pmutex := (pmutex ?s1)(r := None)\<rparr>"
  have s1: "(mk_step E)\<^sup>*\<^sup>* s ?s1" using Cons.prems by (intro thread_announces) simp_all
  have s2: "(mk_step E)\<^sup>*\<^sup>* ?s1 ?s2" using thread_adds [of ?s1 r i E] by simp
  let ?f = "\<lambda>u. u\<lparr>shm0 := shm0 u + word_of_nat (length ts), shm1 := shm1 u + sum_list (map (gen_count E r) ts),
    gen_at := (gen_at u)(r := (\<lambda>i. if i \<in> set ts then GEnd else gen_at u r i))\<rparr>"
  have "(mk_step E)\<^sup>*\<^sup>* ?s2 (?f ?s2)" using Cons.prems by (intro Cons.IH) auto
  with s1 s2 have "(mk_step E)\<^sup>*\<^sup>* s (?f ?s2)" by (meson rtranclp_trans)
  moreover have "?f ?s2 = s\<lparr>shm0 := shm0 s + word_of_nat (length (i # ts)),
    shm1 := shm1 s + sum_list (map (gen_count E r) (i # ts)),
    gen_at := (gen_at s)(r := (\<lambda>j. if j \<in> set (i # ts) then GEnd else gen_at s r j))\<rparr>"
    using Cons.prems by (auto simp: set_gen_def fun_eq_iff ac_simps intro!: mk_run.equality)
  ultimately show ?case by (simp only:)
qed

text \<open>A test up to its fork, and the creation of its threads.\<close>

lemma test_begins:
  assumes "mk_ok E" and "mk_at s = MkAttach" and "mk_i s < TEST_NUM"
  shows "(mk_step E)\<^sup>*\<^sup>* s (s\<lparr>shm0 := 0, shm1 := 0, mk_at := MkFork\<rparr>)"
proof -
  let ?s1 = "s\<lparr>mk_at := MkClear0\<rparr>"
  let ?s2 = "?s1\<lparr>shm0 := 0, mk_at := MkClear1\<rparr>"
  let ?s3 = "?s2\<lparr>shm1 := 0, mk_at := MkFork\<rparr>"
  obtain key shmid p where "mk_addr E (mk_i s) = (key, shmid, p)" "mk_getaddr key shmid p = Inr p"
    using mk_ok_addr [OF assms(1,3)] by blast
  then have "mk_step E s ?s1" using assms(2) by (intro mk_attach [of _ E key shmid p])
  moreover have "mk_step E ?s1 ?s2" by (rule mk_clear0) simp
  moreover have "mk_step E ?s2 ?s3" by (rule mk_clear1) simp
  ultimately have "(mk_step E)\<^sup>*\<^sup>* s ?s3" by (rule three_steps)
  then show ?thesis by simp
qed

lemma threads_made:
  assumes "mk_ok E" and "r < kids s" and "r < TEST_NUM" and "made s r = 0" and "n \<le> THREADS_NUM"
  shows "(mk_step E)\<^sup>*\<^sup>* s (s\<lparr>made := (made s)(r := n),
    gen_at := (gen_at s)(r := (\<lambda>i. if i < n then GPoints else gen_at s r i))\<rparr>)"
  using assms(5)
proof (induction n)
  case 0
  have "s\<lparr>made := (made s)(r := 0), gen_at := (gen_at s)(r := (\<lambda>i. if i < 0 then GPoints else gen_at s r i))\<rparr> = s"
    using assms(4) by (simp add: fun_upd_idem)
  then show ?case by (simp only: rtranclp.rtrancl_refl)
next
  case (Suc n)
  let ?f = "\<lambda>n. s\<lparr>made := (made s)(r := n), gen_at := (gen_at s)(r := (\<lambda>i. if i < n then GPoints else gen_at s r i))\<rparr>"
  let ?s = "?f n"
  have "mk_step E ?s (set_gen r (made ?s r) GPoints ?s\<lparr>made := (made ?s)(r := made ?s r + 1)\<rparr>)"
    using assms Suc.prems by (intro mk_makes) (simp_all add: mk_ok_def)
  moreover have "set_gen r (made ?s r) GPoints ?s\<lparr>made := (made ?s)(r := made ?s r + 1)\<rparr> = ?f (Suc n)"
    by (auto simp: set_gen_def fun_eq_iff less_Suc_eq)
  ultimately have "mk_step E ?s (?f (Suc n))" by (simp only:)
  moreover have "(mk_step E)\<^sup>*\<^sup>* s ?s" using Suc.prems by (intro Suc.IH) simp
  ultimately show ?case by (rule rtranclp.rtrancl_into_rtrancl [rotated])
qed

text \<open>The first test up to the wait.\<close>

definition mk_first :: "nat \<Rightarrow> mk_run" where
  "mk_first n = \<lparr>shm0 = 0, shm1 = 0, mk_i = 0, mk_at = MkWait, kids = 1, made = (\<lambda>_. 0)(0 := n),
     gen_at = (\<lambda>_ _. GOff)(0 := (\<lambda>i. if i < n then GPoints else GOff)), pmutex = (\<lambda>_. None),
     totals = [], mk_out = [mk_header]\<rparr>"

lemma mk_first_start: "mk_ok E \<Longrightarrow> (mk_step E)\<^sup>*\<^sup>* (mk_start v0 v1) (mk_first THREADS_NUM)"
proof -
  assume ok: "mk_ok E"
  let ?s0 = "mk_start v0 v1"
  let ?s1 = "?s0\<lparr>mk_out := [mk_header], mk_at := MkAttach\<rparr>"
  let ?s2 = "?s1\<lparr>shm0 := 0, shm1 := 0, mk_at := MkFork\<rparr>"
  let ?s3 = "?s2\<lparr>kids := kids ?s2 + 1, mk_at := MkWait\<rparr>"
  let ?s4 = "?s3\<lparr>made := (made ?s3)(0 := THREADS_NUM),
    gen_at := (gen_at ?s3)(0 := (\<lambda>i. if i < THREADS_NUM then GPoints else gen_at ?s3 0 i))\<rparr>"
  have "mk_step E ?s0 ?s1" using ok by (intro mk_open) (simp_all add: mk_start_def mk_ok_def)
  moreover have "(mk_step E)\<^sup>*\<^sup>* ?s1 ?s2" using ok by (intro test_begins) (simp_all add: mk_start_def TEST_NUM_def)
  moreover have "mk_step E ?s2 ?s3" using ok by (intro mk_forks) (simp_all add: mk_start_def mk_ok_def TEST_NUM_def)
  moreover have "(mk_step E)\<^sup>*\<^sup>* ?s3 ?s4" using ok by (intro threads_made) (simp_all add: mk_start_def TEST_NUM_def)
  ultimately have "(mk_step E)\<^sup>*\<^sup>* ?s0 ?s4"
    by (meson converse_rtranclp_into_rtranclp rtranclp.rtrancl_into_rtrancl rtranclp_trans)
  moreover have "?s4 = mk_first THREADS_NUM" by (simp add: mk_start_def mk_first_def fun_eq_iff)
  ultimately show ?thesis by (simp only:)
qed

text \<open>The first total, all threads but those of \<open>ls\<close> having added their counts, and the one of \<open>ls\<close> being late.\<close>

lemma mk_first_read:
  assumes ok: "mk_ok E" and dist: "distinct ts" and split: "set ts \<union> set_option l = {..<THREADS_NUM}"
    and l: "set ts \<inter> set_option l = {}"
  shows "\<exists>s. mk_reachable E s \<and> map fst (totals s) = [\<Sum>i\<in>set ts. gen_count E 0 i] \<and>
    mk_at s = MkAttach \<and> mk_i s = 1 \<and> kids s = 1 \<and> made s 1 = 0 \<and> gen_at s 1 = (\<lambda>_. GOff) \<and> pmutex s 1 = None \<and>
    (\<forall>i. l = Some i \<longrightarrow> gen_at s 0 i = GLoad1)"
proof -
  let ?s = "mk_first THREADS_NUM"
  let ?s1 = "?s\<lparr>shm0 := shm0 ?s + word_of_nat (length ts), shm1 := shm1 ?s + sum_list (map (gen_count E 0) ts),
    gen_at := (gen_at ?s)(0 := (\<lambda>i. if i \<in> set ts then GEnd else gen_at ?s 0 i))\<rparr>"
  let ?s2 = "case l of None \<Rightarrow> ?s1
    | Some i \<Rightarrow> set_gen 0 i GLoad1 ?s1\<lparr>shm0 := shm0 ?s1 + 1, pmutex := (pmutex ?s1)(0 := Some i)\<rparr>"
  let ?s3 = "?s2\<lparr>mk_at := MkRead\<rparr>"
  let ?s4 = "?s3\<lparr>totals := totals ?s3 @ [(shm1 ?s3, late ?s3 (mk_i ?s3))], mk_i := mk_i ?s3 + 1,
       mk_at := (if mk_i ?s3 + 1 < TEST_NUM then MkAttach else MkReport)\<rparr>"
  have in_range: "i < THREADS_NUM" if "i \<in> set ts \<or> l = Some i" for i using split that by auto
  have "(mk_step E)\<^sup>*\<^sup>* (mk_start 0 0) ?s"
    by (rule mk_first_start [OF ok])
  moreover have "(mk_step E)\<^sup>*\<^sup>* ?s ?s1"
    using dist in_range by (intro threads_run) (simp_all add: mk_first_def)
  moreover have "(mk_step E)\<^sup>*\<^sup>* ?s1 ?s2"
  proof (cases l)
    case (Some i)
    then show ?thesis using thread_announces [of ?s1 0 i E] l in_range [of i] by (simp add: mk_first_def)
  qed simp
  moreover have "card (set ts) + card (set_option l) = THREADS_NUM"
    using card_Un_disjoint [of "set ts" "set_option l"] l split by simp
  then have "length ts + card (set_option l) = 16" using distinct_card [OF dist] by (simp add: THREADS_NUM_def)
  then have "shm0 ?s2 = 16" by (cases l) (auto simp: mk_first_def simp flip: of_nat_Suc)
  then have "mk_step E ?s2 ?s3" by (intro mk_wait) (cases l, simp_all add: mk_first_def THREADS_NUM_def)
  moreover have "mk_step E ?s3 ?s4" by (rule mk_read) simp
  ultimately have "(mk_step E)\<^sup>*\<^sup>* (mk_start 0 0) ?s4" by (meson rtranclp_trans rtranclp.rtrancl_into_rtrancl)
  then have "mk_reachable E ?s4" unfolding mk_reachable_def by (intro exI)
  moreover have "map fst (totals ?s4) = [\<Sum>i\<in>set ts. gen_count E 0 i]"
    using dist by (cases l) (simp_all add: mk_first_def sum_list_distinct_conv_sum_set)
  moreover have "mk_at ?s4 = MkAttach" "mk_i ?s4 = 1" "kids ?s4 = 1" "made ?s4 1 = 0" "gen_at ?s4 1 = (\<lambda>_. GOff)"
      "pmutex ?s4 1 = None" "\<forall>i. l = Some i \<longrightarrow> gen_at ?s4 0 i = GLoad1"
    by (cases l; simp add: mk_first_def TEST_NUM_def)+
  ultimately show ?thesis by (intro exI [of _ ?s4] conjI)
qed

section \<open>The properties\<close>

text \<open>C39. What the first integral is computed from: with every call succeeding and whatever the points
  are, the total the parent reads for the first test can be the sum of the counts of all
  threads, and can be that sum without the count of any one of them, and nothing else.\<close>

theorem integral_first_total:
  assumes "mk_ok E"
  shows "(\<exists>s. mk_reachable E s \<and> map fst (totals s) = [v]) \<longleftrightarrow>
    v = whole E 0 \<or> (\<exists>i < THREADS_NUM. v = whole E 0 - gen_count E 0 i)"
proof (intro iffI)
  assume "\<exists>s. mk_reachable E s \<and> map fst (totals s) = [v]"
  then obtain s x where s: "mk_reachable E s" "totals s = [x]" "fst x = v" by auto
  then have "total_of E 0 x" using mk_reachable_good [OF s(1)] by (auto simp: mk_good_def mk_sums_def punctual_def)
  with s(3) show "v = whole E 0 \<or> (\<exists>i < THREADS_NUM. v = whole E 0 - gen_count E 0 i)"
    by (cases x) (auto simp: total_of_def split: option.splits)
next
  assume "v = whole E 0 \<or> (\<exists>i < THREADS_NUM. v = whole E 0 - gen_count E 0 i)"
  then show "\<exists>s. mk_reachable E s \<and> map fst (totals s) = [v]"
  proof
    assume "v = whole E 0"
    then show ?thesis
      using mk_first_read [OF assms, of "[0..<THREADS_NUM]" None] by (auto simp: whole_def lessThan_atLeast0)
  next
    assume "\<exists>i < THREADS_NUM. v = whole E 0 - gen_count E 0 i"
    then obtain i where i: "i < THREADS_NUM" "v = whole E 0 - gen_count E 0 i" by blast
    let ?ts = "filter (\<lambda>j. j \<noteq> i) [0..<THREADS_NUM]"
    have ts: "set ?ts = {..<THREADS_NUM} - {i}" by auto
    have "whole E 0 = gen_count E 0 i + (\<Sum>j\<in>set ?ts. gen_count E 0 j)"
      unfolding whole_def ts using i(1) by (subst sum.remove [of _ i]) auto
    then have "v = (\<Sum>j\<in>set ?ts. gen_count E 0 j)" using i(2) by simp
    moreover have "set ?ts \<union> set_option (Some i) = {..<THREADS_NUM}" using i(1) by auto
    ultimately show ?thesis using mk_first_read [OF assms, of ?ts "Some i"] by auto
  qed
qed

text \<open>The count of a late thread goes into the next test: both totals are wrong by it.\<close>

lemma integral_spills:
  assumes ok: "mk_ok E" and i: "i < THREADS_NUM"
  shows "\<exists>s. mk_reachable E s \<and> map fst (totals s) = [whole E 0 - gen_count E 0 i, whole E 1 + gen_count E 0 i]"
proof -
  let ?ts = "filter (\<lambda>j. j \<noteq> i) [0..<THREADS_NUM]"
  have "set ?ts \<union> set_option (Some i) = {..<THREADS_NUM}" "set ?ts = {..<THREADS_NUM} - {i}" using i by auto
  moreover from this have "whole E 0 = gen_count E 0 i + (\<Sum>j\<in>set ?ts. gen_count E 0 j)"
    unfolding whole_def using i by (subst sum.remove [of _ i]) auto
  ultimately obtain s where s: "mk_reachable E s" "map fst (totals s) = [whole E 0 - gen_count E 0 i]"
      "mk_at s = MkAttach" "mk_i s = 1" "kids s = 1" "made s 1 = 0" "gen_at s 1 = (\<lambda>_. GOff)" "pmutex s 1 = None"
      "gen_at s 0 i = GLoad1"
    using mk_first_read [OF ok, of ?ts "Some i"] by auto
  let ?s1 = "s\<lparr>shm0 := 0, shm1 := 0, mk_at := MkFork\<rparr>"
  let ?s2 = "set_gen 0 i GEnd ?s1\<lparr>shm1 := shm1 ?s1 + gen_count E 0 i, pmutex := (pmutex ?s1)(0 := None)\<rparr>"
  let ?s3 = "?s2\<lparr>kids := kids ?s2 + 1, mk_at := MkWait\<rparr>"
  let ?s4 = "?s3\<lparr>made := (made ?s3)(1 := THREADS_NUM),
    gen_at := (gen_at ?s3)(1 := (\<lambda>i. if i < THREADS_NUM then GPoints else gen_at ?s3 1 i))\<rparr>"
  let ?all = "[0..<THREADS_NUM]"
  let ?s5 = "?s4\<lparr>shm0 := shm0 ?s4 + word_of_nat (length ?all), shm1 := shm1 ?s4 + sum_list (map (gen_count E 1) ?all),
    gen_at := (gen_at ?s4)(1 := (\<lambda>i. if i \<in> set ?all then GEnd else gen_at ?s4 1 i))\<rparr>"
  let ?s6 = "?s5\<lparr>mk_at := MkRead\<rparr>"
  let ?s7 = "?s6\<lparr>totals := totals ?s6 @ [(shm1 ?s6, late ?s6 (mk_i ?s6))], mk_i := mk_i ?s6 + 1,
       mk_at := (if mk_i ?s6 + 1 < TEST_NUM then MkAttach else MkReport)\<rparr>"
  have "(mk_step E)\<^sup>*\<^sup>* s ?s1" using s ok by (intro test_begins) (simp_all add: TEST_NUM_def)
  moreover have "(mk_step E)\<^sup>*\<^sup>* ?s1 ?s2" using s by (intro thread_adds) simp
  moreover have "mk_step E ?s2 ?s3" using s ok by (intro mk_forks) (simp_all add: mk_ok_def TEST_NUM_def)
  moreover have "(mk_step E)\<^sup>*\<^sup>* ?s3 ?s4" using s ok by (intro threads_made) (simp_all add: TEST_NUM_def)
  moreover have "(mk_step E)\<^sup>*\<^sup>* ?s4 ?s5" using s by (intro threads_run) simp_all
  moreover have "mk_step E ?s5 ?s6" by (rule mk_wait) (simp_all add: THREADS_NUM_def)
  moreover have "mk_step E ?s6 ?s7" by (rule mk_read) simp
  ultimately have "(mk_step E)\<^sup>*\<^sup>* s ?s7" by (meson rtranclp_trans r_into_rtranclp)
  then have "mk_reachable E ?s7" using s(1) unfolding mk_reachable_def by (meson rtranclp_trans)
  moreover have "map fst (totals ?s7) = [whole E 0 - gen_count E 0 i, whole E 1 + gen_count E 0 i]"
    using s(2) by (simp add: whole_def sum_list_distinct_conv_sum_set lessThan_atLeast0 ac_simps)
  ultimately show ?thesis by (intro exI [of _ ?s7] conjI)
qed

lemma whole_hits:
  "whole E r = (\<Sum>i<THREADS_NUM. mk_s0 E r i) +
     word_of_nat (\<Sum>i<THREADS_NUM. hits (mk_below E r i) (points_of POINTS_NUM THREADS_NUM i))"
  by (simp add: whole_def gen_count_def count_points_hits sum.distrib)

lemma shares: "(\<Sum>i<THREADS_NUM. points_of POINTS_NUM THREADS_NUM i) = POINTS_NUM"
  by (rule points_of_sum) (simp add: THREADS_NUM_def)

lemma whole_exact:
  assumes "\<forall>i < THREADS_NUM. mk_s0 E r i = 0"
  shows "sint (whole E r) = int (\<Sum>i<THREADS_NUM. hits (mk_below E r i) (points_of POINTS_NUM THREADS_NUM i))"
proof -
  let ?H = "\<Sum>i<THREADS_NUM. hits (mk_below E r i) (points_of POINTS_NUM THREADS_NUM i)"
  have "?H \<le> (\<Sum>i<THREADS_NUM. points_of POINTS_NUM THREADS_NUM i)" by (rule sum_mono) (rule hits_le)
  then have "?H \<le> 100000000" using shares by (simp add: POINTS_NUM_def)
  then show ?thesis using sint_count [of ?H] assms by (simp add: whole_hits del: of_nat_sum)
qed

text \<open>C38. What all the integrals are computed from, in every run: as long as no total was read too
  early, the total of the next test is the sum of the counts of its 16 threads, which share out
  exactly 100000000 points, without the count of at most one thread, the one that has counted
  itself in \<open>shm[0]\<close> but not yet added its count. If none was late and the counters of that test,
  which are not initialised, all started at 0, it is the number of points below the graph.\<close>

theorem integral_total:
  assumes "mk_reachable E s" and "q < length (totals s)" and "punctual (take q (totals s))"
  shows "(\<Sum>i<THREADS_NUM. points_of POINTS_NUM THREADS_NUM i) = POINTS_NUM \<and>
    (case snd (totals s ! q) of
       None \<Rightarrow> fst (totals s ! q) = whole E q \<and>
         ((\<forall>i < THREADS_NUM. mk_s0 E q i = 0) \<longrightarrow> sint (fst (totals s ! q)) =
            int (\<Sum>i<THREADS_NUM. hits (mk_below E q i) (points_of POINTS_NUM THREADS_NUM i)))
     | Some i \<Rightarrow> i < THREADS_NUM \<and> fst (totals s ! q) = whole E q - gen_count E q i)"
proof -
  have "total_of E q (totals s ! q)"
    using mk_reachable_good [OF assms(1)] assms(2,3) by (simp add: mk_good_def mk_sums_def)
  then show ?thesis
    using shares whole_exact [of E q] by (cases "totals s ! q") (auto simp: total_of_def split: option.splits)
qed

text \<open>C40. The program ends: with every call succeeding it makes at most 2407 steps, whatever the
  segment holds at first and however its processes interleave, a race between them included, and
  when it can make no more it has read 20 totals, written the header and the median of the times
  to the file and returned. A thread that could not be created makes the parent wait forever in
  that thread's test.\<close>

theorem integral_ends:
  assumes "(mk_step E)\<^sup>*\<^sup>* (mk_start v0 v1) s"
  shows "((mk_step E ^^ n) (mk_start v0 v1) s \<longrightarrow> n \<le> 2407) \<and>
    (mk_ok E \<longrightarrow> (\<exists>t. (mk_step E)\<^sup>*\<^sup>* s t \<and> (\<nexists>u. mk_step E t u)) \<and>
       ((\<nexists>u. mk_step E s u) \<longrightarrow> mk_at s = MkEnd \<and> length (totals s) = TEST_NUM \<and> mk_out s = [mk_header, mk_median E])) \<and>
    (\<forall>r i. r < TEST_NUM \<and> i < THREADS_NUM \<and> \<not> mk_create E r i \<longrightarrow> length (totals s) \<le> r)"
proof (intro conjI allI impI)
  assume "(mk_step E ^^ n) (mk_start v0 v1) s"
  from mk.run_bounded [OF this mk_good_start] show "n \<le> 2407" by (simp add: mk_work_start)
next
  have good: "mk_good E s" using mk_reachable_good assms by (auto simp: mk_reachable_def)
  then show "\<exists>t. (mk_step E)\<^sup>*\<^sup>* s t \<and> (\<nexists>u. mk_step E t u)" using mk.run_ends by blast
  assume ok: "mk_ok E" and stuck: "\<nexists>u. mk_step E s u"
  from mk_progress [OF ok good _ stuck] no_failure [OF ok assms] show "mk_at s = MkEnd" by blast
  then show "length (totals s) = TEST_NUM" "mk_out s = [mk_header, mk_median E]"
    using good by (simp_all add: mk_good_def mk_places_def)
next
  fix r i
  assume missing: "r < TEST_NUM \<and> i < THREADS_NUM \<and> \<not> mk_create E r i"
  have good: "mk_places E s" "mk_counts s"
    using mk_reachable_good assms by (auto simp: mk_reachable_def mk_good_def)
  have "\<not> r < mk_i s"
  proof
    assume "r < mk_i s"
    then have "announced (gen_at s r i)" using good(2) missing by (simp add: mk_counts_def)
    then have "gen_at s r i \<noteq> GOff" by auto
    with inside_made [OF good(1) this] missing good(1) show False by (auto simp: mk_places_def)
  qed
  then show "length (totals s) \<le> r" using good(1) by (simp add: mk_places_def)
qed

text \<open>One point below the graph, the first of the first thread.\<close>

definition mk_demo :: "nat mk_env" where
  "mk_demo = \<lparr>mk_fopen = True, mk_addr = (\<lambda>_. (1, 2, 4096)), mk_fork = (\<lambda>_. True), mk_create = (\<lambda>_ _. True),
     mk_below = (\<lambda>r i j. i = 0 \<and> j = 0), mk_s0 = (\<lambda>_ _. 0), mk_took = (\<lambda>r. 20 - r), mk_text = dec_nat\<rparr>"

lemma mk_demo_ok: "mk_ok mk_demo"
  by (simp add: mk_ok_def mk_demo_def)

lemma mk_demo_hits: "hits (mk_below mk_demo r i) (points_of POINTS_NUM THREADS_NUM i) = (if i = 0 then 1 else 0)"
proof -
  have "{j. j < points_of POINTS_NUM THREADS_NUM 0 \<and> j = 0} = {0}"
    by (auto simp: points_of_def POINTS_NUM_def THREADS_NUM_def)
  then show ?thesis by (simp add: hits_def mk_demo_def)
qed

lemma mk_demo_whole: "whole mk_demo r = 1" "gen_count mk_demo r 0 = 1"
proof -
  have "(\<Sum>i<THREADS_NUM. if i = 0 then 1 else 0 :: nat) = 1" by (simp add: THREADS_NUM_def)
  then show "whole mk_demo r = 1" unfolding whole_hits mk_demo_hits by (simp add: mk_demo_def)
  show "gen_count mk_demo r 0 = 1"
    unfolding gen_count_def count_points_hits mk_demo_hits by (simp add: mk_demo_def)
qed

theorem integral_first_total_witness:
  "(\<exists>s. mk_reachable mk_demo s \<and> map fst (totals s) = [1]) \<and> (\<exists>s. mk_reachable mk_demo s \<and> map fst (totals s) = [0])"
  using integral_first_total [OF mk_demo_ok, of 1] integral_first_total [OF mk_demo_ok, of 0] mk_demo_whole [of 0]
  by (auto simp: THREADS_NUM_def)

theorem integral_total_witness:
  "\<exists>s t. mk_reachable mk_demo s \<and> totals s = [t] \<and>
     (case snd t of None \<Rightarrow> sint (fst t) = 1 | Some i \<Rightarrow> fst t = 1 - gen_count mk_demo 0 i)"
proof -
  obtain s where s: "mk_reachable mk_demo s" "map fst (totals s) = [\<Sum>i\<in>set [0..<THREADS_NUM]. gen_count mk_demo 0 i]"
    using mk_first_read [OF mk_demo_ok, of "[0..<THREADS_NUM]" None] by (auto simp: lessThan_atLeast0)
  then obtain t where t: "totals s = [t]" by auto
  have "case snd t of None \<Rightarrow> fst t = whole mk_demo 0 | Some i \<Rightarrow> fst t = whole mk_demo 0 - gen_count mk_demo 0 i"
    using integral_total [OF s(1), of 0] by (auto simp: t punctual_def split: option.splits)
  then show ?thesis using s(1) t mk_demo_whole(1) [of 0] by (intro exI [of _ s] exI [of _ t]) (auto split: option.splits)
qed

theorem integral_ends_witness:
  "\<exists>t. (mk_step mk_demo)\<^sup>*\<^sup>* (mk_start 7 7) t \<and> mk_at t = MkEnd \<and> length (totals t) = 20 \<and>
     mk_out t = [mk_header, mk_median mk_demo]"
proof -
  obtain t where t: "(mk_step mk_demo)\<^sup>*\<^sup>* (mk_start 7 7) t" "\<nexists>u. mk_step mk_demo t u"
    using integral_ends [of mk_demo 7 7 "mk_start 7 7" 0] mk_demo_ok by auto
  from integral_ends [OF t(1), of 0] t mk_demo_ok show ?thesis by (auto simp: TEST_NUM_def)
qed

end
