(* ===== verification/SeqPipe.thy ===== *)
theory SeqPipe
  imports Pipeline
begin

text \<open>
  The sequence of piped programs of \<open>task1/examples/10_exec_pipes.c\<close>, which the shell of task 1 is
  built after: here the parent waits for each program before it starts the next one, so a program
  whose output does not fit its pipe is never read and never ends.
\<close>

section \<open>The program\<close>

text \<open>
  A program is what it makes of its standard input. \<open>piped\<close> is what lies in the pipes, by their
  number, \<open>shown\<close> what was written to the standard output of the parent, \<open>sp_fd\<close> the array \<open>p\<close>.
\<close>

type_synonym prog = "bytes \<Rightarrow> bytes"

record seq_state =
  sp_fds :: fdtab
  sp_fd :: "nat \<times> nat"
  sp_fd_in :: nat
  sp_i :: nat
  sp_number :: nat
  piped :: "nat \<Rightarrow> bytes"
  shown :: bytes

text \<open>\<open>pipe(p)\<close>, whose failure nobody notices: the array keeps its old values.\<close>

definition seq_make_pipe :: "nat \<Rightarrow> seq_state \<Rightarrow> seq_state" where
  "seq_make_pipe L s =
     (case sys_pipe L (sp_number s) (sp_fds s) of None \<Rightarrow> s
      | Some (r, w, T) \<Rightarrow> s\<lparr>sp_fd := (r, w), sp_fds := T\<rparr>)"

text \<open>The child's table at \<open>execvp\<close>; \<open>is_last\<close> means \<open>cmd[i+1] == NULL\<close>.\<close>

definition seq_child :: "bool \<Rightarrow> seq_state \<Rightarrow> fdtab" where
  "seq_child is_last s =
     (let T = (if sp_i s > 0 then sys_dup2 (sp_fd_in s) 0 (sp_fds s) else sp_fds s);
          T = (if \<not> is_last then sys_dup2 (snd (sp_fd s)) 1 T else T)
      in sys_close (fst (sp_fd s)) T)"

text \<open>
  Running the program in table \<open>C\<close> up to its end, for which \<open>wait\<close> waits. It reads until the end of
  its input, which a pipe has only when no process holds a write end, and writes its output, which
  a pipe takes up to its capacity while it is not read. \<open>None\<close>: the program, and the parent, hang.
\<close>

definition seq_input :: "nat \<Rightarrow> bytes \<Rightarrow> fdtab \<Rightarrow> seq_state \<Rightarrow> bytes option" where
  "seq_input L stdin C s =
     (case C 0 of
        Some Stdin \<Rightarrow> Some stdin
      | Some (PipeR q) \<Rightarrow>
          if \<exists>k \<in> {..<L}. C k = Some (PipeW q) \<or> sp_fds s k = Some (PipeW q) then None else Some (piped s q)
      | _ \<Rightarrow> Some [])"

definition seq_run :: "nat \<Rightarrow> nat \<Rightarrow> prog \<Rightarrow> bytes \<Rightarrow> fdtab \<Rightarrow> seq_state \<Rightarrow> seq_state option" where
  "seq_run L capacity f stdin C s =
     (case seq_input L stdin C s of None \<Rightarrow> None | Some inp \<Rightarrow>
      (case C 1 of
         Some Stdout \<Rightarrow> Some (s\<lparr>shown := shown s @ f inp\<rparr>)
       | Some (PipeW q) \<Rightarrow>
           if capacity < length (piped s q @ f inp) then None
           else Some (s\<lparr>piped := (piped s)(q := piped s q @ f inp)\<rparr>)
       | _ \<Rightarrow> Some s))"

text \<open>The parent's branch after \<open>wait\<close>.\<close>

definition seq_parent :: "seq_state \<Rightarrow> seq_state" where
  "seq_parent s =
     (let T = sys_close (snd (sp_fd s)) (sp_fds s);
          T = (if sp_i s > 0 then sys_close (sp_fd_in s) T else T)
      in s\<lparr>sp_fds := T, sp_fd_in := fst (sp_fd s), sp_i := sp_i s + 1, sp_number := sp_number s + 1\<rparr>)"

fun seq_pipe :: "nat \<Rightarrow> nat \<Rightarrow> (nat \<Rightarrow> bool) \<Rightarrow> bytes \<Rightarrow> prog list \<Rightarrow> seq_state \<Rightarrow> (c_error + seq_state) option" where
  "seq_pipe L capacity fork_ok stdin [] s = Some (Inr s)"
| "seq_pipe L capacity fork_ok stdin (f # fs) s =
     (let s = seq_make_pipe L s in
      if \<not> fork_ok (sp_i s) then Some (Inl (Exit 1))
      else
        (case seq_run L capacity f stdin (seq_child (fs = []) s) s of None \<Rightarrow> None
         | Some s \<Rightarrow> seq_pipe L capacity fork_ok stdin fs (seq_parent s)))"

definition seq_start :: "fdtab \<Rightarrow> nat \<times> nat \<Rightarrow> seq_state" where
  "seq_start T p = \<lparr>sp_fds = T, sp_fd = p, sp_fd_in = 0, sp_i = 0, sp_number = 0, piped = (\<lambda>_. []), shown = []\<rparr>"

section \<open>One turn\<close>

definition seq_inv :: "fdtab \<Rightarrow> bytes \<Rightarrow> bytes \<Rightarrow> seq_state \<Rightarrow> bool" where
  "seq_inv T0 stdin x s \<longleftrightarrow> at_turn (sp_i s) (sp_fd_in s) (sp_number s) T0 (sp_fds s) \<and>
     (if sp_i s = 0 then x = stdin else piped s (sp_number s - 1) = x) \<and> (\<forall>q \<ge> sp_number s. piped s q = [])"

text \<open>
  A turn applies its program to what the one before has left; \<open>x\<close> is that, the output goes into a
  new pipe or, for the last program, to the parent's output.
\<close>

lemma seq_turn:
  assumes std: "T0 0 = Some Stdin" "T0 1 = Some Stdout" "T0 2 = Some Stderr" "\<forall>q. PipeW q \<notin> ran T0"
    and inv: "seq_inv T0 stdin x s" and free: "3 \<le> card (free_fds L T0)"
  defines "s1 \<equiv> seq_make_pipe L s"
  shows "\<exists>s2. sp_i s1 = sp_i s \<and>
    seq_run L capacity f stdin (seq_child is_last s1) s1 =
      (if \<not> is_last \<and> capacity < length (f x) then None else Some s2) \<and>
    seq_inv T0 stdin (if is_last then [] else f x) (seq_parent s2) \<and>
    sp_i (seq_parent s2) = Suc (sp_i s) \<and>
    shown (seq_parent s2) = (if is_last then shown s @ f x else shown s)"
proof -
  let ?i = "sp_i s" and ?p = "sp_number s" and ?T = "sp_fds s" and ?in = "sp_fd_in s"
  let ?n = "if is_last then Suc ?i else Suc (Suc ?i)"
  have turn: "at_turn ?i ?in ?p T0 ?T" and x: "if ?i = 0 then x = stdin else piped s (?p - 1) = x"
    and empty: "\<forall>q \<ge> ?p. piped s q = []" using inv unfolding seq_inv_def by blast+
  have "2 \<le> card (free_fds L ?T)"
  proof -
    have "free_fds L T0 \<subseteq> insert ?in (free_fds L ?T)"
      using turn by (auto simp: at_turn_def free_fds_def split: if_splits)
    moreover have "finite (free_fds L ?T)" by (simp add: free_fds_def)
    ultimately have "card (free_fds L T0) \<le> card (insert ?in (free_fds L ?T))" by (intro card_mono) auto
    also have "\<dots> \<le> Suc (card (free_fds L ?T))" by (rule card_insert_le_m1) auto
    finally show ?thesis using free by simp
  qed
  from sys_pipe_ok [OF this] obtain r w T' where pipe: "sys_pipe L ?p ?T = Some (r, w, T')" by blast
  have s1: "s1 = s\<lparr>sp_fd := (r, w), sp_fds := T'\<rparr>" using pipe by (simp add: s1_def seq_make_pipe_def)
  note facts = sys_pipe_facts [OF pipe]
  let ?C = "seq_child is_last s1"
  have C: "?C = child_fds ?n ?i ?in r w T'" by (auto simp: s1 seq_child_def child_fds_def)
  have w: "wired T0 ?n ?i ?p \<lparr>ch_fds = ?C, ch_args = Inr []\<rparr>"
    unfolding C by (rule child_wired [OF std turn pipe])
  have C01: "?C 0 = Some (if ?i = 0 then Stdin else PipeR (?p - 1))"
      "?C 1 = Some (if is_last then Stdout else PipeW ?p)"
    and CW: "\<forall>q k. ?C k = Some (PipeW q) \<longrightarrow> q = ?p"
    using w by (auto simp: wired_def ran_ex split: if_splits)
  have T0W: "T0 k \<noteq> Some (PipeW q)" for k q using std(4) by (simp add: ran_ex)
  have T'W: "T' k \<noteq> Some (PipeW q)" if "q \<noteq> ?p" for k q
    using facts(6) turn T0W that by (simp add: at_turn_def split: if_splits)
  have "?p - 1 \<noteq> ?p" if "?i > 0" using turn that by (auto simp: at_turn_def)
  then have "\<not> (\<exists>k \<in> {..<L}. ?C k = Some (PipeW (?p - 1)) \<or> T' k = Some (PipeW (?p - 1)))" if "?i > 0"
    using CW T'W that by blast
  then have "seq_input L stdin ?C s1 = Some x"
    unfolding seq_input_def C01 using x by (cases "?i = 0") (simp_all add: s1)
  then have "seq_run L capacity f stdin ?C s1 =
     (if is_last then Some (s1\<lparr>shown := shown s @ f x\<rparr>)
      else if capacity < length (f x) then None
      else Some (s1\<lparr>piped := (piped s)(?p := f x)\<rparr>))"
    unfolding seq_run_def C01 using empty by (cases is_last) (simp_all add: s1)
  moreover have turn': "at_turn (Suc ?i) r (Suc ?p) T0 (parent_fds ?i ?in w T')" by (rule next_turn [OF turn pipe])
  have "seq_inv T0 stdin (if is_last then [] else f x)
      (seq_parent (if is_last then s1\<lparr>shown := shown s @ f x\<rparr> else s1\<lparr>piped := (piped s)(?p := f x)\<rparr>))"
    using turn' empty by (auto simp: seq_inv_def seq_parent_def parent_fds_def s1 Let_def)
  ultimately show ?thesis
    by (intro exI [of _ "if is_last then s1\<lparr>shown := shown s @ f x\<rparr> else s1\<lparr>piped := (piped s)(?p := f x)\<rparr>"])
       (auto simp: s1 seq_parent_def Let_def)
qed

section \<open>All of them\<close>

text \<open>The output of every program but the last fits a pipe.\<close>

fun fits :: "nat \<Rightarrow> prog list \<Rightarrow> bytes \<Rightarrow> bool" where
  "fits capacity [] x \<longleftrightarrow> True"
| "fits capacity [f] x \<longleftrightarrow> True"
| "fits capacity (f # fs) x \<longleftrightarrow> length (f x) \<le> capacity \<and> fits capacity fs (f x)"

lemma seq_pipe_from:
  assumes std: "T0 0 = Some Stdin" "T0 1 = Some Stdout" "T0 2 = Some Stderr" "\<forall>q. PipeW q \<notin> ran T0"
    and free: "3 \<le> card (free_fds L T0)"
  shows "seq_inv T0 stdin x s \<Longrightarrow> fs \<noteq> [] \<Longrightarrow>
    \<exists>s'. seq_pipe L capacity (\<lambda>_. True) stdin fs s = (if fits capacity fs x then Some (Inr s') else None) \<and>
      (\<exists>y. seq_inv T0 stdin y s') \<and> sp_i s' = sp_i s + length fs \<and> shown s' = shown s @ foldl (\<lambda>y f. f y) x fs"
proof (induction fs arbitrary: x s)
  case Nil
  then show ?case by simp
next
  case (Cons f fs)
  obtain s2 where s2: "sp_i (seq_make_pipe L s) = sp_i s"
    "seq_run L capacity f stdin (seq_child (fs = []) (seq_make_pipe L s)) (seq_make_pipe L s) =
      (if fs \<noteq> [] \<and> capacity < length (f x) then None else Some s2)"
    "seq_inv T0 stdin (if fs = [] then [] else f x) (seq_parent s2)"
    "sp_i (seq_parent s2) = Suc (sp_i s)" "shown (seq_parent s2) = (if fs = [] then shown s @ f x else shown s)"
    using seq_turn [OF std Cons.prems(1) free, of capacity f "fs = []"] by blast
  show ?case
  proof (cases fs)
    case Nil
    then show ?thesis using s2 by (auto simp: Let_def)
  next
    case (Cons g gs)
    with s2 have "seq_inv T0 stdin (f x) (seq_parent s2)" "fs \<noteq> []" by simp_all
    from Cons.IH [OF this] show ?thesis using s2 Cons by (auto simp: Let_def not_le)
  qed
qed

text \<open>C37. With every fork succeeding and room for three more descriptors, the parent prints what the
  programs make of its input one after the other, and ends holding one descriptor more
  than it started with, the read end of the last pipe, if every program but the last fits its output into a pipe; since the parent
  waits for a program before it starts the reader, it never returns otherwise.\<close>

theorem seq_pipe_composes:
  assumes "T0 0 = Some Stdin" and "T0 1 = Some Stdout" and "T0 2 = Some Stderr" and "\<forall>q. PipeW q \<notin> ran T0"
    and "3 \<le> card (free_fds L T0)" and "progs \<noteq> []"
  shows "if fits capacity progs stdin
    then \<exists>s'. seq_pipe L capacity (\<lambda>_. True) stdin progs (seq_start T0 p) = Some (Inr s') \<and>
           shown s' = foldl (\<lambda>x f. f x) stdin progs \<and>
           (\<exists>fd q. T0 fd = None \<and> sp_fds s' = T0(fd \<mapsto> PipeR q))
    else seq_pipe L capacity (\<lambda>_. True) stdin progs (seq_start T0 p) = None"
proof -
  have "seq_inv T0 stdin stdin (seq_start T0 p)" by (simp add: seq_inv_def seq_start_def at_turn_def)
  from seq_pipe_from [OF assms(1-5) this assms(6), of capacity] obtain s' y where s':
    "seq_pipe L capacity (\<lambda>_. True) stdin progs (seq_start T0 p) =
       (if fits capacity progs stdin then Some (Inr s') else None)"
    "seq_inv T0 stdin y s'" "sp_i s' = length progs" "shown s' = foldl (\<lambda>x f. f x) stdin progs"
    by (auto simp: seq_start_def)
  from s'(2,3) assms(6) have "\<exists>fd q. T0 fd = None \<and> sp_fds s' = T0(fd \<mapsto> PipeR q)"
    by (auto simp: seq_inv_def at_turn_def)
  with s'(1,4) show ?thesis by simp
qed

definition std_fds :: fdtab where
  "std_fds = [0 \<mapsto> Stdin, 1 \<mapsto> Stdout, 2 \<mapsto> Stderr]"

lemma std_fds_room: "card (free_fds 6 std_fds) = 3"
proof -
  have "free_fds 6 std_fds = {3, 4, 5}" by (auto simp: free_fds_def std_fds_def split: if_splits)
  then show ?thesis by simp
qed

text \<open>Two programs, the first of which doubles its input: two bytes pass a pipe of four, not one of three.\<close>

theorem seq_pipe_composes_witness:
  "(\<exists>s'. seq_pipe 6 4 (\<lambda>_. True) [1, 2] [\<lambda>x. x @ x, rev] (seq_start std_fds (0, 0)) = Some (Inr s') \<and>
     shown s' = [2, 1, 2, 1]) \<and>
   seq_pipe 6 3 (\<lambda>_. True) [1, 2] [\<lambda>x. x @ x, rev] (seq_start std_fds (0, 0)) = None"
proof -
  have T: "std_fds 0 = Some Stdin" "std_fds 1 = Some Stdout" "std_fds 2 = Some Stderr" "\<forall>q. PipeW q \<notin> ran std_fds"
    by (auto simp: std_fds_def ran_ex split: if_splits)
  have room: "3 \<le> card (free_fds 6 std_fds)" by (simp add: std_fds_room)
  show ?thesis
    using seq_pipe_composes [OF T room, of "[\<lambda>x. x @ x, rev]" 4 "[1, 2]" "(0, 0)"]
      seq_pipe_composes [OF T room, of "[\<lambda>x. x @ x, rev]" 3 "[1, 2]" "(0, 0)"]
    by auto
qed

end
