(* ===== verification/ListDir.thy ===== *)
theory ListDir
  imports Prelude
begin

text \<open>
  The recursive listing of a directory (\<open>task6/examples/5_listdir_recursively.c\<close>): every call has
  a buffer for path names whose front is the directory and whose end is overwritten with each
  entry, and a directory stream it never closes.
\<close>

section \<open>The program\<close>

definition PATH_MAX :: nat where
  "PATH_MAX = 4096"

datatype kind = KDir | KReg | KOther

datatype line = LDir string | LReg string | LStatError string

text \<open>
  The file system is given by what \<open>readdir\<close> yields for a path that \<open>opendir\<close> can open, and by
  \<open>stat\<close>. The state is the number of streams left open and the output.
\<close>

record listing_state =
  streams :: nat
  printed :: "line list"

definition put :: "line \<Rightarrow> listing_state \<Rightarrow> listing_state" where
  "put l s = s\<lparr>printed := printed s @ [l]\<rparr>"

text \<open>\<open>strcpy\<close> and \<open>strcat\<close> into the buffer, from position \<open>n\<close> on.\<close>

definition copy_at :: "nat \<Rightarrow> string \<Rightarrow> string \<Rightarrow> c_error + string" where
  "copy_at n path str = (if n + length str < PATH_MAX then Inr (take n path @ str) else Inl OutOfBounds)"

text \<open>
  The number of nested calls is bounded by the fuel; \<open>limit\<close> is the number of streams the process
  may have open.
\<close>

fun SearchDirectory :: "(string \<Rightarrow> string list option) \<Rightarrow> (string \<Rightarrow> kind option) \<Rightarrow> nat \<Rightarrow> nat \<Rightarrow> string
    \<Rightarrow> listing_state \<Rightarrow> (c_error + listing_state) option"
  and scan_entries :: "(string \<Rightarrow> string list option) \<Rightarrow> (string \<Rightarrow> kind option) \<Rightarrow> nat \<Rightarrow> nat \<Rightarrow> nat
    \<Rightarrow> string \<Rightarrow> string list \<Rightarrow> listing_state \<Rightarrow> (c_error + listing_state) option" where
  "SearchDirectory rd st limit 0 name s = None"
| "SearchDirectory rd st limit (Suc fuel) name s =
     (case (if streams s < limit then rd name else None) of
        None \<Rightarrow> Some (Inr s)
      | Some es \<Rightarrow>
          (case copy_at 0 [] name of Inl e \<Rightarrow> Some (Inl e)
           | Inr path \<Rightarrow> scan_entries rd st limit fuel (length name) path es (s\<lparr>streams := streams s + 1\<rparr>)))"
| "scan_entries rd st limit fuel end path [] s = Some (Inr s)"
| "scan_entries rd st limit fuel end path (e # es) s =
     (case copy_at end path e of Inl e \<Rightarrow> Some (Inl e)
      | Inr path \<Rightarrow>
          (case st path of
             None \<Rightarrow> scan_entries rd st limit fuel end path es (put (LStatError path) s)
           | Some KReg \<Rightarrow> scan_entries rd st limit fuel end path es (put (LReg path) s)
           | Some KOther \<Rightarrow> scan_entries rd st limit fuel end path es s
           | Some KDir \<Rightarrow>
               if e = ''..'' \<or> e = ''.'' then scan_entries rd st limit fuel end path es s
               else
                 (case copy_at (length path) path ''/'' of Inl e \<Rightarrow> Some (Inl e)
                  | Inr sub \<Rightarrow>
                      (case SearchDirectory rd st limit fuel sub (put (LDir path) s) of
                         None \<Rightarrow> None
                       | Some (Inl e) \<Rightarrow> Some (Inl e)
                       | Some (Inr s) \<Rightarrow> scan_entries rd st limit fuel end sub es s))))"

definition list_main :: "(string \<Rightarrow> string list option) \<Rightarrow> (string \<Rightarrow> kind option) \<Rightarrow> nat \<Rightarrow> nat \<Rightarrow> string option
    \<Rightarrow> (c_error + listing_state) option" where
  "list_main rd st limit fuel cwd =
     (case cwd of None \<Rightarrow> Some (Inr \<lparr>streams = 0, printed = []\<rparr>)
      | Some cwd \<Rightarrow>
          (case copy_at (length cwd) cwd ''/'' of Inl e \<Rightarrow> Some (Inl e)
           | Inr name \<Rightarrow> SearchDirectory rd st limit fuel name \<lparr>streams = 0, printed = []\<rparr>))"

section \<open>What there is to list\<close>

datatype node = Dir "(string \<times> node) list" | Reg | Other | Unreadable

fun kind_of :: "node \<Rightarrow> kind option" where
  "kind_of (Dir es) = Some KDir"
| "kind_of Reg = Some KReg"
| "kind_of Other = Some KOther"
| "kind_of Unreadable = None"

definition dots :: "string set" where
  "dots = {''.'', ''..''}"

text \<open>The directories below a node, itself included, as the program visits them; and their depth.\<close>

fun dirs :: "node \<Rightarrow> nat" where
  "dirs (Dir es) = Suc (sum_list (map (\<lambda>(n, t). if n \<in> dots then 0 else dirs t) es))"
| "dirs _ = 0"

fun depth :: "node \<Rightarrow> nat" where
  "depth (Dir es) = Suc (foldr max (map (\<lambda>(n, t). depth t) es) 0)"
| "depth _ = 0"

text \<open>The expected output, entry by entry, each directory followed by what is in it.\<close>

fun lines_of :: "string \<Rightarrow> node \<Rightarrow> line list" where
  "lines_of p (Dir es) =
     concat (map (\<lambda>(n, t). case t of
       Dir _ \<Rightarrow> if n \<in> dots then [] else LDir (p @ n) # lines_of (p @ n @ ''/'') t
     | Reg \<Rightarrow> [LReg (p @ n)]
     | Other \<Rightarrow> []
     | Unreadable \<Rightarrow> [LStatError (p @ n)]) es)"
| "lines_of p _ = []"

text \<open>
  The first \<open>k\<close> directories, in the order of the visit; the others look empty. The first result is
  what is left of \<open>k\<close>.
\<close>

fun prune :: "nat \<Rightarrow> node \<Rightarrow> nat \<times> node" and prune_all :: "nat \<Rightarrow> (string \<times> node) list \<Rightarrow> nat \<times> (string \<times> node) list" where
  "prune 0 (Dir es) = (0, Dir [])"
| "prune (Suc k) (Dir es) = (let (k, es) = prune_all k es in (k, Dir es))"
| "prune k t = (k, t)"
| "prune_all k [] = (k, [])"
| "prune_all k ((n, t) # es) =
     (let (k, t) = (if n \<in> dots then (k, t) else prune k t); (k, es) = prune_all k es in (k, (n, t) # es))"

text \<open>The file system shows the tree below \<open>p\<close>, and all its path names fit the buffer.\<close>

fun shows_tree :: "(string \<Rightarrow> string list option) \<Rightarrow> (string \<Rightarrow> kind option) \<Rightarrow> string \<Rightarrow> node \<Rightarrow> bool" where
  "shows_tree rd st p (Dir es) \<longleftrightarrow> length p < PATH_MAX \<and> rd p = Some (map fst es) \<and>
     (\<forall>(n, t) \<in> set es. length p + length n + 1 < PATH_MAX \<and> st (p @ n) = kind_of t \<and>
       (n \<notin> dots \<longrightarrow> shows_tree rd st (p @ n @ ''/'') t))"
| "shows_tree rd st p t \<longleftrightarrow> True"

section \<open>The listing is complete, up to the limit\<close>

lemma prune_fst_le: "fst (prune k t) \<le> k" "fst (prune_all k es) \<le> k"
proof (induction k t and k es rule: prune_prune_all.induct)
  case (5 k n t es)
  obtain k1 t1 where one: "(if n \<in> dots then (k, t) else prune k t) = (k1, t1)" by fastforce
  then have "k1 \<le> k" using "5.IH"(1) by (auto split: if_splits)
  moreover have "fst (prune_all k1 es) \<le> k1" using "5.IH"(2) [OF one [symmetric] refl] .
  ultimately show ?case using one by (auto split: prod.splits)
qed (auto split: prod.splits)

lemma prune_le: "prune k t = (k', t') \<Longrightarrow> k' \<le> k"
  using prune_fst_le(1) [of k t] by simp

lemma prune_leaf: "\<forall>es. t \<noteq> Dir es \<Longrightarrow> prune k t = (k, t)"
  by (cases t; cases k) auto

lemma prune_Dir: "prune k (Dir es) = (k', t') \<Longrightarrow> \<exists>es'. t' = Dir es'"
  by (cases k) (auto split: prod.splits)

definition entry_ok :: "(string \<Rightarrow> string list option) \<Rightarrow> (string \<Rightarrow> kind option) \<Rightarrow> string \<Rightarrow> string \<times> node \<Rightarrow> bool" where
  "entry_ok rd st p = (\<lambda>(n, t). length p + length n + 1 < PATH_MAX \<and> st (p @ n) = kind_of t \<and>
     (n \<notin> dots \<longrightarrow> shows_tree rd st (p @ n @ ''/'') t))"

lemma dots_iff: "(e = ''..'' \<or> e = ''.'') \<longleftrightarrow> e \<in> dots"
  by (auto simp: dots_def)

lemma search_prune:
  "shows_tree rd st p t \<Longrightarrow> depth t \<le> fuel \<Longrightarrow> t = Dir es0 \<Longrightarrow> streams s + k = limit \<Longrightarrow> prune k t = (k', t') \<Longrightarrow>
   SearchDirectory rd st limit fuel p s =
     Some (Inr (s\<lparr>streams := limit - k', printed := printed s @ lines_of p t'\<rparr>))"
  "\<forall>x \<in> set es. entry_ok rd st p x \<Longrightarrow> foldr max (map (\<lambda>(n, t). depth t) es) 0 \<le> fuel \<Longrightarrow>
   take (length p) path = p \<Longrightarrow> streams s + k = limit \<Longrightarrow> prune_all k es = (k', es') \<Longrightarrow>
   scan_entries rd st limit fuel (length p) path (map fst es) s =
     Some (Inr (s\<lparr>streams := limit - k', printed := printed s @ lines_of p (Dir es')\<rparr>))"
proof (induction k t and k es arbitrary: p fuel es0 s k' t' and p fuel path s k' es' rule: prune_prune_all.induct)
  case (1 es)
  then obtain f where "fuel = Suc f" by (cases fuel) auto
  with 1 show ?case by (cases s) auto
next
  case (2 k es)
  then obtain f where f: "fuel = Suc f" by (cases fuel) auto
  obtain es' where es': "prune_all k es = (k', es')" "t' = Dir es'"
    using "2.prems"(5) by (auto split: prod.splits)
  have p: "length p < PATH_MAX" "rd p = Some (map fst es)" "\<forall>x \<in> set es. entry_ok rd st p x"
    using "2.prems"(1) by (auto simp: entry_ok_def)
  have "scan_entries rd st limit f (length p) p (map fst es) (s\<lparr>streams := streams s + 1\<rparr>) =
      Some (Inr ((s\<lparr>streams := streams s + 1\<rparr>)\<lparr>streams := limit - k',
        printed := printed (s\<lparr>streams := streams s + 1\<rparr>) @ lines_of p (Dir es')\<rparr>))"
    using "2.prems"(2,4) f p(3) es'(1) by (intro "2.IH") simp_all
  with f p(1,2) es'(2) "2.prems"(4) show ?case by (simp add: copy_at_def)
next
  case (4 k)
  then show ?case by (cases s) auto
next
  case (5 k n t es)
  have e: "length p + length n + 1 < PATH_MAX" "st (p @ n) = kind_of t"
      "n \<notin> dots \<Longrightarrow> shows_tree rd st (p @ n @ ''/'') t" "\<forall>x \<in> set es. entry_ok rd st p x"
    using "5.prems"(1) by (auto simp: entry_ok_def)
  have path: "copy_at (length p) path n = Inr (p @ n)" using e(1) "5.prems"(3) by (simp add: copy_at_def)
  have d: "depth t \<le> fuel" "foldr max (map (\<lambda>(n, t). depth t) es) 0 \<le> fuel" using "5.prems"(2) by simp_all
  obtain k1 t1 where one: "(if n \<in> dots then (k, t) else prune k t) = (k1, t1)" by fastforce
  obtain es1 where two: "prune_all k1 es = (k', es1)" "es' = (n, t1) # es1"
    using "5.prems"(5) one by (auto split: prod.splits)
  have rest: "scan_entries rd st limit fuel (length p) q (map fst es) u =
      Some (Inr (u\<lparr>streams := limit - k', printed := printed u @ lines_of p (Dir es1)\<rparr>))"
    if "take (length p) q = p" "streams u + k1 = limit" for q u
    using "5.IH"(2) [OF one [symmetric] refl] that e(4) d(2) two(1) by blast
  show ?case
  proof (cases "n \<notin> dots \<and> (\<exists>ts. t = Dir ts)")
    case False
    then have "t1 = t" "k1 = k" using one prune_leaf [of t k] by (auto split: if_splits)
    with False e(2) path rest [of "p @ n"] "5.prems"(4) two(2) show ?thesis
      by (cases t) (auto simp: dots_iff put_def)
  next
    case True
    then obtain ts where t: "t = Dir ts" "n \<notin> dots" by blast
    then have pr: "prune k t = (k1, t1)" using one by simp
    with t prune_Dir obtain ts1 where t1: "t1 = Dir ts1" by blast
    have "k1 \<le> k" using pr by (rule prune_le)
    let ?s = "put (LDir (p @ n)) s"
    have "SearchDirectory rd st limit fuel (p @ n @ ''/'') ?s =
        Some (Inr (?s\<lparr>streams := limit - k1, printed := printed ?s @ lines_of (p @ n @ ''/'') t1\<rparr>))"
      using "5.IH"(1) [OF t(2) e(3) [OF t(2)] d(1) t(1) _ pr] "5.prems"(4) by (simp add: put_def)
    moreover have "copy_at (length (p @ n)) (p @ n) ''/'' = Inr (p @ n @ ''/'')"
      using e(1) by (simp add: copy_at_def)
    ultimately show ?thesis
      using e(2) path t two(2) t1 rest [of "p @ n @ ''/''"] \<open>k1 \<le> k\<close> "5.prems"(4)
      by (simp add: dots_iff put_def)
  qed
qed simp_all

text \<open>A limit that is large enough prunes nothing.\<close>

lemma prune_enough:
  "dirs t \<le> k \<Longrightarrow> prune k t = (k - dirs t, t)"
  "sum_list (map (\<lambda>(n, t). if n \<in> dots then 0 else dirs t) es) \<le> k \<Longrightarrow>
   prune_all k es = (k - sum_list (map (\<lambda>(n, t). if n \<in> dots then 0 else dirs t) es), es)"
  by (induction k t and k es rule: prune_prune_all.induct) auto

section \<open>The property\<close>

text \<open>C35. The listing visits the whole tree, however its files are arranged, as long as it may open
  that many streams: for every tree whose path names fit the buffer, the program ends, without
  leaving the buffer, and prints for each entry, in order, its line, followed by the lines of what
  is in it if it is a directory. No stream is ever closed: after \<open>limit\<close> directories have been
  opened the others are printed as if they were empty.\<close>

theorem listing_is_complete:
  assumes "shows_tree rd st (cwd @ ''/'') (Dir es)" and "depth (Dir es) \<le> fuel"
  shows "\<exists>s k. list_main rd st limit fuel (Some cwd) = Some (Inr s) \<and>
    printed s = lines_of (cwd @ ''/'') (snd (prune limit (Dir es))) \<and> streams s + k = limit \<and>
    (dirs (Dir es) \<le> limit \<longrightarrow> printed s = lines_of (cwd @ ''/'') (Dir es) \<and> streams s = dirs (Dir es))"
proof -
  obtain k t where pr: "prune limit (Dir es) = (k, t)" by (cases "prune limit (Dir es)")
  then have le: "k \<le> limit" by (rule prune_le)
  have cwd: "copy_at (length cwd) cwd ''/'' = Inr (cwd @ ''/'')"
    using assms(1) by (simp add: copy_at_def)
  have "list_main rd st limit fuel (Some cwd) = Some (Inr \<lparr>streams = limit - k, printed = lines_of (cwd @ ''/'') t\<rparr>)"
    using search_prune(1) [OF assms refl _ pr, of "\<lparr>streams = 0, printed = []\<rparr>" limit] cwd by (simp add: list_main_def)
  moreover have "k = limit - dirs (Dir es) \<and> t = Dir es" if "dirs (Dir es) \<le> limit"
    using prune_enough(1) [OF that] pr by simp
  ultimately show ?thesis using le pr by (intro exI [of _ "\<lparr>streams = limit - k, printed = lines_of (cwd @ ''/'') t\<rparr>"] exI [of _ k]) auto
qed

text \<open>A directory with a file in a subdirectory.\<close>

definition demo_tree :: node where
  "demo_tree = Dir [(''.'', Dir []), (''a'', Dir [(''f'', Reg)]), (''g'', Reg)]"

definition demo_rd :: "string \<Rightarrow> string list option" where
  "demo_rd p = (if p = ''/d/'' then Some [''.'', ''a'', ''g''] else if p = ''/d/a/'' then Some [''f''] else None)"

definition demo_st :: "string \<Rightarrow> kind option" where
  "demo_st p = (if p \<in> {''/d/.'', ''/d/a''} then Some KDir else if p \<in> {''/d/a/f'', ''/d/g''} then Some KReg else None)"

theorem listing_is_complete_witness:
  "(\<exists>s. list_main demo_rd demo_st 2 3 (Some ''/d'') = Some (Inr s) \<and>
      printed s = [LDir ''/d/a'', LReg ''/d/a/f'', LReg ''/d/g''] \<and> streams s = 2) \<and>
   (\<exists>s. list_main demo_rd demo_st 1 3 (Some ''/d'') = Some (Inr s) \<and>
      printed s = [LDir ''/d/a'', LReg ''/d/g''])"
proof -
  let ?es = "[(''.'', Dir []), (''a'', Dir [(''f'', Reg)]), (''g'', Reg)]"
  have "shows_tree demo_rd demo_st (''/d'' @ ''/'') (Dir ?es)"
    by (simp add: demo_rd_def demo_st_def dots_def PATH_MAX_def)
  note full = listing_is_complete [OF this, of 3]
  show ?thesis
    using full [of 2] full [of 1] by (simp add: dots_def numeral_2_eq_2) blast
qed

end
