(* ===== verification/Counting.thy ===== *)
theory Counting
  imports Prelude
begin

text \<open>
  Two threads that count with one variable, one up and one down, with and without a mutex
  (\<open>task4/examples/2_multithread_counting_nosync.c\<close>, \<open>3_mutex_lock.c\<close>). An assignment
  \<open>sum += offset\<close> is a load and a store. The sum never leaves the range of the loop counter, so its
  64 bits do not matter.
\<close>

section \<open>Both programs\<close>

definition NUM_LOOPS :: nat where
  "NUM_LOOPS = 1000000"

text \<open>The arguments \<open>main\<close> hands to its two threads, here 0 and 1.\<close>

definition offset :: "nat \<Rightarrow> int" where
  "offset t = (if t = 0 then 1 else -1)"

text \<open>
  Where a thread is in its loop: at its test, inside the critical section of the second program,
  after the load, after the store. A thread that has finished is at the test with all loops done.
\<close>

datatype cpc = CTop | CIn | CLoaded int | CStored

record counting =
  sum_var :: int
  loop_i :: "nat \<Rightarrow> nat"
  cnt_at :: "nat \<Rightarrow> cpc"
  mutex :: "nat option"

definition counting_start :: counting where
  "counting_start = \<lparr>sum_var = 0, loop_i = (\<lambda>_. 0), cnt_at = (\<lambda>_. CTop), mutex = None\<rparr>"

text \<open>What \<open>main\<close> prints is \<open>sum\<close> when both threads have returned.\<close>

definition counted :: "nat \<Rightarrow> counting \<Rightarrow> bool" where
  "counted n s \<longleftrightarrow> (\<forall>t < 2. cnt_at s t = CTop \<and> loop_i s t = n)"

text \<open>\<open>cnt_routine\<close> of the first program, with \<open>n\<close> loops.\<close>

inductive nosync_step :: "nat \<Rightarrow> counting \<Rightarrow> counting \<Rightarrow> bool" for n where
  nosync_load: "t < 2 \<Longrightarrow> cnt_at s t = CTop \<Longrightarrow> loop_i s t < n \<Longrightarrow>
     nosync_step n s (s\<lparr>cnt_at := (cnt_at s)(t := CLoaded (sum_var s))\<rparr>)"
| nosync_store: "t < 2 \<Longrightarrow> cnt_at s t = CLoaded v \<Longrightarrow>
     nosync_step n s (s\<lparr>sum_var := v + offset t, cnt_at := (cnt_at s)(t := CTop),
       loop_i := (loop_i s)(t := loop_i s t + 1)\<rparr>)"

text \<open>\<open>cnt_routine\<close> of the second: a loop locks, loads, stores and unlocks.\<close>

inductive mutex_step :: "nat \<Rightarrow> counting \<Rightarrow> counting \<Rightarrow> bool" for n where
  mutex_lock: "t < 2 \<Longrightarrow> cnt_at s t = CTop \<Longrightarrow> loop_i s t < n \<Longrightarrow> mutex s = None \<Longrightarrow>
     mutex_step n s (s\<lparr>cnt_at := (cnt_at s)(t := CIn), mutex := Some t\<rparr>)"
| mutex_load: "t < 2 \<Longrightarrow> cnt_at s t = CIn \<Longrightarrow>
     mutex_step n s (s\<lparr>cnt_at := (cnt_at s)(t := CLoaded (sum_var s))\<rparr>)"
| mutex_store: "t < 2 \<Longrightarrow> cnt_at s t = CLoaded v \<Longrightarrow>
     mutex_step n s (s\<lparr>sum_var := v + offset t, cnt_at := (cnt_at s)(t := CStored)\<rparr>)"
| mutex_unlock: "t < 2 \<Longrightarrow> cnt_at s t = CStored \<Longrightarrow>
     mutex_step n s (s\<lparr>mutex := None, cnt_at := (cnt_at s)(t := CTop),
       loop_i := (loop_i s)(t := loop_i s t + 1)\<rparr>)"

inductive_cases nosync_stepE: "nosync_step n s s'"
inductive_cases mutex_stepE: "mutex_step n s s'"

section \<open>Without the mutex\<close>

lemma two_threads: "t < 2 \<longleftrightarrow> t = 0 \<or> t = (1::nat)"
  by auto

lemma which_thread: "t < 2 \<Longrightarrow> t = 0 \<or> t = (1::nat)"
  by auto

lemma both_threads: "(\<forall>t < 2. P t) \<longleftrightarrow> P 0 \<and> P (Suc 0)"
  by (auto simp: less_2_cases_iff)


text \<open>No value ever exceeds what one thread alone has counted.\<close>

definition between :: "counting \<Rightarrow> int \<Rightarrow> bool" where
  "between s v \<longleftrightarrow> - int (loop_i s 1) \<le> v \<and> v \<le> int (loop_i s 0)"

definition nosync_inv :: "counting \<Rightarrow> bool" where
  "nosync_inv s \<longleftrightarrow> between s (sum_var s) \<and> (\<forall>t < 2. \<forall>v. cnt_at s t = CLoaded v \<longrightarrow> between s v)"

lemma nosync_inv_step: "nosync_step n s s' \<Longrightarrow> nosync_inv s \<Longrightarrow> nosync_inv s'"
  by (elim nosync_stepE) (force simp: nosync_inv_def between_def offset_def two_threads split: if_splits)+

lemma nosync_reach_inv: "(nosync_step n)\<^sup>*\<^sup>* counting_start s \<Longrightarrow> nosync_inv s"
proof (induction rule: rtranclp_induct)
  case base
  show ?case by (simp add: counting_start_def nosync_inv_def between_def)
qed (rule nosync_inv_step)

text \<open>A thread that runs alone for \<open>k\<close> loops.\<close>

lemma run_alone:
  assumes "t < 2" and "cnt_at s t = CTop" and "loop_i s t + k \<le> n"
  shows "(nosync_step n)\<^sup>*\<^sup>* s (s\<lparr>sum_var := sum_var s + int k * offset t, loop_i := (loop_i s)(t := loop_i s t + k)\<rparr>)"
  using assms(3)
proof (induction k)
  case 0
  then show ?case by simp
next
  case (Suc k)
  let ?s = "s\<lparr>sum_var := sum_var s + int k * offset t, loop_i := (loop_i s)(t := loop_i s t + k)\<rparr>"
  let ?l = "?s\<lparr>cnt_at := (cnt_at ?s)(t := CLoaded (sum_var ?s))\<rparr>"
  have "nosync_step n ?s ?l" using assms(1,2) Suc.prems by (intro nosync_load) simp_all
  moreover have "nosync_step n ?l (?l\<lparr>sum_var := sum_var ?s + offset t, cnt_at := (cnt_at ?l)(t := CTop),
      loop_i := (loop_i ?l)(t := loop_i ?l t + 1)\<rparr>)"
    using assms(1) by (intro nosync_store) simp_all
  moreover have "?l\<lparr>sum_var := sum_var ?s + offset t, cnt_at := (cnt_at ?l)(t := CTop),
      loop_i := (loop_i ?l)(t := loop_i ?l t + 1)\<rparr> =
    s\<lparr>sum_var := sum_var s + int (Suc k) * offset t, loop_i := (loop_i s)(t := loop_i s t + Suc k)\<rparr>"
    using assms(2) by (simp add: algebra_simps fun_upd_idem)
  ultimately show ?case using Suc by (metis Suc_leD add_Suc_right rtranclp.rtrancl_into_rtrancl)
qed

text \<open>
  One thread loads 0, the other makes \<open>k\<close> of its loops, the first stores over them: \<open>k\<close> loops are
  lost.
\<close>

lemma lost_updates:
  assumes "t < 2" and "u < 2" and "t \<noteq> u" and "0 < n" and "k \<le> n"
  shows "\<exists>s. (nosync_step n)\<^sup>*\<^sup>* counting_start s \<and> counted n s \<and> sum_var s = int k * offset t"
proof -
  let ?s0 = counting_start
  let ?s1 = "?s0\<lparr>cnt_at := (cnt_at ?s0)(t := CLoaded (sum_var ?s0))\<rparr>"
  let ?s2 = "?s1\<lparr>sum_var := sum_var ?s1 + int k * offset u, loop_i := (loop_i ?s1)(u := loop_i ?s1 u + k)\<rparr>"
  let ?s3 = "?s2\<lparr>sum_var := sum_var ?s0 + offset t, cnt_at := (cnt_at ?s2)(t := CTop),
    loop_i := (loop_i ?s2)(t := loop_i ?s2 t + 1)\<rparr>"
  let ?s4 = "?s3\<lparr>sum_var := sum_var ?s3 + int (n - 1) * offset t, loop_i := (loop_i ?s3)(t := loop_i ?s3 t + (n - 1))\<rparr>"
  let ?s5 = "?s4\<lparr>sum_var := sum_var ?s4 + int (n - k) * offset u, loop_i := (loop_i ?s4)(u := loop_i ?s4 u + (n - k))\<rparr>"
  have opp: "offset u = - offset t" using assms(1-3) by (auto simp: offset_def two_threads)
  have "nosync_step n ?s0 ?s1" using assms by (intro nosync_load) (simp_all add: counting_start_def)
  moreover have "(nosync_step n)\<^sup>*\<^sup>* ?s1 ?s2" using assms by (intro run_alone) (simp_all add: counting_start_def)
  moreover have "nosync_step n ?s2 ?s3" using assms by (intro nosync_store) (simp_all add: counting_start_def)
  moreover have "(nosync_step n)\<^sup>*\<^sup>* ?s3 ?s4" using assms by (intro run_alone) (simp_all add: counting_start_def)
  moreover have "(nosync_step n)\<^sup>*\<^sup>* ?s4 ?s5" using assms by (intro run_alone) (simp_all add: counting_start_def)
  ultimately have "(nosync_step n)\<^sup>*\<^sup>* ?s0 ?s5" by (meson rtranclp.rtrancl_into_rtrancl rtranclp_trans r_into_rtranclp)
  moreover have "counted n ?s5" using assms by (auto simp: counted_def two_threads counting_start_def)
  moreover have "sum_var ?s5 = int k * offset t"
    using assms by (simp add: counting_start_def opp of_nat_diff algebra_simps)
  ultimately show ?thesis by blast
qed

section \<open>With the mutex\<close>

definition net :: "counting \<Rightarrow> nat \<Rightarrow> int" where
  "net s t = offset t * (int (loop_i s t) + (if cnt_at s t = CStored then 1 else 0))"

definition mutex_inv :: "counting \<Rightarrow> bool" where
  "mutex_inv s \<longleftrightarrow> (\<forall>t < 2. cnt_at s t \<noteq> CTop \<longleftrightarrow> mutex s = Some t) \<and>
     (\<forall>t < 2. \<forall>v. cnt_at s t = CLoaded v \<longrightarrow> v = sum_var s) \<and> sum_var s = net s 0 + net s 1"

lemma mutex_inv_step: "mutex_step n s s' \<Longrightarrow> mutex_inv s \<Longrightarrow> mutex_inv s'"
  by (elim mutex_stepE; drule which_thread; elim disjE;
      cases "cnt_at s 0"; cases "cnt_at s (Suc 0)"; auto simp: mutex_inv_def net_def offset_def both_threads)

lemma mutex_reach_inv: "(mutex_step n)\<^sup>*\<^sup>* counting_start s \<Longrightarrow> mutex_inv s"
proof (induction rule: rtranclp_induct)
  case base
  show ?case by (simp add: counting_start_def mutex_inv_def net_def)
qed (rule mutex_inv_step)

lemma mutex_loop:
  assumes "t < 2" and "cnt_at s t = CTop" and "loop_i s t < n" and "mutex s = None"
  shows "(mutex_step n)\<^sup>*\<^sup>* s (s\<lparr>sum_var := sum_var s + offset t, loop_i := (loop_i s)(t := loop_i s t + 1)\<rparr>)"
proof -
  let ?s1 = "s\<lparr>cnt_at := (cnt_at s)(t := CIn), mutex := Some t\<rparr>"
  let ?s2 = "?s1\<lparr>cnt_at := (cnt_at ?s1)(t := CLoaded (sum_var ?s1))\<rparr>"
  let ?s3 = "?s2\<lparr>sum_var := sum_var ?s1 + offset t, cnt_at := (cnt_at ?s2)(t := CStored)\<rparr>"
  let ?s4 = "?s3\<lparr>mutex := None, cnt_at := (cnt_at ?s3)(t := CTop), loop_i := (loop_i ?s3)(t := loop_i ?s3 t + 1)\<rparr>"
  have "mutex_step n s ?s1" using assms by (intro mutex_lock) simp_all
  moreover have "mutex_step n ?s1 ?s2" using assms by (intro mutex_load) simp_all
  moreover have "mutex_step n ?s2 ?s3" using assms by (intro mutex_store) simp_all
  moreover have "mutex_step n ?s3 ?s4" using assms by (intro mutex_unlock) simp_all
  ultimately have "(mutex_step n)\<^sup>*\<^sup>* s ?s4" by (meson rtranclp.rtrancl_into_rtrancl r_into_rtranclp)
  moreover have "?s4 = s\<lparr>sum_var := sum_var s + offset t, loop_i := (loop_i s)(t := loop_i s t + 1)\<rparr>"
    using assms by (simp add: fun_upd_idem)
  ultimately show ?thesis by (simp only:)
qed

lemma mutex_run:
  assumes "t < 2" and "cnt_at s t = CTop" and "mutex s = None" and "loop_i s t + k \<le> n"
  shows "\<exists>s'. (mutex_step n)\<^sup>*\<^sup>* s s' \<and> loop_i s' = (loop_i s)(t := loop_i s t + k) \<and>
    cnt_at s' = cnt_at s \<and> mutex s' = None"
  using assms(4)
proof (induction k)
  case 0
  show ?case using assms(3) by (intro exI [of _ s]) simp
next
  case (Suc k)
  then have "loop_i s t + k \<le> n" by simp
  from Suc.IH [OF this] obtain s' where s': "(mutex_step n)\<^sup>*\<^sup>* s s'" "loop_i s' = (loop_i s)(t := loop_i s t + k)"
    "cnt_at s' = cnt_at s" "mutex s' = None" by blast
  have "(mutex_step n)\<^sup>*\<^sup>* s' (s'\<lparr>sum_var := sum_var s' + offset t, loop_i := (loop_i s')(t := loop_i s' t + 1)\<rparr>)"
    using s' assms(1,2) Suc.prems by (intro mutex_loop) simp_all
  with s' show ?case
    by (intro exI [of _ "s'\<lparr>sum_var := sum_var s' + offset t, loop_i := (loop_i s')(t := loop_i s' t + 1)\<rparr>"]) auto
qed

section \<open>The property\<close>

text \<open>C36. What the two programs can print. Without the mutex the result of \<open>n\<close> loops up and \<open>n\<close> loops
  down can be every number from \<open>-n\<close> to \<open>n\<close>, and no other; with the mutex it can only be, and is in
  some run, 0.\<close>

theorem counting_results:
  "((\<exists>s. (nosync_step n)\<^sup>*\<^sup>* counting_start s \<and> counted n s \<and> sum_var s = v) \<longleftrightarrow> \<bar>v\<bar> \<le> int n) \<and>
   ((\<exists>s. (mutex_step n)\<^sup>*\<^sup>* counting_start s \<and> counted n s \<and> sum_var s = v) \<longleftrightarrow> v = 0)"
proof (intro conjI iffI)
  assume "\<exists>s. (nosync_step n)\<^sup>*\<^sup>* counting_start s \<and> counted n s \<and> sum_var s = v"
  then show "\<bar>v\<bar> \<le> int n"
    using nosync_reach_inv by (fastforce simp: nosync_inv_def between_def counted_def)
next
  assume v: "\<bar>v\<bar> \<le> int n"
  show "\<exists>s. (nosync_step n)\<^sup>*\<^sup>* counting_start s \<and> counted n s \<and> sum_var s = v"
  proof (cases "n = 0")
    case True
    with v show ?thesis by (intro exI [of _ counting_start]) (simp add: counting_start_def counted_def)
  next
    case False
    with v lost_updates [of 0 1 n "nat v"] lost_updates [of 1 0 n "nat (- v)"] show ?thesis
      by (cases "0 \<le> v") (auto simp: offset_def)
  qed
next
  assume "\<exists>s. (mutex_step n)\<^sup>*\<^sup>* counting_start s \<and> counted n s \<and> sum_var s = v"
  then show "v = 0"
    using mutex_reach_inv by (fastforce simp: mutex_inv_def net_def counted_def offset_def)
next
  assume v: "v = 0"
  obtain s where s: "(mutex_step n)\<^sup>*\<^sup>* counting_start s" "loop_i s = (\<lambda>_. 0)(0 := n)" "cnt_at s = (\<lambda>_. CTop)"
      "mutex s = None"
    using mutex_run [of 0 counting_start n n] by (auto simp: counting_start_def)
  moreover obtain s' where s': "(mutex_step n)\<^sup>*\<^sup>* s s'" "loop_i s' = (loop_i s)(1 := n)" "cnt_at s' = (\<lambda>_. CTop)"
    using mutex_run [of 1 s n n] s by auto
  ultimately have "(mutex_step n)\<^sup>*\<^sup>* counting_start s'" "counted n s'"
    by (auto simp: counted_def two_threads)
  moreover from this have "sum_var s' = 0"
    using mutex_reach_inv by (fastforce simp: mutex_inv_def net_def counted_def offset_def)
  ultimately show "\<exists>s. (mutex_step n)\<^sup>*\<^sup>* counting_start s \<and> counted n s \<and> sum_var s = v" using v by blast
qed

end
