(* ===== verification/TokenServer.thy ===== *)
theory TokenServer
  imports CString
begin

text \<open>
  The token server and its clients on POSIX message queues (\<open>task3/examples/mq_server.c\<close>,
  \<open>mq_client.c\<close>): a client sends the name of its own queue, the server answers there with the next
  token. Any number of clients run beside the server, each step being one queue operation.
\<close>

section \<open>State\<close>

definition SERVER_QUEUE_NAME :: string where
  "SERVER_QUEUE_NAME = ''/sp-example-server''"

definition MAX_MESSAGES :: nat where
  "MAX_MESSAGES = 10"

definition client_queue_name :: "nat \<Rightarrow> string" where
  "client_queue_name pid = ''/sp-example-client-'' @ dec_nat pid"

text \<open>
  The server: not started, before \<open>mq_receive\<close>, with a message to answer. A client: not started,
  before \<open>fgets\<close>, before \<open>mq_receive\<close>, ended by end of file, ended by \<open>exit(1)\<close>.
\<close>

datatype server_pc = SOff | SReceive | SReply string

datatype client_pc = CNew | CAsk | CWait | CBye | CExit

text \<open>
  \<open>queues\<close> are the queues of the system with their messages, \<open>next_fd\<close> the lowest free descriptor of
  the server, which never closes one. \<open>sent\<close> and \<open>shown\<close> are history: the tokens sent and printed,
  with the queue they went through.
\<close>

record token_state =
  queues :: "string \<rightharpoonup> string list"
  token_number :: nat
  next_fd :: nat
  server_at :: server_pc
  client_at :: "nat \<Rightarrow> client_pc"
  sent :: "(string \<times> string) list"
  shown :: "(string \<times> string) list"

definition token_start :: token_state where
  "token_start = \<lparr>queues = Map.empty, token_number = 1, next_fd = 3, server_at = SOff,
     client_at = (\<lambda>_. CNew), sent = [], shown = []\<rparr>"

section \<open>The server's answer\<close>

text \<open>\<open>mq_open\<close> of a queue that must exist, in a process that may have \<open>limit\<close> descriptors.\<close>

definition server_open :: "nat \<Rightarrow> string \<Rightarrow> token_state \<Rightarrow> int \<times> token_state" where
  "server_open limit name s =
     (if queues s name \<noteq> None \<and> next_fd s < limit then (int (next_fd s), s\<lparr>next_fd := next_fd s + 1\<rparr>) else (-1, s))"

text \<open>
  The turn after a message, with the test of the source, which compares the descriptor with 1;
  sending to descriptor -1 fails. \<open>None\<close> means that the turn blocks, in a full queue.
\<close>

definition server_reply :: "nat \<Rightarrow> string \<Rightarrow> token_state \<Rightarrow> token_state option" where
  "server_reply limit in_buffer s =
     (let (qd_client, s) = server_open limit in_buffer s in
      if qd_client = 1 then Some (s\<lparr>server_at := SReceive\<rparr>)
      else if qd_client = -1 then Some (s\<lparr>server_at := SReceive\<rparr>)
      else
        (let out_buffer = dec_nat (token_number s); ms = the (queues s in_buffer) in
         if MAX_MESSAGES \<le> length ms then None
         else Some (s\<lparr>queues := (queues s)(in_buffer \<mapsto> ms @ [out_buffer]),
           token_number := token_number s + 1, server_at := SReceive, sent := sent s @ [(in_buffer, out_buffer)]\<rparr>)))"

section \<open>Steps\<close>

inductive token_step :: "nat \<Rightarrow> token_state \<Rightarrow> token_state \<Rightarrow> bool" for limit where
  server_starts: "server_at s = SOff \<Longrightarrow>
     token_step limit s (s\<lparr>queues := (queues s)(SERVER_QUEUE_NAME \<mapsto> []), next_fd := next_fd s + 1, server_at := SReceive\<rparr>)"
| server_receives: "server_at s = SReceive \<Longrightarrow> queues s SERVER_QUEUE_NAME = Some (m # ms) \<Longrightarrow>
     token_step limit s (s\<lparr>queues := (queues s)(SERVER_QUEUE_NAME \<mapsto> ms), server_at := SReply m\<rparr>)"
| server_replies: "server_at s = SReply m \<Longrightarrow> server_reply limit m s = Some s' \<Longrightarrow> token_step limit s s'"
| client_starts: "client_at s p = CNew \<Longrightarrow> queues s SERVER_QUEUE_NAME \<noteq> None \<Longrightarrow>
     token_step limit s (s\<lparr>queues := (queues s)(client_queue_name p \<mapsto> []), client_at := (client_at s)(p := CAsk)\<rparr>)"
| client_alone: "client_at s p = CNew \<Longrightarrow> queues s SERVER_QUEUE_NAME = None \<Longrightarrow>
     token_step limit s (s\<lparr>queues := (queues s)(client_queue_name p \<mapsto> []), client_at := (client_at s)(p := CExit)\<rparr>)"
| client_asks: "client_at s p = CAsk \<Longrightarrow> queues s SERVER_QUEUE_NAME = Some ms \<Longrightarrow> length ms < MAX_MESSAGES \<Longrightarrow>
     token_step limit s (s\<lparr>queues := (queues s)(SERVER_QUEUE_NAME \<mapsto> ms @ [client_queue_name p]),
       client_at := (client_at s)(p := CWait)\<rparr>)"
| client_shows: "client_at s p = CWait \<Longrightarrow> queues s (client_queue_name p) = Some (t # ts) \<Longrightarrow>
     token_step limit s (s\<lparr>queues := (queues s)(client_queue_name p \<mapsto> ts), client_at := (client_at s)(p := CAsk),
       shown := shown s @ [(client_queue_name p, t)]\<rparr>)"
| client_leaves: "client_at s p = CAsk \<Longrightarrow>
     token_step limit s (s\<lparr>queues := (queues s)(client_queue_name p := None), client_at := (client_at s)(p := CBye)\<rparr>)"

inductive_cases token_stepE: "token_step limit s s'"

definition token_reachable :: "nat \<Rightarrow> token_state \<Rightarrow> bool" where
  "token_reachable limit s \<longleftrightarrow> (token_step limit)\<^sup>*\<^sup>* token_start s"

section \<open>Invariant\<close>

lemma client_queue_inj [simp]: "client_queue_name p = client_queue_name q \<longleftrightarrow> p = q"
  by (auto simp: client_queue_name_def dest: dec_nat_inj)

lemma client_queue_other [simp]: "client_queue_name p \<noteq> SERVER_QUEUE_NAME" "SERVER_QUEUE_NAME \<noteq> client_queue_name p"
  by (simp_all add: client_queue_name_def SERVER_QUEUE_NAME_def)

definition contents :: "token_state \<Rightarrow> string \<Rightarrow> string list" where
  "contents s m = (case queues s m of None \<Rightarrow> [] | Some ts \<Rightarrow> ts)"

definition through :: "string \<Rightarrow> (string \<times> string) list \<Rightarrow> string list" where
  "through m xs = map snd (filter (\<lambda>x. fst x = m) xs)"

lemma through_simps [simp]: "through m [] = []" "through m (xs @ ys) = through m xs @ through m ys"
  "through m [(m', t)] = (if m' = m then [t] else [])"
  by (simp_all add: through_def)

definition is_client_queue :: "string \<Rightarrow> bool" where
  "is_client_queue m \<longleftrightarrow> m \<in> range client_queue_name"

lemma is_client_queue [simp]: "is_client_queue (client_queue_name p)"
  by (simp add: is_client_queue_def)

text \<open>The requests the server has not answered.\<close>

definition pending :: "token_state \<Rightarrow> string list" where
  "pending s = contents s SERVER_QUEUE_NAME @ (case server_at s of SReply m \<Rightarrow> [m] | _ \<Rightarrow> [])"

fun queue_fits :: "client_pc \<Rightarrow> string list option \<Rightarrow> bool" where
  "queue_fits CNew q \<longleftrightarrow> q = None"
| "queue_fits CAsk q \<longleftrightarrow> q = Some []"
| "queue_fits CWait q \<longleftrightarrow> q = Some [] \<or> (\<exists>t. q = Some [t])"
| "queue_fits CBye q \<longleftrightarrow> q = None"
| "queue_fits CExit q \<longleftrightarrow> q = Some []"

definition clients_inv :: "token_state \<Rightarrow> bool" where
  "clients_inv s \<longleftrightarrow> (server_at s = SOff \<longleftrightarrow> queues s SERVER_QUEUE_NAME = None) \<and> distinct (pending s) \<and>
     set (pending s) \<subseteq> range client_queue_name \<and>
     (\<forall>p. client_queue_name p \<in> set (pending s) \<longrightarrow>
       client_at s p = CWait \<and> queues s (client_queue_name p) = Some []) \<and>
     (\<forall>p. queue_fits (client_at s p) (queues s (client_queue_name p)))"

definition tokens_inv :: "nat \<Rightarrow> token_state \<Rightarrow> bool" where
  "tokens_inv limit s \<longleftrightarrow> map snd (sent s) = map dec_nat [1..<token_number s] \<and> 1 \<le> token_number s \<and>
     (\<forall>p. through (client_queue_name p) (shown s) @ contents s (client_queue_name p) =
       through (client_queue_name p) (sent s)) \<and>
     (\<forall>x \<in> set (shown s). is_client_queue (fst x)) \<and>
     (server_at s = SOff \<longrightarrow> token_number s = 1) \<and>
     next_fd s = token_number s + (if server_at s = SOff then 2 else 3) \<and> next_fd s \<le> max limit 4"

text \<open>The server's turn: it drops the message, or answers it with the next token.\<close>

lemma server_reply_cases:
  assumes "server_reply limit m s = Some s'" and "tokens_inv limit s" and "server_at s = SReply m" and "queues s m = Some []"
  shows "limit \<le> next_fd s \<and> s' = s\<lparr>server_at := SReceive\<rparr> \<or>
    next_fd s < limit \<and> s' = s\<lparr>next_fd := next_fd s + 1, queues := (queues s)(m \<mapsto> [dec_nat (token_number s)]),
      token_number := token_number s + 1, server_at := SReceive, sent := sent s @ [(m, dec_nat (token_number s))]\<rparr>"
proof -
  have "next_fd s \<noteq> 1" using assms(2,3) by (simp add: tokens_inv_def)
  with assms(1,4) show ?thesis
    by (auto simp: server_reply_def server_open_def Let_def split: if_splits)
qed

text \<open>The queue of the client whose request is being answered is empty.\<close>

lemma answered_client:
  assumes "clients_inv s" and "server_at s = SReply m"
  obtains p where "m = client_queue_name p" and "client_at s p = CWait" and "queues s m = Some []"
  using assms by (auto simp: clients_inv_def pending_def)

lemma clients_inv_step:
  assumes "token_step limit s s'" and "clients_inv s" and "tokens_inv limit s"
  shows "clients_inv s'"
  using assms(1)
proof (cases rule: token_step.cases)
  case (server_replies m)
  obtain p where m: "m = client_queue_name p" "client_at s p = CWait" "queues s m = Some []"
    using assms(2) server_replies(1) by (rule answered_client)
  from server_reply_cases [OF server_replies(2) assms(3) server_replies(1) m(3)] show ?thesis
    using assms(2) server_replies(1) m
    by (auto simp: clients_inv_def pending_def contents_def split: if_splits option.splits)
next
  case (client_asks p ms)
  then have "client_queue_name p \<notin> set (pending s)" "queues s (client_queue_name p) = Some []"
    using assms(2) by (auto simp: clients_inv_def) (metis queue_fits.simps(2))
  with client_asks assms(2) show ?thesis
    by (auto simp: clients_inv_def pending_def contents_def split: if_splits option.splits server_pc.splits)
next
  case (client_shows p t ts)
  have "queue_fits CWait (Some (t # ts))" using client_shows assms(2) by (metis clients_inv_def)
  moreover have "client_queue_name p \<notin> set (pending s)" using client_shows assms(2) by (auto simp: clients_inv_def)
  ultimately have "client_queue_name p \<notin> set (pending s)" "ts = []" by simp_all
  with client_shows assms(2) show ?thesis
    by (auto simp: clients_inv_def pending_def contents_def split: if_splits option.splits server_pc.splits)
qed (use assms(2) in \<open>auto simp: clients_inv_def pending_def contents_def split: if_splits option.splits server_pc.splits\<close>)

text \<open>Through a queue that is empty or not there, everything sent has been shown.\<close>

lemma idle_queue:
  assumes "tokens_inv limit s" and "contents s (client_queue_name p) = []"
  shows "through (client_queue_name p) (shown s) = through (client_queue_name p) (sent s)"
  using assms by (metis append_Nil2 tokens_inv_def)

lemma tokens_inv_step:
  assumes "token_step limit s s'" and "clients_inv s" and "tokens_inv limit s"
  shows "tokens_inv limit s'"
  using assms(1)
proof (cases rule: token_step.cases)
  case (server_replies m)
  obtain p where m: "m = client_queue_name p" "queues s m = Some []"
    using assms(2) server_replies(1) by (rule answered_client)
  have old: "through m (shown s) = through m (sent s)"
    unfolding m(1) using m by (intro idle_queue [OF assms(3)]) (simp add: contents_def)
  from server_reply_cases [OF server_replies(2) assms(3) server_replies(1) m(2)] show ?thesis
    using assms(3) server_replies(1) m old by (auto simp: tokens_inv_def contents_def)
next
  case (client_starts p)
  then have "queues s (client_queue_name p) = None"
    using assms(2) by (metis clients_inv_def queue_fits.simps(1))
  with client_starts assms(3) idle_queue [OF assms(3), of p] show ?thesis by (auto simp: tokens_inv_def contents_def)
next
  case (client_alone p)
  then have "queues s (client_queue_name p) = None"
    using assms(2) by (metis clients_inv_def queue_fits.simps(1))
  with client_alone assms(3) idle_queue [OF assms(3), of p] show ?thesis by (auto simp: tokens_inv_def contents_def)
next
  case (client_leaves p)
  then have "queues s (client_queue_name p) = Some []"
    using assms(2) by (metis clients_inv_def queue_fits.simps(2))
  with client_leaves assms(3) idle_queue [OF assms(3), of p] show ?thesis by (auto simp: tokens_inv_def contents_def)
next
  case (client_shows p t ts)
  have old: "through (client_queue_name q) (shown s) @ contents s (client_queue_name q) =
      through (client_queue_name q) (sent s)" for q
    using assms(3) by (simp add: tokens_inv_def)
  have "through (client_queue_name q) (shown s') @ contents s' (client_queue_name q) =
      through (client_queue_name q) (sent s')" for q
    using old [of q] client_shows by (auto simp: contents_def)
  with client_shows assms(3) show ?thesis by (auto simp: tokens_inv_def)
qed (use assms(2,3) in \<open>auto simp: tokens_inv_def clients_inv_def contents_def\<close>)

lemma token_reachable_inv: "token_reachable limit s \<Longrightarrow> clients_inv s \<and> tokens_inv limit s"
  unfolding token_reachable_def
proof (induction rule: rtranclp_induct)
  case base
  show ?case
    by (simp add: clients_inv_def tokens_inv_def pending_def contents_def token_start_def)
next
  case (step s s')
  then show ?case using clients_inv_step tokens_inv_step by blast
qed

text \<open>What is shown was sent: through every queue, in order.\<close>

lemma through_filter: "through m xs = map snd (filter (\<lambda>x. fst x = m) xs)"
  by (simp add: through_def)

lemma count_through: "count (mset xs) (m, t) = count (mset (through m xs)) t"
  by (induction xs) (auto simp: through_def)

lemma shown_subset_sent:
  assumes "tokens_inv limit s"
  shows "mset (shown s) \<subseteq># mset (sent s)"
proof (rule mset_subset_eqI)
  fix x :: "string \<times> string"
  obtain m t where x: "x = (m, t)" by (cases x)
  show "count (mset (shown s)) x \<le> count (mset (sent s)) x"
  proof (cases "m \<in> range client_queue_name")
    case True
    then have "through m (sent s) = through m (shown s) @ contents s m"
      using assms by (auto simp: tokens_inv_def)
    then show ?thesis by (simp add: x count_through)
  next
    case False
    then have "x \<notin> set (shown s)" using assms x by (force simp: tokens_inv_def is_client_queue_def)
    then have "count (mset (shown s)) x = 0" by (simp add: count_mset_0_iff)
    then show ?thesis by (simp only: le0)
  qed
qed

lemma distinct_tokens: "distinct (map dec_nat [a..<b])"
  by (auto simp: distinct_map inj_on_def dec_nat_inj)

text \<open>A client whose request was dropped, when the server has no descriptor left.\<close>

definition starved :: "nat \<Rightarrow> nat \<Rightarrow> token_state \<Rightarrow> bool" where
  "starved limit p s \<longleftrightarrow> limit \<le> next_fd s \<and> client_at s p = CWait \<and> queues s (client_queue_name p) = Some []"

lemma starved_step:
  assumes "token_step limit s s'" and "clients_inv s" and "tokens_inv limit s" and "starved limit p s"
  shows "starved limit p s'"
  using assms(1)
proof (cases rule: token_step.cases)
  case (server_replies m)
  have "queues s m = Some []" using assms(2) server_replies(1) by (rule answered_client)
  from server_reply_cases [OF server_replies(2) assms(3) server_replies(1) this] assms(4) show ?thesis
    by (auto simp: starved_def)
qed (use assms(4) in \<open>auto simp: starved_def\<close>)

lemma starved_forever:
  assumes "(token_step limit)\<^sup>*\<^sup>* s s'" and "token_reachable limit s" and "starved limit p s"
  shows "starved limit p s' \<and> token_reachable limit s'"
  using assms(1)
proof (induction rule: rtranclp_induct)
  case base
  show ?case using assms(2,3) by simp
next
  case (step t u)
  then have "clients_inv t" "tokens_inv limit t" using token_reachable_inv by blast+
  with step show ?case
    using starved_step by (auto simp: token_reachable_def intro: rtranclp.rtrancl_into_rtrancl)
qed

section \<open>The property\<close>

text \<open>C34. However the clients and the server interleave: the tokens shown by all clients together are
  pairwise different and were all sent, the numbers sent are \<open>1, 2, ...\<close> in this order, and every
  client sees its own in the order they were sent. But there are at most \<open>limit - 4\<close>, since the
  server never closes the queue of a client: when its descriptors are used up, a client waiting
  for an answer waits forever, whatever happens.\<close>

theorem tokens_are_unique:
  assumes "token_reachable limit s"
  shows "distinct (map snd (shown s)) \<and> set (shown s) \<subseteq> set (sent s) \<and>
    map snd (sent s) = map dec_nat [1..<token_number s] \<and>
    (\<forall>p. prefix (through (client_queue_name p) (shown s)) (through (client_queue_name p) (sent s))) \<and>
    length (sent s) \<le> limit - 4 \<and>
    (\<forall>p s'. starved limit p s \<and> (token_step limit)\<^sup>*\<^sup>* s s' \<longrightarrow> client_at s' p = CWait)"
proof -
  from token_reachable_inv [OF assms] have inv: "tokens_inv limit s" by simp
  have sub: "mset (shown s) \<subseteq># mset (sent s)" using inv by (rule shown_subset_sent)
  have sent: "map snd (sent s) = map dec_nat [1..<token_number s]" using inv by (simp add: tokens_inv_def)
  have "mset (map snd (shown s)) \<subseteq># mset (map snd (sent s))"
    using image_mset_subseteq_mono [OF sub, of snd] by simp
  moreover have "distinct (map snd (sent s))" unfolding sent by (rule distinct_tokens)
  ultimately have "distinct (map snd (shown s))"
    by (metis distinct_append mset_append mset_eq_imp_distinct_iff subset_mset.le_iff_add ex_mset)
  moreover have "set (shown s) \<subseteq> set (sent s)" using set_mset_mono [OF sub] by simp
  moreover have "prefix (through (client_queue_name p) (shown s)) (through (client_queue_name p) (sent s))" for p
    using inv by (metis prefixI tokens_inv_def)
  moreover have "length (sent s) = token_number s - 1" using arg_cong [OF sent, of length] by simp
  then have "length (sent s) \<le> limit - 4" using inv by (auto simp: tokens_inv_def max_def split: if_splits)
  moreover have "client_at s' p = CWait" if "starved limit p s" "(token_step limit)\<^sup>*\<^sup>* s s'" for p s'
    using starved_forever [OF that(2) assms that(1)] by (simp add: starved_def)
  ultimately show ?thesis using sent by blast
qed

text \<open>A run with one client, for a server with five descriptors.\<close>

definition token_demo :: "string list \<Rightarrow> string list option \<Rightarrow> nat \<Rightarrow> server_pc \<Rightarrow> client_pc \<Rightarrow> bool \<Rightarrow> bool \<Rightarrow> token_state" where
  "token_demo ss cs n sv cl snt shn =
     \<lparr>queues = Map.empty(SERVER_QUEUE_NAME \<mapsto> ss, client_queue_name 7 := cs), token_number = n, next_fd = n + 3,
      server_at = sv, client_at = (\<lambda>_. CNew)(7 := cl), sent = (if snt then [(client_queue_name 7, ''1'')] else []),
      shown = (if shn then [(client_queue_name 7, ''1'')] else [])\<rparr>"

lemma token_demo_run: "token_reachable 5 (token_demo [] (Some []) 2 SReceive CWait True True)"
proof -
  let ?N = "client_queue_name 7"
  let ?d = token_demo
  have dec1: "dec_nat (Suc 0) = ''1''" by code_simp
  note defs = token_demo_def server_reply_def server_open_def MAX_MESSAGES_def dec1 Let_def fun_upd_twist
  have "token_step 5 token_start (?d [] None 1 SReceive CNew False False)"
    using server_starts [of token_start 5] by (simp add: token_start_def defs fun_upd_idem)
  moreover have "token_step 5 (?d [] None 1 SReceive CNew False False) (?d [] (Some []) 1 SReceive CAsk False False)"
    using client_starts [of "?d [] None 1 SReceive CNew False False" 7 5] by (simp add: defs)
  moreover have "token_step 5 (?d [] (Some []) n SReceive CAsk b b) (?d [?N] (Some []) n SReceive CWait b b)" for n b
    using client_asks [of "?d [] (Some []) n SReceive CAsk b b" 7 "[]" 5] by (simp add: defs)
  moreover have "token_step 5 (?d [?N] (Some []) n SReceive CWait b b) (?d [] (Some []) n (SReply ?N) CWait b b)" for n b
    using server_receives [of "?d [?N] (Some []) n SReceive CWait b b" ?N "[]" 5] by (simp add: defs)
  moreover have "token_step 5 (?d [] (Some []) 1 (SReply ?N) CWait False False) (?d [] (Some [''1'']) 2 SReceive CWait True False)"
    by (rule server_replies [where m = ?N]) (simp_all add: defs)
  moreover have "token_step 5 (?d [] (Some [''1'']) 2 SReceive CWait True False) (?d [] (Some []) 2 SReceive CAsk True True)"
    using client_shows [of "?d [] (Some [''1'']) 2 SReceive CWait True False" 7 "''1''" "[]" 5] by (simp add: defs)
  moreover have "token_step 5 (?d [] (Some []) 2 (SReply ?N) CWait True True) (?d [] (Some []) 2 SReceive CWait True True)"
    by (rule server_replies [where m = ?N]) (simp_all add: defs)
  ultimately show ?thesis unfolding token_reachable_def by (meson rtranclp.rtrancl_into_rtrancl rtranclp.rtrancl_refl)
qed

theorem tokens_are_unique_witness:
  "\<exists>s. token_reachable 5 s \<and> map snd (shown s) = [''1''] \<and> starved 5 7 s \<and> length (sent s) \<le> 1 \<and>
     {s'. (token_step 5)\<^sup>*\<^sup>* s s'} \<subseteq> {s'. client_at s' 7 = CWait}"
proof -
  let ?s = "token_demo [] (Some []) 2 SReceive CWait True True"
  have "starved 5 7 ?s" "map snd (shown ?s) = [''1'']" by (simp_all add: starved_def token_demo_def)
  with tokens_are_unique [OF token_demo_run] token_demo_run show ?thesis by (intro exI [of _ ?s]) auto
qed

end
