(* ===== verification/ChunkCopy.thy ===== *)
theory ChunkCopy
  imports FileTransfer CString
begin

text \<open>
  Copying standard input through a pipe (\<open>task1/examples/8_pipe.c\<close>) and through a named pipe
  (\<open>9_fifo_writer.c\<close> and \<open>9_fifo_reader.c\<close>). The loops are the same in both: the writing process reads a
  chunk and writes it, the reading process reads what is there and shows it. They differ in how the two
  processes are connected.
\<close>

section \<open>The loops\<close>

text \<open>\<open>sizeof(buf) - 1\<close>, the most a \<open>read\<close> delivers; the byte after it is set to NUL.\<close>

definition CHUNK_SZ :: nat where
  "CHUNK_SZ = 4096 - 1"

text \<open>
  The writing process: not yet connected, before a \<open>read\<close>, with the rest of a chunk to write, past its loop
  with all descriptors closed. The reading process: not yet connected, in its loop, past it.
\<close>

datatype writer_pc = WConnect | WRead | WWrite bytes | WEnd

datatype reader_pc = RConnect | RRead | REnd

record copy_sys =
  stdin_rest :: bytes
  pipe_bytes :: bytes
  writer :: writer_pc
  reader :: reader_pc
  sent :: "bytes list"
  received :: "bytes list"

text \<open>
  A pipe holds up to \<open>cap\<close> bytes. \<open>read\<close> delivers any part of what there is, up to the size asked for; a
  \<open>write\<close> that finds no room waits, and continues as room appears, byte by byte. The reader sees the end
  of the stream when the pipe is empty and no process holds its write end. A \<open>read\<close> of standard
  input is taken to succeed.
\<close>

inductive copy_step :: "nat \<Rightarrow> copy_sys \<Rightarrow> copy_sys \<Rightarrow> bool" for cap :: nat where
  w_read: "writer s = WRead \<Longrightarrow> c = take n (stdin_rest s) \<Longrightarrow> 0 < n \<Longrightarrow> n \<le> CHUNK_SZ \<Longrightarrow> c \<noteq> [] \<Longrightarrow>
     copy_step cap s (s\<lparr>stdin_rest := drop n (stdin_rest s), writer := WWrite c, sent := sent s @ [c]\<rparr>)"
| w_eof: "writer s = WRead \<Longrightarrow> stdin_rest s = [] \<Longrightarrow> copy_step cap s (s\<lparr>writer := WEnd\<rparr>)"
| w_write: "writer s = WWrite (b # bs) \<Longrightarrow> length (pipe_bytes s) < cap \<Longrightarrow>
     copy_step cap s (s\<lparr>pipe_bytes := pipe_bytes s @ [b], writer := WWrite bs\<rparr>)"
| w_written: "writer s = WWrite [] \<Longrightarrow> copy_step cap s (s\<lparr>writer := WRead\<rparr>)"
| r_read: "reader s = RRead \<Longrightarrow> c = take n (pipe_bytes s) \<Longrightarrow> 0 < n \<Longrightarrow> n \<le> CHUNK_SZ \<Longrightarrow> c \<noteq> [] \<Longrightarrow>
     copy_step cap s (s\<lparr>pipe_bytes := drop n (pipe_bytes s), received := received s @ [c]\<rparr>)"
| r_eof: "reader s = RRead \<Longrightarrow> pipe_bytes s = [] \<Longrightarrow> writer s = WEnd \<Longrightarrow> copy_step cap s (s\<lparr>reader := REnd\<rparr>)"

text \<open>
  What is printed for a chunk: \<open>buf[size] = 0\<close> and \<open>%s\<close>, so the bytes up to the first NUL of the chunk.
\<close>

definition shown_text :: "bytes \<Rightarrow> bytes \<Rightarrow> bytes list \<Rightarrow> bytes" where
  "shown_text before after cs = concat (map (\<lambda>c. before @ takeWhile (\<lambda>b. b \<noteq> 0) c @ after) cs)"

section \<open>The two ways to connect\<close>

text \<open>
  \<open>8_pipe.c\<close> after \<open>pipe\<close> and \<open>fork\<close>: parent and child hold both ends, and each first closes the one it does
  not use. While the child has not closed its copy of the write end it does not read yet.
\<close>

inductive pipe_step :: "nat \<Rightarrow> copy_sys \<Rightarrow> copy_sys \<Rightarrow> bool" for cap :: nat where
  parent_closes: "writer s = WConnect \<Longrightarrow> pipe_step cap s (s\<lparr>writer := WRead\<rparr>)"
| child_closes: "reader s = RConnect \<Longrightarrow> pipe_step cap s (s\<lparr>reader := RRead\<rparr>)"
| pipe_copies: "copy_step cap s t \<Longrightarrow> pipe_step cap s t"

text \<open>
  \<open>9_fifo_reader.c\<close> and \<open>9_fifo_writer.c\<close>: \<open>mknod\<close> by whoever comes first, and an \<open>open\<close> that waits for the
  other side, so both return together.
\<close>

inductive named_step :: "nat \<Rightarrow> copy_sys \<Rightarrow> copy_sys \<Rightarrow> bool" for cap :: nat where
  both_open: "writer s = WConnect \<Longrightarrow> reader s = RConnect \<Longrightarrow>
     named_step cap s (s\<lparr>writer := WRead, reader := RRead\<rparr>)"
| named_copies: "copy_step cap s t \<Longrightarrow> named_step cap s t"

definition copy_start :: "bytes \<Rightarrow> copy_sys \<Rightarrow> bool" where
  "copy_start f s \<longleftrightarrow> s = \<lparr>stdin_rest = f, pipe_bytes = [], writer = WConnect, reader = RConnect, sent = [], received = []\<rparr>"

text \<open>\<open>main\<close> of \<open>8_pipe.c\<close> up to the two loops.\<close>

definition pipe_main :: "bool \<Rightarrow> int \<Rightarrow> bytes \<Rightarrow> c_error + copy_sys" where
  "pipe_main pipe_ok pid f =
     (if \<not> pipe_ok then Inl (Exit (-1))
      else if pid < 0 then Inl (Exit (-1))
      else Inr \<lparr>stdin_rest = f, pipe_bytes = [], writer = WConnect, reader = RConnect, sent = [], received = []\<rparr>)"

lemma pipe_main_starts: "pipe_main pipe_ok pid f = Inr s \<longleftrightarrow> pipe_ok \<and> 0 \<le> pid \<and> copy_start f s"
  by (auto simp: pipe_main_def copy_start_def)

section \<open>The transfer\<close>

definition unsent :: "writer_pc \<Rightarrow> bytes" where
  "unsent p = (case p of WWrite c \<Rightarrow> c | _ \<Rightarrow> [])"

definition copy_pending :: "copy_sys \<Rightarrow> bytes" where
  "copy_pending s = pipe_bytes s @ unsent (writer s) @ stdin_rest s"

definition copied :: "copy_sys \<Rightarrow> bytes" where
  "copied s = concat (received s)"

text \<open>
  Chunks are not empty and fit the buffers with the NUL after them; nothing is left when a process has
  ended; the pipe is never overfull.
\<close>

definition copy_good :: "nat \<Rightarrow> copy_sys \<Rightarrow> bool" where
  "copy_good cap s \<longleftrightarrow>
     (\<forall>c \<in> set (sent s) \<union> set (received s). 0 < length c \<and> length c \<le> CHUNK_SZ) \<and>
     length (pipe_bytes s) \<le> cap \<and>
     (writer s = WEnd \<longrightarrow> stdin_rest s = []) \<and> (reader s = REnd \<longrightarrow> writer s = WEnd \<and> pipe_bytes s = [])"

definition writer_work :: "writer_pc \<Rightarrow> nat" where
  "writer_work p = (case p of WConnect \<Rightarrow> 3 | WRead \<Rightarrow> 2 | WWrite c \<Rightarrow> 3 + 2 * length c | WEnd \<Rightarrow> 0)"

definition reader_work :: "reader_pc \<Rightarrow> nat" where
  "reader_work p = (case p of RConnect \<Rightarrow> 2 | RRead \<Rightarrow> 1 | REnd \<Rightarrow> 0)"

definition copy_work :: "copy_sys \<Rightarrow> nat" where
  "copy_work s = 4 * length (stdin_rest s) + length (pipe_bytes s) + writer_work (writer s) + reader_work (reader s)"

definition copy_invariant :: "nat \<Rightarrow> copy_sys \<Rightarrow> copy_sys \<Rightarrow> bool" where
  "copy_invariant cap s t \<longleftrightarrow>
     copy_good cap t \<and> copied t @ copy_pending t = copied s @ copy_pending s \<and>
     concat (sent t) @ stdin_rest t = concat (sent s) @ stdin_rest s \<and> copy_work t < copy_work s"

lemma copy_step_invariant: "copy_step cap s t \<Longrightarrow> copy_good cap s \<Longrightarrow> copy_invariant cap s t"
proof (induction rule: copy_step.induct)
  case (w_read s c n)
  then have "stdin_rest s = c @ drop n (stdin_rest s)" and "length c + length (drop n (stdin_rest s)) = length (stdin_rest s)"
    by simp_all
  moreover from w_read.hyps have "0 < length c" "length c \<le> CHUNK_SZ" by auto
  moreover from calculation have "1 + 2 * length c + 4 * length (drop n (stdin_rest s)) < 4 * length (stdin_rest s)" by linarith
  ultimately show ?case using w_read
    by (simp add: copy_invariant_def copy_good_def copied_def copy_pending_def unsent_def copy_work_def writer_work_def)
next
  case (r_read s c n)
  then have "pipe_bytes s = c @ drop n (pipe_bytes s)" and "length c + length (drop n (pipe_bytes s)) = length (pipe_bytes s)"
    by simp_all
  moreover from r_read.hyps have "0 < length c" "length c \<le> CHUNK_SZ" by auto
  ultimately show ?case using r_read
    by (simp add: copy_invariant_def copy_good_def copied_def copy_pending_def unsent_def copy_work_def writer_work_def)
qed (auto simp: copy_invariant_def copy_good_def copied_def copy_pending_def unsent_def copy_work_def writer_work_def
    reader_work_def)

lemma pipe_step_invariant: "pipe_step cap s t \<Longrightarrow> copy_good cap s \<Longrightarrow> copy_invariant cap s t"
proof (induction rule: pipe_step.induct)
  case (pipe_copies s t)
  then show ?case by (rule copy_step_invariant)
qed (simp_all add: copy_invariant_def copy_good_def copied_def copy_pending_def unsent_def copy_work_def writer_work_def
    reader_work_def)

lemma named_step_invariant: "named_step cap s t \<Longrightarrow> copy_good cap s \<Longrightarrow> copy_invariant cap s t"
proof (induction rule: named_step.induct)
  case (named_copies s t)
  then show ?case by (rule copy_step_invariant)
qed (simp_all add: copy_invariant_def copy_good_def copied_def copy_pending_def unsent_def copy_work_def writer_work_def
    reader_work_def)

lemma copy_start_good: "copy_start f s \<Longrightarrow> copy_good cap s"
  by (simp add: copy_start_def copy_good_def)

lemma copy_start_content: "copy_start f s \<Longrightarrow> copied s @ copy_pending s = f"
  by (simp add: copy_start_def copied_def copy_pending_def unsent_def)

interpretation pipe_copy: finite_transfer "pipe_step cap" copy_start copied copy_pending "copy_good cap" copy_work
  by unfold_locales
    (auto simp: copy_start_good copy_start_content dest: pipe_step_invariant simp: copy_invariant_def)

interpretation named_copy: finite_transfer "named_step cap" copy_start copied copy_pending "copy_good cap" copy_work
  by unfold_locales
    (auto simp: copy_start_good copy_start_content dest: named_step_invariant simp: copy_invariant_def)

text \<open>The chunks the writing process announces are its input, too.\<close>

interpretation pipe_announce: transfer "pipe_step cap" copy_start "\<lambda>s. concat (sent s)" stdin_rest "copy_good cap"
  by unfold_locales
    (auto simp: copy_start_good copy_start_def dest: pipe_step_invariant simp: copy_invariant_def)

interpretation named_announce: transfer "named_step cap" copy_start "\<lambda>s. concat (sent s)" stdin_rest "copy_good cap"
  by unfold_locales
    (auto simp: copy_start_good copy_start_def dest: named_step_invariant simp: copy_invariant_def)

section \<open>No deadlock\<close>

lemma copy_progress:
  assumes "0 < cap" and "copy_good cap s" and "writer s \<noteq> WConnect" and "reader s = RRead"
  shows "\<exists>t. copy_step cap s t"
proof (cases "pipe_bytes s = []")
  case False
  then have "take 1 (pipe_bytes s) \<noteq> []" by simp
  with r_read [OF assms(4) refl _ _ this, of cap] show ?thesis by (auto simp: CHUNK_SZ_def)
next
  case True
  show ?thesis
  proof (cases "writer s")
    case WRead
    then show ?thesis
    proof (cases "stdin_rest s = []")
      case True
      with WRead show ?thesis by (blast intro: w_eof)
    next
      case False
      then have "take 1 (stdin_rest s) \<noteq> []" by simp
      with w_read [OF WRead refl _ _ this, of cap] show ?thesis by (auto simp: CHUNK_SZ_def)
    qed
  next
    case (WWrite c)
    with True assms(1) w_write [of s "hd c" "tl c" cap] show ?thesis by (cases c) (auto intro: w_written)
  next
    case WEnd
    with True assms(4) show ?thesis by (blast intro: r_eof)
  qed (use assms(3) in simp)
qed

lemma pipe_progress:
  assumes "0 < cap" and "copy_good cap s" and "reader s \<noteq> REnd"
  shows "\<exists>t. pipe_step cap s t"
proof (cases "writer s = WConnect \<or> reader s = RConnect")
  case True
  then show ?thesis by (blast intro: parent_closes child_closes)
next
  case False
  then have "reader s = RRead" using assms(3) by (cases "reader s") auto
  with False copy_progress [OF assms(1,2)] show ?thesis by (blast intro: pipe_copies)
qed

text \<open>With a named pipe the two are connected together or not at all.\<close>

lemma named_connected:
  assumes "copy_start f s" and "(named_step cap)\<^sup>*\<^sup>* s t"
  shows "writer t = WConnect \<longleftrightarrow> reader t = RConnect"
  using assms(2)
proof (induction rule: rtranclp_induct)
  case base
  then show ?case using assms(1) by (simp add: copy_start_def)
next
  case (step t u)
  from step.hyps(2) show ?case
    by cases (use step.IH in \<open>auto elim!: copy_step.cases\<close>)
qed

lemma named_progress:
  assumes "0 < cap" and "copy_good cap s" and "writer s = WConnect \<longleftrightarrow> reader s = RConnect" and "reader s \<noteq> REnd"
  shows "\<exists>t. named_step cap s t"
proof (cases "writer s = WConnect")
  case True
  with assms(3) show ?thesis by (blast intro: both_open)
next
  case False
  with assms(3,4) have "reader s = RRead" by (cases "reader s") auto
  with False copy_progress [OF assms(1,2)] show ?thesis by (blast intro: named_copies)
qed

section \<open>What is copied and what is shown\<close>

lemma shown_text_whole:
  "0 \<notin> set (concat cs) \<Longrightarrow> shown_text before after cs = concat (map (\<lambda>c. before @ c @ after) cs)"
proof (induction cs)
  case (Cons c cs)
  then have "takeWhile (\<lambda>b. b \<noteq> 0) c = c" by (auto simp: takeWhile_eq_all_conv)
  with Cons show ?case by (simp add: shown_text_def)
qed (simp add: shown_text_def)

text \<open>
  A run of the two processes is finite, and where it can go no further both have ended; the chunks the
  reading process received, and those the writing process announced, are the input in order. Shown are
  they whole if the input has no NUL; with the reading process of \<open>9_fifo_reader.c\<close>, which puts \<open>Send: \<close>
  before each, nothing comes between them but that.
\<close>

definition copy_complete :: "bytes \<Rightarrow> copy_sys \<Rightarrow> bool" where
  "copy_complete f t \<longleftrightarrow> writer t = WEnd \<and> reader t = REnd \<and> concat (received t) = f \<and> concat (sent t) = f \<and>
     (\<forall>c \<in> set (sent t) \<union> set (received t). 0 < length c \<and> length c \<le> CHUNK_SZ) \<and>
     (0 \<notin> set f \<longrightarrow> (\<forall>before after. shown_text before after (received t) = concat (map (\<lambda>c. before @ c @ after) (received t))))"

lemma copy_ended:
  assumes "copy_good cap t" and "reader t = REnd" and "copied t @ copy_pending t = f" and "concat (sent t) @ stdin_rest t = f"
  shows "copy_complete f t"
proof -
  have "writer t = WEnd" and "stdin_rest t = []" and "pipe_bytes t = []" using assms(1,2) by (simp_all add: copy_good_def)
  with assms show ?thesis
    using shown_text_whole [of "received t"]
    by (simp add: copy_complete_def copied_def copy_pending_def unsent_def copy_good_def)
qed

text \<open>C13. Whatever parts \<open>read\<close> delivers and however the two processes interleave, the parent and the child of
  \<open>8_pipe.c\<close> make at most \<open>4 * length + 5\<close> steps, and where they can go no further both have ended and the
  chunks the child received, each within its buffer, are the standard input of the parent.\<close>

theorem pipe_copy_complete:
  assumes "copy_start f s" and "0 < cap" and "(pipe_step cap ^^ n) s t"
  shows "n \<le> 4 * length f + 5 \<and> ((\<forall>u. \<not> pipe_step cap t u) \<longrightarrow> copy_complete f t)"
proof -
  have good: "copy_good cap s" using assms(1) by (rule copy_start_good)
  have work: "copy_work s = 4 * length f + 5" using assms(1) by (simp add: copy_start_def copy_work_def writer_work_def reader_work_def)
  have run: "(pipe_step cap)\<^sup>*\<^sup>* s t" using assms(3) by (rule relpowp_imp_rtranclp)
  from pipe_copy.run_bounded [OF assms(3) good] work have n: "n \<le> 4 * length f + 5" and t: "copy_good cap t" by simp_all
  have "copy_complete f t" if "\<forall>u. \<not> pipe_step cap t u"
    using pipe_progress [OF assms(2) t] that
      copy_ended [OF t _ pipe_copy.reach_content [OF assms(1) run] pipe_announce.reach_content [OF assms(1) run]] by blast
  with n show ?thesis by blast
qed

theorem named_copy_complete:
  assumes "copy_start f s" and "0 < cap" and "(named_step cap ^^ n) s t"
  shows "n \<le> 4 * length f + 5 \<and> ((\<forall>u. \<not> named_step cap t u) \<longrightarrow> copy_complete f t)"
proof -
  have good: "copy_good cap s" using assms(1) by (rule copy_start_good)
  have work: "copy_work s = 4 * length f + 5" using assms(1) by (simp add: copy_start_def copy_work_def writer_work_def reader_work_def)
  have run: "(named_step cap)\<^sup>*\<^sup>* s t" using assms(3) by (rule relpowp_imp_rtranclp)
  from named_copy.run_bounded [OF assms(3) good] work have n: "n \<le> 4 * length f + 5" and t: "copy_good cap t" by simp_all
  have "copy_complete f t" if "\<forall>u. \<not> named_step cap t u"
    using named_progress [OF assms(2) t named_connected [OF assms(1) run]] that
      copy_ended [OF t _ named_copy.reach_content [OF assms(1) run] named_announce.reach_content [OF assms(1) run]] by blast
  with n show ?thesis by blast
qed

definition copy_demo :: copy_sys where
  "copy_demo = \<lparr>stdin_rest = [7, 0, 9], pipe_bytes = [], writer = WConnect, reader = RConnect, sent = [], received = []\<rparr>"

lemma copy_demo_start: "copy_start [7, 0, 9] copy_demo"
  by (simp add: copy_start_def copy_demo_def)

theorem pipe_copy_complete_witness:
  "\<exists>n t. (pipe_step 2 ^^ n) copy_demo t \<and> n \<le> 17 \<and> concat (received t) = [7, 0, 9]"
proof -
  obtain n t where "(pipe_step 2 ^^ n) copy_demo t" and "\<forall>u. \<not> pipe_step 2 t u"
    using pipe_copy.run_ends_counted [OF copy_start_good [OF copy_demo_start]] by blast
  with pipe_copy_complete [OF copy_demo_start, of 2 n t] show ?thesis by (auto simp: copy_complete_def)
qed

end
