(* ===== verification/Children.thy ===== *)
theory Children
  imports FileTransfer
begin

text \<open>
  Waiting for children: \<open>task1/examples/3_reap_zombies.c\<close>, \<open>task6/examples/8_prctl_set_subreaper.c\<close>,
  \<open>task1/examples/2_fork_wait_exit.c\<close> and \<open>4_exec_dir.c\<close>. A child that has ended stays a zombie until its parent waits for it.
\<close>

datatype child_state = NotForked | Running | Zombie | Reaped

section \<open>Ten children\<close>

text \<open>
  \<open>3_reap_zombies.c\<close>: the parent forks for \<open>i = 9, ..., 0\<close> and then waits in the same order. \<open>Forking k\<close> and
  \<open>Reaping k\<close> mean that \<open>k\<close> rounds are left, the next one with \<open>i = k - 1\<close>. A failing \<open>fork\<close> leaves -1 in
  \<open>pids[i]\<close>, and \<open>waitpid(-1, ...)\<close> waits for any child.
\<close>

datatype reap_pc = Forking nat | Reaping nat | Finished

record reap_sys =
  reap_at :: reap_pc
  pids :: "nat \<Rightarrow> bool"
  kids :: "nat \<Rightarrow> child_state"

text \<open>
  \<open>waitpid\<close> on a child already waited for, or on any child when none is left, fails with \<open>ECHILD\<close> at once;
  the result is not looked at.
\<close>

inductive reap_step :: "reap_sys \<Rightarrow> reap_sys \<Rightarrow> bool" where
  fork_child: "reap_at s = Forking (Suc i) \<Longrightarrow>
     reap_step s (s\<lparr>pids := (pids s)(i := True), kids := (kids s)(i := Running), reap_at := Forking i\<rparr>)"
| fork_fails: "reap_at s = Forking (Suc i) \<Longrightarrow> reap_step s (s\<lparr>pids := (pids s)(i := False), reap_at := Forking i\<rparr>)"
| forked_all: "reap_at s = Forking 0 \<Longrightarrow> reap_step s (s\<lparr>reap_at := Reaping 10\<rparr>)"
| child_ends: "kids s i = Running \<Longrightarrow> reap_step s (s\<lparr>kids := (kids s)(i := Zombie)\<rparr>)"
| wait_child: "reap_at s = Reaping (Suc i) \<Longrightarrow> pids s i \<Longrightarrow> kids s i = Zombie \<Longrightarrow>
     reap_step s (s\<lparr>kids := (kids s)(i := Reaped), reap_at := Reaping i\<rparr>)"
| wait_child_gone: "reap_at s = Reaping (Suc i) \<Longrightarrow> pids s i \<Longrightarrow> kids s i = Reaped \<Longrightarrow>
     reap_step s (s\<lparr>reap_at := Reaping i\<rparr>)"
| wait_any: "reap_at s = Reaping (Suc i) \<Longrightarrow> \<not> pids s i \<Longrightarrow> kids s j = Zombie \<Longrightarrow>
     reap_step s (s\<lparr>kids := (kids s)(j := Reaped), reap_at := Reaping i\<rparr>)"
| wait_any_none: "reap_at s = Reaping (Suc i) \<Longrightarrow> \<not> pids s i \<Longrightarrow> (\<forall>j < 10. kids s j = NotForked \<or> kids s j = Reaped) \<Longrightarrow>
     reap_step s (s\<lparr>reap_at := Reaping i\<rparr>)"
| reaped_all: "reap_at s = Reaping 0 \<Longrightarrow> reap_step s (s\<lparr>reap_at := Finished\<rparr>)"

definition reap_start :: "reap_sys \<Rightarrow> bool" where
  "reap_start s \<longleftrightarrow> reap_at s = Forking 10 \<and> kids s = (\<lambda>_. NotForked)"

text \<open>
  A child exists exactly if its fork succeeded; the children of the rounds behind the parent's second
  loop have been waited for.
\<close>

definition forked_from :: "reap_pc \<Rightarrow> nat" where
  "forked_from p = (case p of Forking k \<Rightarrow> k | _ \<Rightarrow> 0)"

definition reaped_from :: "reap_pc \<Rightarrow> nat" where
  "reaped_from p = (case p of Forking k \<Rightarrow> 10 | Reaping k \<Rightarrow> k | Finished \<Rightarrow> 0)"

definition reap_inv :: "reap_sys \<Rightarrow> bool" where
  "reap_inv s \<longleftrightarrow> forked_from (reap_at s) \<le> 10 \<and> reaped_from (reap_at s) \<le> 10 \<and>
     (\<forall>i. kids s i \<noteq> NotForked \<longleftrightarrow> \<not> i < forked_from (reap_at s) \<and> i < 10 \<and> pids s i) \<and>
     (\<forall>i. \<not> i < reaped_from (reap_at s) \<and> i < 10 \<and> pids s i \<longrightarrow> kids s i = Reaped) \<and>
     ((\<exists>k. reap_at s = Forking k) \<longrightarrow> (\<forall>i. kids s i \<noteq> Reaped))"

lemma reap_start_inv: "reap_start s \<Longrightarrow> reap_inv s"
  by (simp add: reap_start_def reap_inv_def forked_from_def reaped_from_def)

lemmas reap_inv_defs = reap_inv_def forked_from_def reaped_from_def less_Suc_eq

lemma reap_step_inv:
  assumes "reap_step s t" and "reap_inv s"
  shows "reap_inv t"
  using assms(1)
proof cases
  case (fork_child i)
  with assms(2) show ?thesis by (simp add: reap_inv_defs; metis)
next
  case (fork_fails i)
  with assms(2) show ?thesis by (simp add: reap_inv_defs; metis)
next
  case forked_all
  with assms(2) show ?thesis by (simp add: reap_inv_defs)
next
  case (child_ends i)
  then have "kids s i \<noteq> NotForked" "kids s i \<noteq> Reaped" by simp_all
  with assms(2) child_ends show ?thesis unfolding reap_inv_def by (cases "reap_at s") auto
next
  case (wait_child i)
  with assms(2) show ?thesis by (simp add: reap_inv_defs; metis)
next
  case (wait_child_gone i)
  with assms(2) show ?thesis by (simp add: reap_inv_defs; metis)
next
  case (wait_any i j)
  have kids: "kids s m \<noteq> NotForked \<longleftrightarrow> m < 10 \<and> pids s m" for m
    using assms(2) wait_any by (simp add: reap_inv_defs)
  have reaped: "m < 10 \<Longrightarrow> pids s m \<Longrightarrow> \<not> m < i \<Longrightarrow> kids s m = Reaped" for m
    using assms(2) wait_any by (cases "m = i") (simp_all add: reap_inv_defs)
  have "i \<le> 10" using assms(2) wait_any by (simp add: reap_inv_defs)
  with wait_any kids [of j] reaped show ?thesis by (auto simp: reap_inv_def forked_from_def reaped_from_def kids)
next
  case (wait_any_none i)
  with assms(2) show ?thesis by (simp add: reap_inv_defs; metis)
next
  case reaped_all
  with assms(2) show ?thesis by (simp add: reap_inv_defs)
qed

definition reap_pc_work :: "reap_pc \<Rightarrow> nat" where
  "reap_pc_work p = (case p of Forking k \<Rightarrow> 2 * k + 12 | Reaping k \<Rightarrow> k + 1 | Finished \<Rightarrow> 0)"

definition reap_work :: "reap_sys \<Rightarrow> nat" where
  "reap_work s = reap_pc_work (reap_at s) + card {i. kids s i = Running}"


lemma running_bounded: "reap_inv s \<Longrightarrow> {i. kids s i = Running} \<subseteq> {..<10}"
  by (auto simp: reap_inv_def)

lemma running_finite: "reap_inv s \<Longrightarrow> finite {i. kids s i = Running}"
  using running_bounded finite_subset by blast

lemma reap_step_work:
  assumes "reap_inv s" and "reap_step s t"
  shows "reap_work t < reap_work s"
  using assms(2)
proof cases
  case (fork_child i)
  then have "{j. kids t j = Running} = insert i {j. kids s j = Running}" by auto
  then have "card {j. kids t j = Running} \<le> Suc (card {j. kids s j = Running})"
    by (simp add: card_insert_le_m1 card_insert_if running_finite [OF assms(1)])
  with fork_child show ?thesis by (simp add: reap_work_def reap_pc_work_def)
next
  case (child_ends i)
  then have "{j. kids t j = Running} \<subset> {j. kids s j = Running}" by auto
  from psubset_card_mono [OF running_finite [OF assms(1)] this] child_ends show ?thesis
    by (simp add: reap_work_def)
next
  case (wait_child i)
  then have "{j. kids t j = Running} = {j. kids s j = Running}" by auto
  with wait_child show ?thesis by (simp add: reap_work_def reap_pc_work_def)
next
  case (wait_any i j)
  then have "{j. kids t j = Running} = {j. kids s j = Running}" by auto
  with wait_any show ?thesis by (simp add: reap_work_def reap_pc_work_def)
qed (simp_all add: reap_work_def reap_pc_work_def)

interpretation reaping: bounded_run reap_step reap_inv reap_work
  by unfold_locales (blast intro: reap_step_inv, blast intro: reap_step_work)

text \<open>As long as the parent has not finished it can go on, or a child is still to end.\<close>

lemma reap_progress:
  assumes "reap_inv s" and "reap_at s \<noteq> Finished \<or> (\<exists>i. kids s i = Running)"
  shows "\<exists>t. reap_step s t"
proof (cases "\<exists>i. kids s i = Running")
  case True
  then show ?thesis by (blast intro: child_ends)
next
  case False
  show ?thesis
  proof (cases "reap_at s")
    case (Forking k)
    then show ?thesis by (cases k) (auto intro: fork_child forked_all)
  next
    case (Reaping k)
    show ?thesis
    proof (cases k)
      case 0
      with Reaping show ?thesis by (blast intro: reaped_all)
    next
      case (Suc i)
      show ?thesis
      proof (cases "pids s i")
        case True
        have "i < 10" using assms(1) Reaping Suc by (simp add: reap_inv_def reaped_from_def)
        with True assms(1) Reaping have "kids s i \<noteq> NotForked" by (simp add: reap_inv_def forked_from_def)
        then have "kids s i = Zombie \<or> kids s i = Reaped" using False by (cases "kids s i") auto
        with Reaping Suc True show ?thesis by (blast intro: wait_child wait_child_gone)
      next
        case no: False
        show ?thesis
        proof (cases "\<exists>j. kids s j = Zombie")
          case True
          with Reaping Suc no show ?thesis by (blast intro: wait_any)
        next
          case z: False
          have "kids s j = NotForked \<or> kids s j = Reaped" for j using False z by (cases "kids s j") auto
          with Reaping Suc no show ?thesis by (blast intro: wait_any_none)
        qed
      qed
    qed
  next
    case Finished
    with assms(2) False show ?thesis by simp
  qed
qed

text \<open>
  Whatever forks fail and in whatever order the children end, the program makes at most 32 steps, and
  where it can go no further it has finished and every child it started has been waited for.
\<close>

theorem reap_leaves_no_zombie:
  assumes "reap_start s" and "(reap_step ^^ n) s t"
  shows "n \<le> 32 \<and> ((\<forall>u. \<not> reap_step t u) \<longrightarrow>
    reap_at t = Finished \<and> (\<forall>i < 10. kids t i = (if pids t i then Reaped else NotForked)))"
proof -
  have "reap_work s = 32" using assms(1) by (simp add: reap_start_def reap_work_def reap_pc_work_def)
  with reaping.run_bounded [OF assms(2) reap_start_inv [OF assms(1)]] have n: "n \<le> 32" and t: "reap_inv t" by simp_all
  have "reap_at t = Finished \<and> (\<forall>i < 10. kids t i = (if pids t i then Reaped else NotForked))" if "\<forall>u. \<not> reap_step t u"
  proof -
    from that reap_progress [OF t] have "reap_at t = Finished" by blast
    with t show ?thesis by (auto simp: reap_inv_def reaped_from_def forked_from_def)
  qed
  with n show ?thesis by blast
qed

definition reap_demo :: reap_sys where
  "reap_demo = \<lparr>reap_at = Forking 10, pids = (\<lambda>_. False), kids = (\<lambda>_. NotForked)\<rparr>"

theorem reap_leaves_no_zombie_witness:
  "\<exists>n t. (reap_step ^^ n) reap_demo t \<and> n \<le> 32 \<and> reap_at t = Finished"
proof -
  have s: "reap_start reap_demo" by (simp add: reap_start_def reap_demo_def)
  obtain n t where "(reap_step ^^ n) reap_demo t" and "\<forall>u. \<not> reap_step t u"
    using reaping.run_ends_counted [OF reap_start_inv [OF s]] by blast
  with reap_leaves_no_zombie [OF s, of n t] show ?thesis by auto
qed

section \<open>A child subreaper\<close>

text \<open>
  \<open>8_prctl_set_subreaper.c\<close>: a parent that asks to be the subreaper of its descendants, a child that ends
  at once and a grandchild that ends later. \<open>is_reaper\<close> tells whether \<open>prctl\<close> succeeded. The parent's second
  call of \<open>wait\<close> is for the grandchild, which the kernel hands over when the child ends: to the subreaper,
  else to \<open>init\<close>, which waits for every process it is given.
\<close>

datatype guardian = OfChild | OfParent | OfInit

datatype sub_pc = SubFork | SubWait nat | SubEnd

record sub_sys =
  is_reaper :: bool
  sub_at :: sub_pc
  child :: child_state
  child_forked :: bool
  grandchild :: child_state
  guardian_of :: guardian

text \<open>
  A failing \<open>fork\<close> returns -1, which is not 0: the parent waits all the same, and the child goes on to end.
  \<open>wait\<close> blocks while there is a child to wait for and none has ended; without children it returns at once.
  The pointer it is given is never set; what it stores there is not used.
\<close>

inductive sub_step :: "sub_sys \<Rightarrow> sub_sys \<Rightarrow> bool" where
  sub_fork: "sub_at s = SubFork \<Longrightarrow> sub_step s (s\<lparr>child := Running, sub_at := SubWait 0\<rparr>)"
| sub_fork_fails: "sub_at s = SubFork \<Longrightarrow> sub_step s (s\<lparr>sub_at := SubWait 0\<rparr>)"
| sub_child_fork: "child s = Running \<Longrightarrow> \<not> child_forked s \<Longrightarrow>
     sub_step s (s\<lparr>grandchild := Running, guardian_of := OfChild, child_forked := True\<rparr>)"
| sub_child_fork_fails: "child s = Running \<Longrightarrow> \<not> child_forked s \<Longrightarrow> sub_step s (s\<lparr>child_forked := True\<rparr>)"
| sub_child_exit: "child s = Running \<Longrightarrow> child_forked s \<Longrightarrow>
     sub_step s (s\<lparr>child := Zombie, guardian_of := (if is_reaper s then OfParent else OfInit)\<rparr>)"
| sub_grandchild_exit: "grandchild s = Running \<Longrightarrow> sub_step s (s\<lparr>grandchild := Zombie\<rparr>)"
| sub_wait_child: "sub_at s = SubWait i \<Longrightarrow> i < 2 \<Longrightarrow> child s = Zombie \<Longrightarrow>
     sub_step s (s\<lparr>child := Reaped, sub_at := SubWait (i + 1)\<rparr>)"
| sub_wait_grandchild: "sub_at s = SubWait i \<Longrightarrow> i < 2 \<Longrightarrow> grandchild s = Zombie \<Longrightarrow> guardian_of s = OfParent \<Longrightarrow>
     sub_step s (s\<lparr>grandchild := Reaped, sub_at := SubWait (i + 1)\<rparr>)"
| sub_wait_none: "sub_at s = SubWait i \<Longrightarrow> i < 2 \<Longrightarrow> child s \<in> {NotForked, Reaped} \<Longrightarrow>
     grandchild s \<in> {NotForked, Reaped} \<or> guardian_of s \<noteq> OfParent \<Longrightarrow>
     sub_step s (s\<lparr>sub_at := SubWait (i + 1)\<rparr>)"
| sub_end: "sub_at s = SubWait 2 \<Longrightarrow> sub_step s (s\<lparr>sub_at := SubEnd\<rparr>)"
| init_waits: "grandchild s = Zombie \<Longrightarrow> guardian_of s = OfInit \<Longrightarrow> sub_step s (s\<lparr>grandchild := Reaped\<rparr>)"

definition sub_start :: "bool \<Rightarrow> sub_sys \<Rightarrow> bool" where
  "sub_start ok s \<longleftrightarrow> s = \<lparr>is_reaper = ok, sub_at = SubFork, child = NotForked, child_forked = False,
     grandchild = NotForked, guardian_of = OfChild\<rparr>"

text \<open>The processes the parent still has to wait for, the grandchild not yet forked included.\<close>

definition to_wait_for :: "sub_sys \<Rightarrow> nat" where
  "to_wait_for s = (if child s \<in> {Running, Zombie} then 1 else 0) +
     (if is_reaper s \<and> (grandchild s \<in> {Running, Zombie} \<or> child s = Running \<and> \<not> child_forked s) then 1 else 0)"

definition sub_inv :: "bool \<Rightarrow> sub_sys \<Rightarrow> bool" where
  "sub_inv ok s \<longleftrightarrow> is_reaper s = ok \<and>
     (sub_at s = SubFork \<longrightarrow> child s = NotForked) \<and>
     (\<forall>i. sub_at s = SubWait i \<longrightarrow> i + to_wait_for s \<le> 2) \<and> (sub_at s = SubEnd \<longrightarrow> to_wait_for s = 0) \<and>
     (child s = NotForked \<or> \<not> child_forked s \<longrightarrow> grandchild s = NotForked) \<and>
     (child s = NotForked \<longrightarrow> \<not> child_forked s \<and> guardian_of s = OfChild) \<and>
     (child s \<in> {Zombie, Reaped} \<longrightarrow> child_forked s \<and> guardian_of s = (if ok then OfParent else OfInit)) \<and>
     (child s = Running \<longrightarrow> guardian_of s = OfChild \<and> grandchild s \<noteq> Reaped)"

lemma sub_start_inv: "sub_start ok s \<Longrightarrow> sub_inv ok s"
  by (simp add: sub_start_def sub_inv_def)

lemma sub_step_inv:
  assumes "sub_step s t" and "sub_inv ok s"
  shows "sub_inv ok t"
  using assms(1)
proof cases
  case sub_fork
  with assms(2) show ?thesis by (simp add: sub_inv_def to_wait_for_def)
next
  case sub_fork_fails
  with assms(2) show ?thesis by (simp add: sub_inv_def to_wait_for_def)
next
  case sub_child_fork
  with assms(2) show ?thesis by (simp add: sub_inv_def to_wait_for_def split: if_splits)
next
  case sub_child_fork_fails
  with assms(2) show ?thesis by (auto simp: sub_inv_def to_wait_for_def split: if_splits)
next
  case sub_child_exit
  with assms(2) show ?thesis by (auto simp: sub_inv_def to_wait_for_def split: if_splits)
next
  case sub_grandchild_exit
  with assms(2) show ?thesis by (auto simp: sub_inv_def to_wait_for_def split: if_splits)
next
  case (sub_wait_child i)
  with assms(2) show ?thesis by (auto simp: sub_inv_def to_wait_for_def split: if_splits)
next
  case (sub_wait_grandchild i)
  with assms(2) show ?thesis by (auto simp: sub_inv_def to_wait_for_def split: if_splits)
next
  case (sub_wait_none i)
  with assms(2) show ?thesis by (auto simp: sub_inv_def to_wait_for_def split: if_splits)
next
  case sub_end
  with assms(2) show ?thesis by (auto simp: sub_inv_def to_wait_for_def split: if_splits)
next
  case init_waits
  with assms(2) show ?thesis by (auto simp: sub_inv_def to_wait_for_def split: if_splits)
qed

definition child_left :: "child_state \<Rightarrow> nat" where
  "child_left c = (case c of Running \<Rightarrow> 2 | Zombie \<Rightarrow> 1 | _ \<Rightarrow> 0)"

definition sub_work :: "sub_sys \<Rightarrow> nat" where
  "sub_work s = (case sub_at s of SubFork \<Rightarrow> 9 | SubWait i \<Rightarrow> 3 - i | SubEnd \<Rightarrow> 0) +
     child_left (child s) + (if child s = Running \<and> \<not> child_forked s then 3 else 0) + child_left (grandchild s)"

lemma sub_step_work:
  assumes "sub_inv ok s" and "sub_step s t"
  shows "sub_work t < sub_work s"
  using assms(2) by cases (use assms(1) in \<open>auto simp: sub_work_def child_left_def sub_inv_def\<close>)

interpretation subreaping: bounded_run sub_step "sub_inv ok" sub_work
  by unfold_locales (blast intro: sub_step_inv, blast intro: sub_step_work)

lemma sub_progress:
  assumes "sub_inv ok s" and "\<forall>t. \<not> sub_step s t"
  shows "sub_at s = SubEnd \<and> child s \<in> {NotForked, Reaped} \<and> grandchild s \<in> {NotForked, Reaped}"
proof -
  have c: "child s \<noteq> Running" using assms(2) by (cases "child_forked s") (blast intro: sub_child_fork sub_child_exit)+
  have g: "grandchild s \<noteq> Running" using assms(2) by (blast intro: sub_grandchild_exit)
  show ?thesis
  proof (cases "sub_at s")
    case SubFork
    with assms(2) show ?thesis by (blast intro: sub_fork)
  next
    case (SubWait i)
    then have "i \<le> 2" using assms(1) by (simp add: sub_inv_def)
    moreover have "i \<noteq> 2" using assms(2) SubWait by (blast intro: sub_end)
    ultimately have i: "i < 2" by simp
    have "child s \<noteq> Zombie" using assms(2) SubWait i by (blast intro: sub_wait_child)
    with c have "child s \<in> {NotForked, Reaped}" by (cases "child s") auto
    moreover have "grandchild s \<in> {NotForked, Reaped} \<or> guardian_of s \<noteq> OfParent"
      using g assms(2) sub_wait_grandchild [OF SubWait i] by (cases "grandchild s") auto
    ultimately show ?thesis using assms(2) sub_wait_none [OF SubWait i] by blast
  next
    case SubEnd
    then have w: "to_wait_for s = 0" using assms(1) by (simp add: sub_inv_def)
    then have "child s \<in> {NotForked, Reaped}" using c by (cases "child s") (auto simp: to_wait_for_def)
    moreover have "grandchild s \<noteq> Zombie"
    proof
      assume z: "grandchild s = Zombie"
      with w have "\<not> is_reaper s" by (auto simp: to_wait_for_def)
      moreover from z assms(1) \<open>child s \<in> {NotForked, Reaped}\<close> have "guardian_of s = (if is_reaper s then OfParent else OfInit)"
        by (auto simp: sub_inv_def)
      ultimately show False using assms(2) init_waits [OF z] by auto
    qed
    then have "grandchild s \<in> {NotForked, Reaped}" using g by (cases "grandchild s") auto
    ultimately show ?thesis using SubEnd by simp
  qed
qed

text \<open>
  Every run is finite, at most 9 steps, and leaves no zombie. When the parent ends it has waited for its
  child and, if it is the subreaper, for its grandchild; if \<open>prctl\<close> failed, the grandchild can outlive it.
\<close>

theorem subreaper_outlives_descendants:
  assumes "sub_start ok s" and "(sub_step ^^ n) s t"
  shows "n \<le> 9 \<and>
    ((\<forall>u. \<not> sub_step t u) \<longrightarrow> sub_at t = SubEnd \<and> child t \<in> {NotForked, Reaped} \<and> grandchild t \<in> {NotForked, Reaped}) \<and>
    (sub_at t = SubEnd \<longrightarrow> child t \<in> {NotForked, Reaped} \<and> (ok \<longrightarrow> grandchild t \<in> {NotForked, Reaped}))"
proof -
  have "sub_work s = 9" using assms(1) by (simp add: sub_start_def sub_work_def child_left_def)
  with subreaping.run_bounded [OF assms(2) sub_start_inv [OF assms(1)]] have n: "n \<le> 9" and t: "sub_inv ok t" by simp_all
  have "child t \<in> {NotForked, Reaped} \<and> (ok \<longrightarrow> grandchild t \<in> {NotForked, Reaped})" if "sub_at t = SubEnd"
    using t that by (cases "child t"; cases "grandchild t") (auto simp: sub_inv_def to_wait_for_def split: if_splits)
  with n sub_progress [OF t] show ?thesis by blast
qed

definition sub_demo :: "bool \<Rightarrow> sub_sys" where
  "sub_demo ok = \<lparr>is_reaper = ok, sub_at = SubFork, child = NotForked, child_forked = False,
     grandchild = NotForked, guardian_of = OfChild\<rparr>"

lemma sub_demo_start: "sub_start ok (sub_demo ok)"
  by (simp add: sub_start_def sub_demo_def)

theorem subreaper_outlives_descendants_witness:
  "\<exists>n t. (sub_step ^^ n) (sub_demo True) t \<and> n \<le> 9 \<and> sub_at t = SubEnd"
proof -
  obtain n t where "(sub_step ^^ n) (sub_demo True) t" and "\<forall>u. \<not> sub_step t u"
    using subreaping.run_ends_counted [OF sub_start_inv [OF sub_demo_start]] by blast
  with subreaper_outlives_descendants [OF sub_demo_start, of n True t] show ?thesis by auto
qed

lemma orphan_outlives_parent:
  "\<exists>t. sub_step\<^sup>*\<^sup>* (sub_demo False) t \<and> sub_at t = SubEnd \<and> grandchild t = Running"
proof -
  let ?s = "\<lambda>p c g d. \<lparr>is_reaper = False, sub_at = p, child = c, child_forked = g, grandchild = (if g then Running else NotForked),
      guardian_of = d\<rparr>"
  have "sub_step\<^sup>*\<^sup>* (sub_demo False) (?s (SubWait 0) Running False OfChild)"
    using sub_fork [of "sub_demo False"] by (intro r_into_rtranclp) (simp add: sub_demo_def)
  also have "sub_step (?s (SubWait 0) Running False OfChild) (?s (SubWait 0) Running True OfChild)"
    using sub_child_fork [of "?s (SubWait 0) Running False OfChild"] by simp
  also have "sub_step (?s (SubWait 0) Running True OfChild) (?s (SubWait 0) Zombie True OfInit)"
    using sub_child_exit [of "?s (SubWait 0) Running True OfChild"] by simp
  also have "sub_step (?s (SubWait 0) Zombie True OfInit) (?s (SubWait 1) Reaped True OfInit)"
    using sub_wait_child [of "?s (SubWait 0) Zombie True OfInit" 0] by simp
  also have "sub_step (?s (SubWait 1) Reaped True OfInit) (?s (SubWait 2) Reaped True OfInit)"
    using sub_wait_none [of "?s (SubWait 1) Reaped True OfInit" 1] by (simp add: numeral_2_eq_2)
  also have "sub_step (?s (SubWait 2) Reaped True OfInit) (?s SubEnd Reaped True OfInit)"
    using sub_end [of "?s (SubWait 2) Reaped True OfInit"] by simp
  finally show ?thesis by (intro exI [of _ "?s SubEnd Reaped True OfInit"]) simp
qed

section \<open>The exit code of a child\<close>

text \<open>
  \<open>2_fork_wait_exit.c\<close>: the child asks until it reads a \<open>y\<close>; the number of prompts, or \<open>None\<close> if it asks for
  ever: at the end of the input \<open>scanf\<close> leaves \<open>c\<close> as it is.
\<close>

fun kill_prompts :: "char \<Rightarrow> string \<Rightarrow> nat option" where
  "kill_prompts c inp =
     (if c = CHR ''y'' \<or> c = CHR ''Y'' then Some 0
      else (case inp of [] \<Rightarrow> None | d # rest \<Rightarrow> map_option Suc (kill_prompts d rest)))"

declare kill_prompts.simps [simp del]

text \<open>\<open>main\<close>: the number of prompts and the code the parent prints, \<open>WEXITSTATUS\<close> of \<open>exit(42)\<close>.\<close>

definition fork_wait_main :: "int \<Rightarrow> string \<Rightarrow> (c_error + nat \<times> int) option" where
  "fork_wait_main pid inp =
     (if pid < 0 then Some (Inl (Exit (-1)))
      else map_option (\<lambda>n. Inr (n, 42 mod 256)) (kill_prompts CHR ''n'' inp))"

lemma kill_prompts_eq:
  "c \<notin> {CHR ''y'', CHR ''Y''} \<Longrightarrow> kill_prompts c inp =
     (if set inp \<inter> {CHR ''y'', CHR ''Y''} = {} then None
      else Some (Suc (length (takeWhile (\<lambda>d. d \<notin> {CHR ''y'', CHR ''Y''}) inp))))"
proof (induction inp arbitrary: c)
  case Nil
  then show ?case by (simp add: kill_prompts.simps [of c])
next
  case (Cons d inp)
  show ?case
  proof (cases "d \<in> {CHR ''y'', CHR ''Y''}")
    case True
    then have "kill_prompts d inp = Some 0" by (simp add: kill_prompts.simps [of d])
    with True Cons.prems show ?thesis by (auto simp: kill_prompts.simps [of c])
  next
    case False
    with Cons show ?thesis by (simp add: kill_prompts.simps [of c])
  qed
qed

lemma fork_wait_main_code:
  "0 \<le> pid \<Longrightarrow> fork_wait_main pid inp =
     (if set inp \<inter> {CHR ''y'', CHR ''Y''} = {} then None
      else Some (Inr (Suc (length (takeWhile (\<lambda>d. d \<notin> {CHR ''y'', CHR ''Y''}) inp)), 42)))"
  by (simp add: fork_wait_main_def kill_prompts_eq)

section \<open>Waiting without a child\<close>

text \<open>\<open>wait\<close> in a process with these children: it blocks while one is alive and none has ended.\<close>

definition wait_returns :: "child_state list \<Rightarrow> bool" where
  "wait_returns cs \<longleftrightarrow> Zombie \<in> set cs \<or> Running \<notin> set cs"

text \<open>
  \<open>4_exec_dir.c\<close>: who reaches \<open>wait\<close>, and with which children: the parent, whose \<open>fork\<close> gave the child or failed,
  and the child itself if \<open>execl\<close> returns. \<open>ls\<close> is the state of the child.
\<close>

definition exec_dir_main :: "int \<Rightarrow> bool \<Rightarrow> child_state \<Rightarrow> child_state list option" where
  "exec_dir_main pid exec_ok ls =
     (if pid = 0 then (if exec_ok then None else Some [])
      else Some (if pid = -1 then [] else [ls]))"

text \<open>Only a parent whose child is still running waits; a failed \<open>fork\<close> or \<open>execl\<close> does not make \<open>wait\<close> hang.\<close>

lemma exec_dir_waits:
  assumes "exec_dir_main pid exec_ok ls = Some cs"
  shows "\<not> wait_returns cs \<longleftrightarrow> pid \<noteq> 0 \<and> pid \<noteq> -1 \<and> ls = Running"
  using assms by (auto simp: exec_dir_main_def wait_returns_def split: if_splits)

end
