(* ===== verification/NamedSem.thy ===== *)
theory NamedSem
  imports FileTransfer
begin

text \<open>
  The named counting semaphore of \<open>task4/examples/6_posix_cnt_sem.c\<close>: the program waits for the semaphore,
  or posts it if it is given an argument. Any number of processes run it at once; the semaphore outlives
  them, as nobody unlinks it.
\<close>

section \<open>The processes\<close>

text \<open>
  A process before \<open>sem_open\<close>, before \<open>sem_post\<close> or \<open>sem_wait\<close>, past it, or ended by \<open>return 1\<close>.
\<close>

datatype psem_pc = PStart | PPost | PWait | PPosted | PPassed | PFailed

record psem_sys =
  sem_value :: "nat option"
  proc_at :: "nat \<Rightarrow> psem_pc"

text \<open>
  \<open>n\<close> processes, of which those with \<open>argc2 i\<close> were given one argument. \<open>sem_open\<close> without \<open>O_CREAT\<close> fails
  if there is no semaphore; it may fail for other reasons, too.
\<close>

inductive psem_step :: "nat \<Rightarrow> (nat \<Rightarrow> bool) \<Rightarrow> psem_sys \<Rightarrow> psem_sys \<Rightarrow> bool" for n :: nat and argc2 :: "nat \<Rightarrow> bool" where
  post_open: "i < n \<Longrightarrow> argc2 i \<Longrightarrow> proc_at s i = PStart \<Longrightarrow> sem_value s \<noteq> None \<Longrightarrow>
     psem_step n argc2 s (s\<lparr>proc_at := (proc_at s)(i := PPost)\<rparr>)"
| post_sem: "i < n \<Longrightarrow> proc_at s i = PPost \<Longrightarrow> sem_value s = Some v \<Longrightarrow>
     psem_step n argc2 s (s\<lparr>sem_value := Some (v + 1), proc_at := (proc_at s)(i := PPosted)\<rparr>)"
| wait_open: "i < n \<Longrightarrow> \<not> argc2 i \<Longrightarrow> proc_at s i = PStart \<Longrightarrow>
     psem_step n argc2 s (s\<lparr>sem_value := Some (case sem_value s of None \<Rightarrow> 0 | Some v \<Rightarrow> v),
                            proc_at := (proc_at s)(i := PWait)\<rparr>)"
| wait_sem: "i < n \<Longrightarrow> proc_at s i = PWait \<Longrightarrow> sem_value s = Some (Suc v) \<Longrightarrow>
     psem_step n argc2 s (s\<lparr>sem_value := Some v, proc_at := (proc_at s)(i := PPassed)\<rparr>)"
| open_fails: "i < n \<Longrightarrow> proc_at s i = PStart \<Longrightarrow>
     psem_step n argc2 s (s\<lparr>proc_at := (proc_at s)(i := PFailed)\<rparr>)"

definition psem_start :: "nat option \<Rightarrow> psem_sys \<Rightarrow> bool" where
  "psem_start v s \<longleftrightarrow> s = \<lparr>sem_value = v, proc_at = (\<lambda>_. PStart)\<rparr>"

section \<open>Counting\<close>

definition value_of :: "nat option \<Rightarrow> nat" where
  "value_of v = (case v of None \<Rightarrow> 0 | Some k \<Rightarrow> k)"

text \<open>How many of the \<open>n\<close> processes are at a point.\<close>

definition number_at :: "nat \<Rightarrow> psem_pc \<Rightarrow> (nat \<Rightarrow> psem_pc) \<Rightarrow> nat" where
  "number_at n p g = (\<Sum>i<n. if g i = p then 1 else 0)"

lemma number_at_upd:
  "i < n \<Longrightarrow> number_at n p (g(i := q)) + (if g i = p then 1 else 0) = number_at n p g + (if q = p then 1 else 0)"
  unfolding number_at_def using sum_upd_lessThan [of i n "\<lambda>x. if x = p then 1 else 0 :: nat" g q] by simp

text \<open>What \<open>sem_post\<close> added is in the semaphore or was taken by a process that passed.\<close>

definition psem_inv :: "nat \<Rightarrow> nat \<Rightarrow> psem_sys \<Rightarrow> bool" where
  "psem_inv n v0 s \<longleftrightarrow> value_of (sem_value s) + number_at n PPassed (proc_at s) = v0 + number_at n PPosted (proc_at s) \<and>
     (sem_value s = None \<longrightarrow> (\<forall>i < n. proc_at s i \<in> {PStart, PFailed}))"

lemma psem_start_inv: "psem_start v s \<Longrightarrow> psem_inv n (value_of v) s"
  by (simp add: psem_start_def psem_inv_def number_at_def)

lemma psem_step_inv:
  assumes "psem_step n argc2 s t" and "psem_inv n v0 s"
  shows "psem_inv n v0 t"
  using assms(1)
proof cases
  case (post_open i)
  with assms(2) number_at_upd [of i n PPassed "proc_at s" PPost] number_at_upd [of i n PPosted "proc_at s" PPost]
  show ?thesis by (auto simp: psem_inv_def)
next
  case (post_sem i v)
  with assms(2) number_at_upd [of i n PPassed "proc_at s" PPosted] number_at_upd [of i n PPosted "proc_at s" PPosted]
  show ?thesis by (simp add: psem_inv_def value_of_def)
next
  case (wait_open i)
  with assms(2) number_at_upd [of i n PPassed "proc_at s" PWait] number_at_upd [of i n PPosted "proc_at s" PWait]
  show ?thesis by (simp add: psem_inv_def value_of_def)
next
  case (wait_sem i v)
  with assms(2) number_at_upd [of i n PPassed "proc_at s" PPassed] number_at_upd [of i n PPosted "proc_at s" PPassed]
  show ?thesis by (simp add: psem_inv_def value_of_def)
next
  case (open_fails i)
  with assms(2) number_at_upd [of i n PPassed "proc_at s" PFailed] number_at_upd [of i n PPosted "proc_at s" PFailed]
  show ?thesis by (simp add: psem_inv_def)
qed

definition psem_work :: "nat \<Rightarrow> psem_sys \<Rightarrow> nat" where
  "psem_work n s = 2 * number_at n PStart (proc_at s) + number_at n PPost (proc_at s) + number_at n PWait (proc_at s)"

lemma psem_work_upd:
  assumes "i < n"
  shows "2 * number_at n PStart (g(i := q)) + number_at n PPost (g(i := q)) + number_at n PWait (g(i := q)) +
      (if g i = PStart then 2 else if g i \<in> {PPost, PWait} then 1 else 0) =
    2 * number_at n PStart g + number_at n PPost g + number_at n PWait g +
      (if q = PStart then 2 else if q \<in> {PPost, PWait} then 1 else 0)"
  using number_at_upd [OF assms, of PStart g q] number_at_upd [OF assms, of PPost g q]
    number_at_upd [OF assms, of PWait g q]
  by (simp split: if_splits)

lemma psem_step_work: "psem_step n argc2 s t \<Longrightarrow> psem_work n t < psem_work n s"
proof (induction rule: psem_step.induct)
  case (post_open i s)
  with psem_work_upd [of i n "proc_at s" PPost] show ?case by (simp add: psem_work_def)
next
  case (post_sem i s v)
  with psem_work_upd [of i n "proc_at s" PPosted] show ?case by (simp add: psem_work_def)
next
  case (wait_open i s)
  with psem_work_upd [of i n "proc_at s" PWait] show ?case by (simp add: psem_work_def)
next
  case (wait_sem i s v)
  with psem_work_upd [of i n "proc_at s" PPassed] show ?case by (simp add: psem_work_def)
next
  case (open_fails i s)
  with psem_work_upd [of i n "proc_at s" PFailed] show ?case by (simp add: psem_work_def)
qed

interpretation named_semaphore: bounded_run "psem_step n argc2" "psem_inv n v0" "psem_work n"
  by unfold_locales (blast intro: psem_step_inv, blast intro: psem_step_work)

section \<open>Who passes\<close>

lemma psem_stuck:
  assumes "psem_inv n v0 s" and "\<forall>t. \<not> psem_step n argc2 s t" and "i < n"
  shows "proc_at s i \<in> {PPosted, PPassed, PFailed} \<or> proc_at s i = PWait \<and> sem_value s = Some 0"
proof (cases "proc_at s i")
  case PStart
  with assms(2,3) open_fails [of i n s argc2] show ?thesis by simp
next
  case PPost
  with assms(1,3) have "sem_value s \<noteq> None" by (auto simp: psem_inv_def)
  with assms(2,3) PPost show ?thesis by (auto intro: post_sem)
next
  case PWait
  with assms(1,3) have "sem_value s \<noteq> None" by (auto simp: psem_inv_def)
  then obtain v where v: "sem_value s = Some v" by blast
  with assms(2,3) PWait wait_sem [of i n s] have "v = 0" by (cases v) auto
  with PWait v show ?thesis by simp
qed simp_all

lemma number_at_none: "(\<And>i. i < n \<Longrightarrow> g i \<noteq> p) \<Longrightarrow> number_at n p g = 0"
  by (simp add: number_at_def)

text \<open>
  Every run is finite, at most two steps per process. Where it can go no further, as many processes have
  passed as the smaller of two numbers: those that came to wait, and the posts, the initial value of the
  semaphore included. A post is never lost and never lets two pass, and one that nobody waited for stays
  in the semaphore for the next run.
\<close>

theorem semaphore_counts:
  assumes "psem_start v s" and "(psem_step n argc2 ^^ k) s t"
  shows "k \<le> 2 * n \<and>
    ((\<forall>u. \<not> psem_step n argc2 t u) \<longrightarrow>
       number_at n PPassed (proc_at t) =
         min (number_at n PPassed (proc_at t) + number_at n PWait (proc_at t)) (value_of v + number_at n PPosted (proc_at t)) \<and>
       value_of (sem_value t) = value_of v + number_at n PPosted (proc_at t) - number_at n PPassed (proc_at t))"
proof -
  have "psem_work n s = 2 * n" using assms(1) by (simp add: psem_start_def psem_work_def number_at_def)
  with named_semaphore.run_bounded [OF assms(2) psem_start_inv [OF assms(1)]]
  have k: "k \<le> 2 * n" and t: "psem_inv n (value_of v) t" by simp_all
  have "number_at n PPassed (proc_at t) =
         min (number_at n PPassed (proc_at t) + number_at n PWait (proc_at t)) (value_of v + number_at n PPosted (proc_at t))"
    if stuck: "\<forall>u. \<not> psem_step n argc2 t u"
  proof (cases "\<exists>i < n. proc_at t i = PWait")
    case True
    with psem_stuck [OF t stuck] have "sem_value t = Some 0" by fastforce
    with t show ?thesis by (simp add: psem_inv_def value_of_def)
  next
    case False
    then have "number_at n PWait (proc_at t) = 0" by (intro number_at_none) blast
    with t show ?thesis by (simp add: psem_inv_def)
  qed
  with k t show ?thesis by (auto simp: psem_inv_def)
qed

definition psem_demo :: psem_sys where
  "psem_demo = \<lparr>sem_value = Some 1, proc_at = (\<lambda>_. PStart)\<rparr>"

theorem semaphore_counts_witness:
  "\<exists>k t. (psem_step 3 even ^^ k) psem_demo t \<and> k \<le> 6 \<and> (\<forall>u. \<not> psem_step 3 even t u)"
proof -
  have s: "psem_start (Some 1) psem_demo" by (simp add: psem_start_def psem_demo_def)
  obtain k t where "(psem_step 3 even ^^ k) psem_demo t" and "\<forall>u. \<not> psem_step 3 even t u"
    using named_semaphore.run_ends_counted [OF psem_start_inv [OF s]] by blast
  with semaphore_counts [OF s, of k 3 even t] show ?thesis by auto
qed

text \<open>A process that posts before the semaphore exists fails.\<close>

lemma post_needs_semaphore:
  assumes "psem_step n argc2 s t" and "sem_value s = None" and "argc2 i" and "proc_at s i = PStart"
  shows "proc_at t i \<in> {PStart, PFailed}"
  using assms by cases auto

end
