(* ===== verification/SmallPrograms.thy ===== *)
theory SmallPrograms
  imports CString
begin

text \<open>
  The shorter examples: two message queues (\<open>task3/examples/sender.c\<close> and \<open>receiver.c\<close>, \<open>posix_mq_client.c\<close>
  and \<open>posix_mq_server.c\<close>), a shared page (\<open>mmap_parent_child.c\<close>), creating files and splitting a string
  (\<open>task1/examples/7_touch.c\<close>, \<open>5_strtok.c\<close>), the three ways to wait for input (\<open>task7/examples\<close>), and two programs of
  \<open>task4/examples\<close>.
\<close>

section \<open>System V messages\<close>

text \<open>
  The queues of the system by their key. A message is its type and its bytes.
\<close>

type_synonym msg_table = "int \<rightharpoonup> (int \<times> bytes) list"

definition SENDER_KEY :: int where
  "SENDER_KEY = 1024"

definition RECEIVER_KEY :: int where
  "RECEIVER_KEY = 10"

definition MSG_SIZE :: nat where
  "MSG_SIZE = 1024"

definition HELLO :: bytes where
  "HELLO = [72, 69, 76, 76, 79]"

text \<open>
  \<open>sender.c\<close>: the queue is made if need be; \<open>msgsnd\<close> with \<open>IPC_NOWAIT\<close> fails if it is full. The exit code
  and the queues.
\<close>

definition sender_main :: "bool \<Rightarrow> bool \<Rightarrow> msg_table \<Rightarrow> int \<times> msg_table" where
  "sender_main msgget_ok has_room tab =
     (if \<not> msgget_ok then (1, tab)
      else
        (let q = (case tab SENDER_KEY of None \<Rightarrow> [] | Some q \<Rightarrow> q) in
         if \<not> has_room then (1, tab(SENDER_KEY \<mapsto> q))
         else (0, tab(SENDER_KEY \<mapsto> q @ [(1, HELLO @ [0])]))))"

text \<open>
  \<open>receiver.c\<close>: the first message of type 1, at most \<open>MSG_SIZE\<close> bytes long; \<open>None\<close> means that it waits. The
  text printed goes up to the first NUL, and on into the uninitialised rest \<open>garbage\<close> of the buffer.
\<close>

definition receiver_main :: "bool \<Rightarrow> bytes \<Rightarrow> msg_table \<Rightarrow> (int \<times> bytes \<times> msg_table) option" where
  "receiver_main msgget_ok garbage tab =
     (case tab RECEIVER_KEY of
        None \<Rightarrow> Some (1, [], tab)
      | Some q \<Rightarrow>
          if \<not> msgget_ok then Some (1, [], tab)
          else
            (case dropWhile (\<lambda>m. fst m \<noteq> 1) q of
               [] \<Rightarrow> None
             | m # rest \<Rightarrow>
                 if MSG_SIZE < length (snd m) then Some (1, [], tab)
                 else Some (0, takeWhile (\<lambda>b. b \<noteq> 0) (snd m @ garbage),
                            tab(RECEIVER_KEY \<mapsto> takeWhile (\<lambda>m. fst m \<noteq> 1) q @ rest))))"

fun senders :: "(bool \<times> bool) list \<Rightarrow> msg_table \<Rightarrow> msg_table" where
  "senders [] tab = tab"
| "senders ((ok, room) # rs) tab = senders rs (snd (sender_main ok room tab))"

lemma senders_other_queue: "k \<noteq> SENDER_KEY \<Longrightarrow> senders rs tab k = tab k"
  by (induction rs tab rule: senders.induct) (auto simp: sender_main_def Let_def)

lemma senders_queue:
  "\<forall>r \<in> set rs. r = (True, True) \<Longrightarrow>
     (case senders rs tab SENDER_KEY of None \<Rightarrow> [] | Some q \<Rightarrow> q) =
     (case tab SENDER_KEY of None \<Rightarrow> [] | Some q \<Rightarrow> q) @ replicate (length rs) (1, HELLO @ [0])"
  by (induction rs tab rule: senders.induct) (auto simp: sender_main_def Let_def split: option.splits)

text \<open>
  The two programs name different queues: whatever the senders did, the receiver behaves as if they had
  not run, and fails if nobody else has made its queue.
\<close>

lemma receiver_misses_sender:
  "map_option (\<lambda>(code, out, _). (code, out)) (receiver_main ok g (senders rs tab)) =
   map_option (\<lambda>(code, out, _). (code, out)) (receiver_main ok g tab)"
proof -
  have "senders rs tab RECEIVER_KEY = tab RECEIVER_KEY"
    by (rule senders_other_queue) (simp add: RECEIVER_KEY_def SENDER_KEY_def)
  then show ?thesis
    by (cases "tab RECEIVER_KEY"; cases "dropWhile (\<lambda>m. fst m \<noteq> 1) (the (tab RECEIVER_KEY))")
       (simp_all add: receiver_main_def del: dropWhile_eq_Nil_conv)
qed

lemma receiver_without_queue: "tab RECEIVER_KEY = None \<Longrightarrow> receiver_main ok g (senders rs tab) = Some (1, [], senders rs tab)"
  using senders_other_queue [of RECEIVER_KEY rs tab] by (simp add: receiver_main_def RECEIVER_KEY_def SENDER_KEY_def)

text \<open>With the key of the sender it would print what was sent.\<close>

lemma receiver_prints_hello:
  "tab RECEIVER_KEY = Some ((1, HELLO @ [0]) # q) \<Longrightarrow> receiver_main True g tab = Some (0, HELLO, tab(RECEIVER_KEY \<mapsto> q))"
  by (simp add: receiver_main_def HELLO_def MSG_SIZE_def)

section \<open>POSIX messages\<close>

text \<open>
  One queue, named \<open>/example\<close>, its messages in order; all are sent with the same priority. The server makes
  it and waits for a message, the client adds one to a queue that is there.
\<close>

definition SZ :: nat where
  "SZ = 4096"

definition HELLO_WORLD :: bytes where
  "HELLO_WORLD = [104, 101, 108, 108, 111, 32, 119, 111, 114, 108, 100]"

type_synonym posix_queue = "bytes list option"

definition posix_server_open :: "bool \<Rightarrow> posix_queue \<Rightarrow> c_error + posix_queue" where
  "posix_server_open open_ok q =
     (if \<not> open_ok then Inl (Exit 1) else Inr (Some (case q of None \<Rightarrow> [] | Some ms \<Rightarrow> ms)))"

text \<open>\<open>None\<close> means that the server waits; \<open>mq_receive\<close> needs a buffer at least as large as the queue's messages.\<close>

definition posix_server_receive :: "nat \<Rightarrow> bytes \<Rightarrow> posix_queue \<Rightarrow> (c_error + bytes \<times> posix_queue) option" where
  "posix_server_receive msgsize garbage q =
     (if SZ < msgsize then Some (Inl (Exit 1))
      else
        (case q of
           None \<Rightarrow> Some (Inl (Exit 1))
         | Some [] \<Rightarrow> None
         | Some (m # ms) \<Rightarrow> Some (Inr (takeWhile (\<lambda>b. b \<noteq> 0) (m @ garbage), Some ms))))"

text \<open>\<open>mq_send\<close> waits while the queue is full, \<open>maxmsg\<close> messages.\<close>

definition posix_client :: "nat \<Rightarrow> posix_queue \<Rightarrow> (c_error + posix_queue) option" where
  "posix_client maxmsg q =
     (case q of
        None \<Rightarrow> Some (Inl (Exit 1))
      | Some ms \<Rightarrow> if maxmsg \<le> length ms then None else Some (Inr (Some (ms @ [HELLO_WORLD @ [0]]))))"

lemma posix_exchange:
  assumes "0 < maxmsg" and "msgsize \<le> SZ"
  shows "posix_client maxmsg None = Some (Inl (Exit 1))"
    and "\<exists>q. posix_server_open True None = Inr q \<and> posix_server_receive msgsize g q = None \<and>
      (\<exists>q'. posix_client maxmsg q = Some (Inr q') \<and>
         posix_server_receive msgsize g q' = Some (Inr (HELLO_WORLD, Some [])))"
  using assms by (simp_all add: posix_client_def posix_server_open_def posix_server_receive_def HELLO_WORLD_def)

text \<open>The queue outlives the programs: a message nobody received is what the next server prints.\<close>

lemma posix_stale_message:
  "msgsize \<le> SZ \<Longrightarrow> 0 \<notin> set m \<Longrightarrow> posix_server_open True (Some ((m @ [0]) # ms)) = Inr q \<Longrightarrow>
     posix_server_receive msgsize g q = Some (Inr (m, Some ms))"
  by (auto simp: posix_server_open_def posix_server_receive_def takeWhile_append takeWhile_eq_all_conv)

section \<open>A shared page\<close>

text \<open>
  \<open>mmap_parent_child.c\<close>: the parent stores 10 and 20 in the two cells of the page it shares with its child;
  the child, after a second, prints their sum, which it reads in either order. \<open>stores\<close> counts what the
  parent has stored.
\<close>

record page_sys =
  shared0 :: int
  shared1 :: int
  stores :: nat
  loaded0 :: "int option"
  loaded1 :: "int option"

inductive page_step :: "page_sys \<Rightarrow> page_sys \<Rightarrow> bool" where
  store0: "stores s = 0 \<Longrightarrow> page_step s (s\<lparr>shared0 := 10, stores := 1\<rparr>)"
| store1: "stores s = 1 \<Longrightarrow> page_step s (s\<lparr>shared1 := 20, stores := 2\<rparr>)"
| load0: "loaded0 s = None \<Longrightarrow> page_step s (s\<lparr>loaded0 := Some (shared0 s)\<rparr>)"
| load1: "loaded1 s = None \<Longrightarrow> page_step s (s\<lparr>loaded1 := Some (shared1 s)\<rparr>)"

definition page_printed :: "page_sys \<Rightarrow> int option" where
  "page_printed s = (case (loaded0 s, loaded1 s) of (Some a, Some b) \<Rightarrow> Some (b + a) | _ \<Rightarrow> None)"

text \<open>The fresh page is zero. If \<open>fork\<close> fails the parent takes the child's branch, and nobody stores.\<close>

definition page_start :: "bool \<Rightarrow> page_sys" where
  "page_start forked = \<lparr>shared0 = 0, shared1 = 0, stores = (if forked then 0 else 2), loaded0 = None, loaded1 = None\<rparr>"

definition page_inv :: "bool \<Rightarrow> page_sys \<Rightarrow> bool" where
  "page_inv forked s \<longleftrightarrow> shared0 s \<in> {0, 10} \<and> shared1 s \<in> {0, 20} \<and> loaded0 s \<in> {None, Some 0, Some 10} \<and>
     loaded1 s \<in> {None, Some 0, Some 20} \<and>
     (\<not> forked \<longrightarrow> stores s = 2 \<and> shared0 s = 0 \<and> shared1 s = 0 \<and> loaded0 s \<noteq> Some 10 \<and> loaded1 s \<noteq> Some 20)"

lemma page_reach_inv: "page_step\<^sup>*\<^sup>* (page_start forked) t \<Longrightarrow> page_inv forked t"
proof (induction rule: rtranclp_induct)
  case base
  then show ?case by (simp add: page_start_def page_inv_def)
next
  case (step t u)
  from step.hyps(2) step.IH show ?case by cases (auto simp: page_inv_def)
qed

lemma page_run_exists:
  "page_step\<^sup>*\<^sup>* (page_start True) \<lparr>shared0 = 0, shared1 = 0, stores = 0, loaded0 = Some 0, loaded1 = Some 0\<rparr>"
  "page_step\<^sup>*\<^sup>* (page_start True) \<lparr>shared0 = 10, shared1 = 0, stores = 1, loaded0 = Some 10, loaded1 = Some 0\<rparr>"
  "page_step\<^sup>*\<^sup>* (page_start True) \<lparr>shared0 = 10, shared1 = 20, stores = 2, loaded0 = Some 0, loaded1 = Some 20\<rparr>"
  "page_step\<^sup>*\<^sup>* (page_start True) \<lparr>shared0 = 10, shared1 = 20, stores = 2, loaded0 = Some 10, loaded1 = Some 20\<rparr>"
proof -
  let ?p = "\<lambda>a b k x y. \<lparr>shared0 = a, shared1 = b, stores = k, loaded0 = x, loaded1 = y\<rparr>"
  have s0: "page_step (?p 0 b 0 x y) (?p 10 b 1 x y)" for b x y using store0 [of "?p 0 b 0 x y"] by simp
  have s1: "page_step (?p a 0 1 x y) (?p a 20 2 x y)" for a x y using store1 [of "?p a 0 1 x y"] by simp
  have l0: "page_step (?p a b k None y) (?p a b k (Some a) y)" for a b k y using load0 [of "?p a b k None y"] by simp
  have l1: "page_step (?p a b k x None) (?p a b k x (Some b))" for a b k x using load1 [of "?p a b k x None"] by simp
  note steps = s0 s1 l0 l1
  have start: "page_start True = ?p 0 0 0 None None" by (simp add: page_start_def)
  show "page_step\<^sup>*\<^sup>* (page_start True) (?p 0 0 0 (Some 0) (Some 0))" unfolding start
    by (meson converse_rtranclp_into_rtranclp rtranclp.rtrancl_refl l0 l1)
  show "page_step\<^sup>*\<^sup>* (page_start True) (?p 10 0 1 (Some 10) (Some 0))" unfolding start
    by (meson converse_rtranclp_into_rtranclp rtranclp.rtrancl_refl s0 l0 l1)
  show "page_step\<^sup>*\<^sup>* (page_start True) (?p 10 20 2 (Some 0) (Some 20))" unfolding start
    by (rule converse_rtranclp_into_rtranclp, rule l0, rule converse_rtranclp_into_rtranclp, rule s0,
        rule converse_rtranclp_into_rtranclp, rule s1, rule r_into_rtranclp, rule l1)
  show "page_step\<^sup>*\<^sup>* (page_start True) (?p 10 20 2 (Some 10) (Some 20))" unfolding start
    by (rule converse_rtranclp_into_rtranclp, rule s0, rule converse_rtranclp_into_rtranclp, rule s1,
        rule converse_rtranclp_into_rtranclp, rule l0, rule r_into_rtranclp, rule l1)
qed

text \<open>What the child can print: exactly four numbers, of which one second makes 30 the usual one.\<close>

theorem page_sums:
  "{v. \<exists>t. page_step\<^sup>*\<^sup>* (page_start forked) t \<and> page_printed t = Some v} = (if forked then {0, 10, 20, 30} else {0})"
proof (cases forked)
  case True
  have "v \<in> {0, 10, 20, 30}" if "page_step\<^sup>*\<^sup>* (page_start forked) t" "page_printed t = Some v" for t v
    using page_reach_inv [OF that(1)] that(2) by (auto simp: page_inv_def page_printed_def)
  moreover have "\<exists>t. page_step\<^sup>*\<^sup>* (page_start True) t \<and> page_printed t = Some v" if "v \<in> {0, 10, 20, 30}" for v
    using that page_run_exists by (elim insertE emptyE) (fastforce simp: page_printed_def)+
  ultimately show ?thesis using True by auto
next
  case False
  have "v = 0" if "page_step\<^sup>*\<^sup>* (page_start forked) t" "page_printed t = Some v" for t v
    using page_reach_inv [OF that(1)] that(2) False by (auto simp: page_inv_def page_printed_def split: option.splits)
  moreover have "page_step\<^sup>*\<^sup>* (page_start False) ((page_start False)\<lparr>loaded0 := Some 0, loaded1 := Some 0\<rparr>)"
    using load0 [of "page_start False"] load1 [of "(page_start False)\<lparr>loaded0 := Some 0\<rparr>"]
    by (intro rtranclp.rtrancl_into_rtrancl [OF r_into_rtranclp]) (simp_all add: page_start_def)
  then have "\<exists>t. page_step\<^sup>*\<^sup>* (page_start False) t \<and> page_printed t = Some 0"
    by (fastforce simp: page_printed_def)
  ultimately show ?thesis using False by auto
qed

section \<open>Creating files\<close>

text \<open>
  \<open>7_touch.c\<close>: \<open>open\<close> with \<open>O_CREAT\<close> for one argument after the other, up to the first that fails. \<open>creat_ok\<close>
  tells which succeed.
\<close>

fun touch_main :: "(string \<Rightarrow> bool) \<Rightarrow> string list \<Rightarrow> string set \<Rightarrow> int \<times> string set" where
  "touch_main creat_ok [] files = (0, files)"
| "touch_main creat_ok (a # as) files =
     (if \<not> creat_ok a then (-1, files) else touch_main creat_ok as (insert a files))"

lemma touch_main_eq:
  "touch_main creat_ok as files =
     (if \<forall>a \<in> set as. creat_ok a then 0 else -1, files \<union> set (takeWhile creat_ok as))"
  by (induction as arbitrary: files) auto

section \<open>Splitting a string\<close>

text \<open>\<open>5_strtok.c\<close>: what is printed for its string and its delimiters.\<close>

definition strtok_delim :: "char set" where
  "strtok_delim = {CHR '' '', CHR '','', CHR ''-'', CHR 0x0A}"

definition strtok_string :: string where
  "strtok_string = ''This is '' @ [CHR 0x0A] @ '' a   -string ''"

definition strtok_main :: "string list" where
  "strtok_main = strtok_all strtok_delim strtok_string"

lemma strtok_main_tokens: "strtok_main = [''This'', ''is'', ''a'', ''string'']"
  by (simp add: strtok_main_def strtok_all_pieces strtok_string_def strtok_delim_def)

section \<open>Waiting for input\<close>

text \<open>\<open>scanf("%s", str)\<close>: the next word of the input, which must fit the buffer with its NUL; no word leaves it as it was.\<close>

definition is_space :: "char \<Rightarrow> bool" where
  "is_space c \<longleftrightarrow> c \<in> {CHR '' '', CHR 0x09, CHR 0x0A, CHR 0x0B, CHR 0x0C, CHR 0x0D}"

definition scan_word :: "nat \<Rightarrow> string \<Rightarrow> string \<Rightarrow> c_error + string \<times> string" where
  "scan_word sz str inp =
     (let inp = dropWhile is_space inp; w = takeWhile (\<lambda>c. \<not> is_space c) inp in
      if w = [] then Inr (str, inp)
      else if sz \<le> length w then Inl OutOfBounds
      else Inr (w, dropWhile (\<lambda>c. \<not> is_space c) inp))"

text \<open>
  \<open>1_select.c\<close>: \<open>retval\<close> is what \<open>select\<close> returns; an error is not 0 either and leaves the set as it was, with
  descriptor 0 in it. The output, with what the uninitialised buffer held if there was no word.
\<close>

definition select_main :: "int \<Rightarrow> string \<Rightarrow> string \<Rightarrow> c_error + string" where
  "select_main retval garbage inp =
     (if retval \<noteq> 0 then (case scan_word 256 garbage inp of Inl e \<Rightarrow> Inl e | Inr (str, _) \<Rightarrow> Inr str)
      else Inr ''Timeout.'')"

text \<open>
  \<open>2_poll.c\<close>: \<open>poll\<close> is called once, before the endless loop; \<open>k\<close> turns of it. \<open>pollin\<close> is the bit of \<open>revents\<close>.
\<close>

fun poll_turns :: "nat \<Rightarrow> int \<Rightarrow> bool \<Rightarrow> string \<Rightarrow> string \<Rightarrow> c_error + string list" where
  "poll_turns 0 ret pollin str inp = Inr []"
| "poll_turns (Suc k) ret pollin str inp =
     (if ret = 0 then map_sum id (\<lambda>out. ''TIMEOUT'' # out) (poll_turns k ret pollin str inp)
      else if pollin then
        (case scan_word 1024 str inp of Inl e \<Rightarrow> Inl e
         | Inr (str, inp) \<Rightarrow> map_sum id (\<lambda>out. str # out) (poll_turns k ret pollin str inp))
      else poll_turns k ret pollin str inp)"

text \<open>Input that comes after the first five seconds is never noticed; after its end the last word is repeated for ever.\<close>

lemma poll_timeout_is_final: "poll_turns k 0 pollin str inp = Inr (replicate k ''TIMEOUT'')"
  by (induction k) simp_all

lemma poll_repeats_last_word:
  "ret \<noteq> 0 \<Longrightarrow> \<forall>c \<in> set inp. is_space c \<Longrightarrow> poll_turns k ret True str inp = Inr (replicate k str)"
proof (induction k arbitrary: inp)
  case (Suc k)
  then have "dropWhile is_space inp = []" by (simp add: dropWhile_eq_Nil_conv)
  then have "scan_word 1024 str inp = Inr (str, [])" by (simp add: scan_word_def Let_def del: dropWhile_eq_Nil_conv)
  with Suc show ?case by simp
qed simp

text \<open>
  \<open>3_epoll.c\<close>: the descriptors that became ready are read one after the other; \<open>reads\<close> gives what each \<open>read\<close>
  returns, up to \<open>sizeof(buf)\<close>. The NUL is stored at \<open>buf[len_rd]\<close>. The value is what \<open>main\<close> returns.
\<close>

fun epoll_handle :: "int list \<Rightarrow> c_error + unit" where
  "epoll_handle [] = Inr ()"
| "epoll_handle (len_rd # reads) =
     (if len_rd < 0 \<or> 4096 \<le> len_rd then Inl OutOfBounds else epoll_handle reads)"

definition epoll_main :: "bool \<Rightarrow> bool \<Rightarrow> bool \<Rightarrow> int list \<Rightarrow> c_error + int" where
  "epoll_main create_ok ctl_ok wait_ok reads =
     (if \<not> create_ok then Inr 1 else if \<not> ctl_ok then Inr 2 else if \<not> wait_ok then Inr 4
      else map_sum id (\<lambda>_. 0) (epoll_handle reads))"

lemma epoll_handle_safe: "epoll_handle reads = Inr () \<longleftrightarrow> (\<forall>n \<in> set reads. 0 \<le> n \<and> n < 4096)"
  by (induction reads) auto

text \<open>A full buffer or a failing \<open>read\<close> stores the NUL outside the buffer.\<close>

lemma epoll_main_safe:
  "(\<exists>code. epoll_main True True True reads = Inr code) \<longleftrightarrow> (\<forall>n \<in> set reads. 0 \<le> n \<and> n < 4096)"
  using epoll_handle_safe [of reads] by (cases "epoll_handle reads") (auto simp: epoll_main_def)

lemma select_main_safe:
  "(\<exists>out. select_main retval garbage inp = Inr out) \<longleftrightarrow>
     retval = 0 \<or> length (takeWhile (\<lambda>c. \<not> is_space c) (dropWhile is_space inp)) < 256"
  by (auto simp: select_main_def scan_word_def Let_def not_le [symmetric])

section \<open>Points below a line\<close>

text \<open>
  \<open>task4/examples/4_monte-carlo_singlethread.c\<close>: the random numbers are the input, two for each point. Both
  are divided by \<open>RAND_MAX\<close>, which keeps different numbers different and in order, so \<open>fabs(y) - func(x) < 0\<close>
  compares them. \<open>s\<close> counts exactly; the result printed is the count over \<open>points\<close>, as \<open>b - a\<close> is 1.
\<close>

definition MC_POINTS :: nat where
  "MC_POINTS = 10000"

fun mc_loop :: "(nat \<times> nat) list \<Rightarrow> nat \<Rightarrow> nat" where
  "mc_loop [] s = s"
| "mc_loop ((x, y) # ps) s = mc_loop ps (if y < x then s + 1 else s)"

definition mc_main :: "(nat \<times> nat) list \<Rightarrow> nat \<times> nat" where
  "mc_main ps = (mc_loop (take MC_POINTS ps) 0, MC_POINTS)"

lemma mc_loop_count: "mc_loop ps s = s + length (filter (\<lambda>(x, y). y < x) ps)"
  by (induction ps s rule: mc_loop.induct) auto

text \<open>Mirrored points give the rest, but for those on the line: the estimate is unbiased up to ties.\<close>

lemma mc_main_mirror:
  "length ps = MC_POINTS \<Longrightarrow>
     fst (mc_main ps) + fst (mc_main (map prod.swap ps)) + length (filter (\<lambda>(x, y). x = y) ps) = MC_POINTS"
proof -
  assume "length ps = MC_POINTS"
  moreover have "length (filter (\<lambda>(x, y). y < x) qs) + length (filter (\<lambda>(x, y). y < x) (map prod.swap qs)) +
      length (filter (\<lambda>(x, y). x = y) qs) = length qs" for qs :: "(nat \<times> nat) list"
    by (induction qs) auto
  ultimately show ?thesis by (simp add: mc_main_def mc_loop_count)
qed

section \<open>Binding a thread to a core\<close>

text \<open>
  \<open>task4/examples/9_set_pthread_affinity.c\<close>: \<open>setaffinity\<close> is the system call on the set of cores it is given;
  \<open>EINVAL\<close> is 22. \<open>CPU_SET\<close> ignores a core past \<open>CPU_SETSIZE\<close>.
\<close>

definition CPU_SETSIZE :: int where
  "CPU_SETSIZE = 1024"

definition stick_this_thread_to_core :: "int \<Rightarrow> (int set \<Rightarrow> int) \<Rightarrow> int \<Rightarrow> int" where
  "stick_this_thread_to_core num_cores setaffinity core_id =
     (if core_id < 0 \<or> num_cores \<le> core_id then 22
      else setaffinity (if core_id < CPU_SETSIZE then {core_id} else {}))"

lemma stick_this_thread_to_core_set:
  "0 \<le> core_id \<Longrightarrow> core_id < num_cores \<Longrightarrow> num_cores \<le> CPU_SETSIZE \<Longrightarrow>
     stick_this_thread_to_core num_cores setaffinity core_id = setaffinity {core_id}"
  by (simp add: stick_this_thread_to_core_def)

end
